(* ===== verification/Uv_Prelude.thy ===== *)
theory Uv_Prelude
  imports Main "HOL-Library.Word" "HOL-Library.Char_ord" "HOL-Library.Product_Lexorder"
    "HOL-Library.Option_ord" "HOL-Library.List_Lexorder" "HOL-Library.Multiset"
begin

text \<open>
  The vocabulary every component theory shares: machine integers, Rust's \<open>Ordering\<close>, results with
  an explicit panic, bit fields of a 64-bit word, release lists compared with zero padding, and
  the \<open>named_theorems\<close> collections the component proofs draw on.
\<close>

unbundle bit_operations_syntax

named_theorems field_simps_u64 \<open>reading a bit field after a bit field was written\<close>
named_theorems version_refine \<open>what an operation does to the full representation\<close>
named_theorems version_inv \<open>operations that keep a version well-formed\<close>

section \<open>Machine integers\<close>

type_synonym u64 = "64 word"
type_synonym u8 = "8 word"

abbreviation u64_max :: u64 where
  "u64_max \<equiv> - 1"

text \<open>
  Rust's \<open>checked_add\<close>, \<open>checked_mul\<close> and \<open>checked_sub\<close>. The code equations compare on the
  integers, which have binary numerals.
\<close>

definition checked_add_u64 :: "u64 \<Rightarrow> u64 \<Rightarrow> u64 option" where
  "checked_add_u64 a b = (if unat a + unat b < 2 ^ 64 then Some (a + b) else None)"

definition checked_mul_u64 :: "u64 \<Rightarrow> u64 \<Rightarrow> u64 option" where
  "checked_mul_u64 a b = (if unat a * unat b < 2 ^ 64 then Some (a * b) else None)"

definition checked_add_u8 :: "u8 \<Rightarrow> u8 \<Rightarrow> u8 option" where
  "checked_add_u8 a b = (if unat a + unat b < 2 ^ 8 then Some (a + b) else None)"

definition checked_mul_u8 :: "u8 \<Rightarrow> u8 \<Rightarrow> u8 option" where
  "checked_mul_u8 a b = (if unat a * unat b < 2 ^ 8 then Some (a * b) else None)"

definition checked_sub_u8 :: "u8 \<Rightarrow> u8 \<Rightarrow> u8 option" where
  "checked_sub_u8 a b = (if b \<le> a then Some (a - b) else None)"

lemma unat_arith_int:
  "unat a + unat b < n \<longleftrightarrow> uint a + uint b < int n" "unat a * unat b < n \<longleftrightarrow> uint a * uint b < int n"
  by (metis of_nat_add of_nat_less_iff uint_nat, metis of_nat_mult of_nat_less_iff uint_nat)

lemma checked_code [code]:
  "checked_add_u64 a b = (if uint a + uint b < 18446744073709551616 then Some (a + b) else None)"
  "checked_mul_u64 a b = (if uint a * uint b < 18446744073709551616 then Some (a * b) else None)"
  "checked_add_u8 x y = (if uint x + uint y < 256 then Some (x + y) else None)"
  "checked_mul_u8 x y = (if uint x * uint y < 256 then Some (x * y) else None)"
  by (simp_all add: checked_add_u64_def checked_mul_u64_def checked_add_u8_def checked_mul_u8_def unat_arith_int)

lemma unat_u64_max: "unat u64_max = 2 ^ 64 - 1"
  by (simp add: unsigned_minus_1_eq_mask mask_eq_exp_minus_1)

lemma unat_plus_one: "x \<noteq> u64_max \<Longrightarrow> unat (x + 1) = Suc (unat x)"
proof -
  assume "x \<noteq> u64_max"
  then have "unat x \<noteq> 2 ^ 64 - 1" by (metis unat_u64_max word_unat_eq_iff)
  moreover have "unat x < 2 ^ 64" using unsigned_less [of x] by simp
  ultimately show ?thesis by (simp add: unat_word_ariths)
qed

lemma below_max_less: "x \<noteq> u64_max \<Longrightarrow> x < x + (1::u64)"
  using unat_plus_one [of x] by (simp add: word_less_nat_alt)

section \<open>Results with panics\<close>

text \<open>
  \<open>Ok\<close> and \<open>Err\<close> are Rust's \<open>Result\<close>; \<open>Panic\<close> is an \<open>assert!\<close>, \<open>expect\<close>,
  \<open>unreachable!\<close> or an index out of range.
\<close>

datatype ('a, 'e) outcome = Ok 'a | Err 'e | Panic

fun and_then :: "('a, 'e) outcome \<Rightarrow> ('a \<Rightarrow> ('b, 'e) outcome) \<Rightarrow> ('b, 'e) outcome" where
  "and_then (Ok x) f = f x"
| "and_then (Err e) f = Err e"
| "and_then Panic f = Panic"

lemma and_then_eq_Ok [simp]: "and_then m f = Ok y \<longleftrightarrow> (\<exists>x. m = Ok x \<and> f x = Ok y)"
  by (cases m) auto

lemma and_then_eq_Panic:
  "and_then m f = Panic \<longleftrightarrow> m = Panic \<or> (\<exists>x. m = Ok x \<and> f x = Panic)"
  by (cases m) auto

text \<open>\<open>safe Q m\<close>: the computation does not panic, and if it returns, the result satisfies \<open>Q\<close>.\<close>

fun safe :: "('a \<Rightarrow> bool) \<Rightarrow> ('a, 'e) outcome \<Rightarrow> bool" where
  "safe Q (Ok x) = Q x"
| "safe Q (Err e) = True"
| "safe Q Panic = False"

lemma safe_and_then:
  assumes "safe P m" "\<And>x. P x \<Longrightarrow> safe Q (f x)"
  shows "safe Q (and_then m f)"
  using assms by (cases m) auto

lemma safe_mono: "safe P m \<Longrightarrow> (\<And>x. P x \<Longrightarrow> Q x) \<Longrightarrow> safe Q m"
  by (cases m) auto

section \<open>Three-way comparison\<close>

datatype ordering = Less | Equal | Greater

definition cmp :: "'a::linorder \<Rightarrow> 'a \<Rightarrow> ordering" where
  "cmp x y = (if x < y then Less else if x = y then Equal else Greater)"

fun then_with :: "ordering \<Rightarrow> ordering \<Rightarrow> ordering" where
  "then_with Equal o' = o'"
| "then_with Less o' = Less"
| "then_with Greater o' = Greater"

lemma cmp_iff [simp]:
  "cmp x y = Less \<longleftrightarrow> x < y" "cmp x y = Equal \<longleftrightarrow> x = y" "cmp x y = Greater \<longleftrightarrow> y < x"
  by (auto simp: cmp_def)

lemma cmp_refl [simp]: "cmp x x = Equal"
  by simp

lemma cmp_Pair: "cmp (a, b) (c, d) = then_with (cmp a c) (cmp b d)"
  by (cases "cmp a c") (auto simp: cmp_def split: if_splits)

lemma cmp_Cons: "cmp (x # xs) (y # ys) = then_with (cmp x y) (cmp xs ys)"
  by (cases "cmp x y") (auto simp: cmp_def split: if_splits)

lemma cmp_lexI:
  fixes x y :: "'a::linorder" and a b :: "'b::linorder" and c d :: "'c::linorder"
  assumes "x < y \<longleftrightarrow> a < b \<or> a = b \<and> c < d" "y < x \<longleftrightarrow> b < a \<or> b = a \<and> d < c"
  shows "cmp x y = then_with (cmp a b) (cmp c d)"
  by (cases a b rule: linorder_cases; cases c d rule: linorder_cases)
    (use assms in \<open>auto simp: cmp_def\<close>)

lemma then_with_eq_Equal: "then_with a b = Equal \<longleftrightarrow> a = Equal \<and> b = Equal"
  by (cases a) auto

lemma then_with_eq_Less: "then_with a b = Less \<longleftrightarrow> a = Less \<or> a = Equal \<and> b = Less"
  by (cases a) auto

lemma then_with_neq: "a \<noteq> Equal \<Longrightarrow> then_with a x = a"
  by (cases a) simp_all

lemma then_with_assoc: "then_with (then_with a b) c = then_with a (then_with b c)"
  by (cases a) auto

lemma case_ordering_then_with:
  "(case a of Less \<Rightarrow> Less | Equal \<Rightarrow> b | Greater \<Rightarrow> Greater) = then_with a b"
  by (cases a) auto

lemma cmp_Some [simp]:
  "cmp (Some x) (Some y) = cmp x y" "cmp None (Some y) = Less" "cmp (Some y) None = Greater"
  by (simp_all add: cmp_def)

fun reverse_ordering :: "ordering \<Rightarrow> ordering" where
  "reverse_ordering Less = Greater"
| "reverse_ordering Equal = Equal"
| "reverse_ordering Greater = Less"

lemma reverse_ordering_eq [simp]:
  "reverse_ordering a = Less \<longleftrightarrow> a = Greater" "reverse_ordering a = Equal \<longleftrightarrow> a = Equal"
  "reverse_ordering a = Greater \<longleftrightarrow> a = Less"
  by (cases a; simp)+

section \<open>The contract of Ord\<close>

text \<open>
  What \<open>std::cmp::Ord\<close> asks of a \<open>cmp\<close> method, on the values that satisfy the type's invariant:
  reflexive, antisymmetric up to \<open>Equal\<close>, transitive. Sorting and equality are derived from it.
\<close>

fun insert_by :: "('a \<Rightarrow> 'a \<Rightarrow> ordering) \<Rightarrow> 'a \<Rightarrow> 'a list \<Rightarrow> 'a list" where
  "insert_by f x [] = [x]"
| "insert_by f x (y # ys) = (if f x y = Greater then y # insert_by f x ys else x # y # ys)"

text \<open>The result of the standard library's stable \<open>sort_by\<close>.\<close>

definition sort_by :: "('a \<Rightarrow> 'a \<Rightarrow> ordering) \<Rightarrow> 'a list \<Rightarrow> 'a list" where
  "sort_by f xs = foldr (insert_by f) xs []"

lemma mset_insert_by: "mset (insert_by f x xs) = add_mset x (mset xs)"
  by (induction xs) auto

lemma mset_sort_by [simp]: "mset (sort_by f xs) = mset xs"
  by (induction xs) (simp_all add: sort_by_def mset_insert_by)

lemma set_sort_by [simp]: "set (sort_by f xs) = set xs"
  by (metis mset_sort_by set_mset_mset)

locale rust_ord =
  fixes valid :: "'a \<Rightarrow> bool" and compare :: "'a \<Rightarrow> 'a \<Rightarrow> ordering"
  assumes compare_refl: "valid x \<Longrightarrow> compare x x = Equal"
    and compare_swap: "valid x \<Longrightarrow> valid y \<Longrightarrow> compare y x = reverse_ordering (compare x y)"
    and compare_le_trans: "valid x \<Longrightarrow> valid y \<Longrightarrow> valid z \<Longrightarrow> compare x y \<noteq> Greater \<Longrightarrow>
          compare y z \<noteq> Greater \<Longrightarrow> compare x z \<noteq> Greater"
begin

lemma compare_total: "valid x \<Longrightarrow> valid y \<Longrightarrow> compare x y \<noteq> Greater \<or> compare y x \<noteq> Greater"
  by (simp add: compare_swap [of x y])

lemma compare_less_le_trans:
  assumes "valid x" "valid y" "valid z" "compare x y = Less" "compare y z \<noteq> Greater"
  shows "compare x z = Less"
proof (rule ccontr)
  assume "compare x z \<noteq> Less"
  with assms compare_le_trans [of x y z] have "compare x z = Equal"
    by (metis ordering.distinct(3) ordering.exhaust)
  then have "compare z x \<noteq> Greater" using compare_swap [OF assms(1,3)] by simp
  with assms compare_le_trans [of y z x] have "compare y x \<noteq> Greater" by blast
  with assms compare_swap [OF assms(1,2)] show False by simp
qed

lemma compare_equal_trans:
  assumes "valid x" "valid y" "valid z" "compare x y = Equal" "compare y z = Equal"
  shows "compare x z = Equal"
proof -
  have "compare x z \<noteq> Greater" using compare_le_trans [of x y z] assms by simp
  moreover have "compare z x \<noteq> Greater"
    using compare_le_trans [of z y x] assms compare_swap [of x y] compare_swap [of y z] by simp
  ultimately show ?thesis using compare_swap [OF assms(1,3)] by (cases "compare x z") auto
qed

lemma insert_by_sorted:
  assumes "valid x" "\<forall>y \<in> set ys. valid y" "sorted_wrt (\<lambda>a b. compare a b \<noteq> Greater) ys"
  shows "sorted_wrt (\<lambda>a b. compare a b \<noteq> Greater) (insert_by compare x ys)"
  using assms
proof (induction ys)
  case (Cons y ys)
  have set: "set (insert_by compare x ys) = insert x (set ys)"
    by (metis mset_insert_by set_mset_add_mset_insert set_mset_mset)
  show ?case
  proof (cases "compare x y = Greater")
    case True
    then have "compare y x \<noteq> Greater" using Cons.prems compare_swap [of x y] by simp
    with True Cons set show ?thesis by auto
  next
    case False
    have "\<forall>z \<in> set ys. compare x z \<noteq> Greater"
      using False Cons.prems compare_le_trans [of x y] by fastforce
    with False Cons.prems show ?thesis by simp
  qed
qed simp

lemma sort_by_sorted:
  "\<forall>x \<in> set xs. valid x \<Longrightarrow> sorted_wrt (\<lambda>a b. compare a b \<noteq> Greater) (sort_by compare xs)"
proof (induction xs)
  case (Cons x xs)
  have "\<forall>y \<in> set (sort_by compare xs). valid y" using Cons.prems by simp
  with Cons show ?case
    using insert_by_sorted [of x "sort_by compare xs"] by (simp add: sort_by_def)
qed (simp add: sort_by_def)

end

lemma rust_ord_key:
  fixes key :: "'a \<Rightarrow> 'b::linorder"
  assumes "\<And>x y. valid x \<Longrightarrow> valid y \<Longrightarrow> compare x y = cmp (key x) (key y)"
  shows "rust_ord valid compare"
  using assms by unfold_locales (auto simp: cmp_def split: if_splits)

section \<open>Bit fields of a packed word\<close>

text \<open>
  \<open>bits_at p n w\<close> reads the \<open>n\<close> bits of \<open>w\<close> from position \<open>p\<close> upwards; \<open>put_bits p n v w\<close>
  overwrites them. The code writes the same operations with shifts and masks.
\<close>

definition bits_at :: "nat \<Rightarrow> nat \<Rightarrow> u64 \<Rightarrow> u64" where
  "bits_at p n w = take_bit n (drop_bit p w)"

definition put_bits :: "nat \<Rightarrow> nat \<Rightarrow> u64 \<Rightarrow> u64 \<Rightarrow> u64" where
  "put_bits p n v w = (w AND NOT (push_bit p (mask n))) OR push_bit p v"

lemma bit_bits_at [bit_simps]: "bit (bits_at p n w) i \<longleftrightarrow> i < n \<and> bit w (p + i)"
  by (auto simp: bits_at_def bit_simps)

lemma bit_put_bits [bit_simps]:
  "bit (put_bits p n v w) i \<longleftrightarrow>
     i < 64 \<and> ((bit w i \<and> \<not> (p \<le> i \<and> i < p + n)) \<or> (p \<le> i \<and> bit v (i - p)))"
  by (auto simp: put_bits_def bit_simps)

lemma small_bits: "take_bit n v = v \<Longrightarrow> bit (v::u64) i \<Longrightarrow> i < n"
  by (metis bit_take_bit_iff)

lemma bits_at_put_same [field_simps_u64]:
  assumes "take_bit n v = v" "p + n \<le> 64"
  shows "bits_at p n (put_bits p n v w) = v"
proof (rule bit_word_eqI)
  fix i assume "i < LENGTH(64)"
  then show "bit (bits_at p n (put_bits p n v w)) i = bit v i"
    using assms small_bits [of n v i] by (auto simp: bit_simps)
qed

lemma bits_at_put_other [field_simps_u64]:
  assumes "take_bit n v = v" "q + m \<le> p \<or> p + n \<le> q"
  shows "bits_at q m (put_bits p n v w) = bits_at q m w"
proof (rule bit_word_eqI)
  fix i assume "i < LENGTH(64)"
  have "\<not> (p \<le> q + i \<and> q + i < p + n)" "\<not> (p \<le> q + i \<and> bit v (q + i - p))" if "i < m"
    using assms(2) that small_bits [OF assms(1), of "q + i - p"] by auto
  moreover have "bit w (q + i) \<Longrightarrow> q + i < 64"
    using bit_imp_le_length [of w "q + i"] by simp
  ultimately show "bit (bits_at q m (put_bits p n v w)) i = bit (bits_at q m w) i"
    unfolding bit_bits_at bit_put_bits by blast
qed

lemma or_push_eq_put: "bits_at p n w = 0 \<Longrightarrow> w OR push_bit p v = put_bits p n v w"
proof (rule bit_word_eqI)
  fix i assume z: "bits_at p n w = 0" and i: "i < LENGTH(64)"
  have "\<not> bit (bits_at p n w) (i - p)" using z by simp
  then have "p \<le> i \<Longrightarrow> i < p + n \<Longrightarrow> \<not> bit w i" by (auto simp: bit_simps)
  then show "bit (w OR push_bit p v) i = bit (put_bits p n v w) i"
    using i by (auto simp: bit_simps)
qed

lemma bits_at_take_bit [simp]: "take_bit n (bits_at p n w) = bits_at p n w"
  by (simp add: bits_at_def)

lemma bits_at_bound: "n < 64 \<Longrightarrow> unat (bits_at p n w) < 2 ^ n"
  by (simp add: bits_at_def unsigned_take_bit_eq)

lemma bits_at_drop: "drop_bit q (bits_at p n w) = bits_at (p + q) (n - q) w"
  by (rule bit_word_eqI) (auto simp: bit_simps ac_simps less_diff_conv)

lemma bits_at_take: "q \<le> n \<Longrightarrow> take_bit q (bits_at p n w) = bits_at p q w"
  by (rule bit_word_eqI) (auto simp: bit_simps)

lemma bits_at_all: "bits_at 0 64 w = w"
  by (rule bit_word_eqI) (auto simp: bit_simps)

text \<open>
  A word is compared like the pair of its high and its low part: the packed comparison is
  lexicographic in the fields.
\<close>

lemma nat_less_div_mod:
  assumes "0 < (k::nat)"
  shows "x < y \<longleftrightarrow> x div k < y div k \<or> (x div k = y div k \<and> x mod k < y mod k)"
proof -
  consider "x div k < y div k" | "x div k = y div k" | "y div k < x div k" by linarith
  then show ?thesis
  proof cases
    case 1
    then have "x < y" by (meson div_le_mono not_less)
    with 1 show ?thesis by simp
  next
    case 2
    have "x < y \<longleftrightarrow> k * (x div k) + x mod k < k * (y div k) + y mod k"
      by (simp only: mult_div_mod_eq)
    also have "\<dots> \<longleftrightarrow> x mod k < y mod k"
      by (simp only: 2 nat_add_left_cancel_less)
    finally show ?thesis by (simp add: 2)
  next
    case 3
    then have "y < x" by (meson div_le_mono not_less)
    with 3 show ?thesis by simp
  qed
qed

lemma word_less_split:
  "(w1::u64) < w2 \<longleftrightarrow>
     drop_bit n w1 < drop_bit n w2 \<or> (drop_bit n w1 = drop_bit n w2 \<and> take_bit n w1 < take_bit n w2)"
proof -
  have d: "unat (drop_bit n w) = unat w div 2 ^ n" for w :: u64
    unfolding unat_drop_bit_eq by (rule drop_bit_eq_div)
  have t: "unat (take_bit n w) = unat w mod 2 ^ n" for w :: u64
    unfolding unsigned_take_bit_eq by (rule take_bit_eq_mod)
  show ?thesis
    using nat_less_div_mod [of "2 ^ n" "unat w1" "unat w2"]
    by (simp only: word_less_nat_alt word_unat_eq_iff d t zero_less_power zero_less_numeral)
qed

lemma bits_at_cmp_split:
  assumes "q \<le> n"
  shows "cmp (bits_at p n w1) (bits_at p n w2) =
    then_with (cmp (bits_at (p + q) (n - q) w1) (bits_at (p + q) (n - q) w2))
      (cmp (bits_at p q w1) (bits_at p q w2))"
  using word_less_split [of "bits_at p n w1" "bits_at p n w2" q]
    word_less_split [of "bits_at p n w2" "bits_at p n w1" q]
  by (intro cmp_lexI) (simp_all only: bits_at_drop bits_at_take [OF assms])

end
