(* ===== verification/Version_Data.thy ===== *)
theory Version_Data
  imports Uv_Prelude
begin

text \<open>
  The data of a PEP 440 version (\<open>crates/uv-pep440/src/version.rs\<close>): pre-release kinds, local
  segments with their ordering, the full representation \<open>VersionFull\<close>, and the ordering of
  release numbers with implicit trailing zeros (\<open>compare_release\<close>).
\<close>

section \<open>Pre-releases\<close>

datatype prerelease_kind = Alpha | Beta | Rc

datatype prerelease = Prerelease (pre_kind: prerelease_kind) (pre_number: u64)

fun prerelease_kind_rank :: "prerelease_kind \<Rightarrow> nat" where
  "prerelease_kind_rank Alpha = 0"
| "prerelease_kind_rank Beta = 1"
| "prerelease_kind_rank Rc = 2"

lemma prerelease_kind_rank_inj [simp]:
  "prerelease_kind_rank a = prerelease_kind_rank b \<longleftrightarrow> a = b"
  by (cases a; cases b) auto

instantiation prerelease_kind :: linorder
begin

definition "less_eq_prerelease_kind a b \<longleftrightarrow> prerelease_kind_rank a \<le> prerelease_kind_rank b"

definition "less_prerelease_kind a b \<longleftrightarrow> prerelease_kind_rank a < prerelease_kind_rank b"

instance
  by standard (auto simp: less_eq_prerelease_kind_def less_prerelease_kind_def dest: antisym)

end

instantiation prerelease :: linorder
begin

definition "less_eq_prerelease a b \<longleftrightarrow> (pre_kind a, pre_number a) \<le> (pre_kind b, pre_number b)"

definition "less_prerelease a b \<longleftrightarrow> (pre_kind a, pre_number a) < (pre_kind b, pre_number b)"

instance
  by standard
    (auto simp: less_eq_prerelease_def less_prerelease_def prerelease.expand split: if_splits)

end

section \<open>Local versions\<close>

datatype local_segment = LString string | LNumber u64

text \<open>
  \<open>LocalVersion\<close> and its borrowed form \<open>LocalVersionSlice\<close> hold the same data; \<open>LMax\<close> is the
  internal sentinel above every local version.
\<close>

datatype local_version = Segments "local_segment list" | LMax

fun cmp_local_segment :: "local_segment \<Rightarrow> local_segment \<Rightarrow> ordering" where
  "cmp_local_segment (LNumber n1) (LNumber n2) = cmp n1 n2"
| "cmp_local_segment (LString s1) (LString s2) = cmp s1 s2"
| "cmp_local_segment (LNumber _) (LString _) = Greater"
| "cmp_local_segment (LString _) (LNumber _) = Less"

instantiation local_segment :: linorder
begin

definition "less_eq_local_segment a b \<longleftrightarrow> cmp_local_segment a b \<noteq> Greater"

definition "less_local_segment a b \<longleftrightarrow> cmp_local_segment a b = Less"

instance
proof
  fix a b c :: local_segment
  note defs = less_eq_local_segment_def less_local_segment_def
  show "(a < b) = (a \<le> b \<and> \<not> b \<le> a)" by (cases a; cases b) (auto simp: defs)
  show "a \<le> a" by (cases a) (auto simp: defs)
  show "a \<le> b \<Longrightarrow> b \<le> c \<Longrightarrow> a \<le> c" by (cases a; cases b; cases c) (auto simp: defs)
  show "a \<le> b \<Longrightarrow> b \<le> a \<Longrightarrow> a = b" by (cases a; cases b) (auto simp: defs)
  show "a \<le> b \<or> b \<le> a" by (cases a; cases b) (auto simp: defs)
qed

end

fun cmp_local_version :: "local_version \<Rightarrow> local_version \<Rightarrow> ordering" where
  "cmp_local_version (Segments lv1) (Segments lv2) = cmp lv1 lv2"
| "cmp_local_version (Segments _) LMax = Less"
| "cmp_local_version LMax (Segments _) = Greater"
| "cmp_local_version LMax LMax = Equal"

instantiation local_version :: linorder
begin

definition "less_eq_local_version a b \<longleftrightarrow> cmp_local_version a b \<noteq> Greater"

definition "less_local_version a b \<longleftrightarrow> cmp_local_version a b = Less"

instance
proof
  fix a b c :: local_version
  note defs = less_eq_local_version_def less_local_version_def
  show "(a < b) = (a \<le> b \<and> \<not> b \<le> a)" by (cases a; cases b) (auto simp: defs)
  show "a \<le> a" by (cases a) (auto simp: defs)
  show "a \<le> b \<Longrightarrow> b \<le> c \<Longrightarrow> a \<le> c" by (cases a; cases b; cases c) (auto simp: defs)
  show "a \<le> b \<Longrightarrow> b \<le> a \<Longrightarrow> a = b" by (cases a; cases b) (auto simp: defs)
  show "a \<le> b \<or> b \<le> a" by (cases a; cases b) (auto simp: defs)
qed

end

lemma local_version_less [simp]:
  "Segments a < Segments b \<longleftrightarrow> a < b" "Segments a < LMax" "\<not> LMax < l"
  by (cases l; simp add: less_local_version_def)+

lemma local_version_le [simp]:
  "Segments a \<le> Segments b \<longleftrightarrow> a \<le> b" "l \<le> LMax" "\<not> LMax \<le> Segments a"
  by (cases l; simp add: less_eq_local_version_def not_less)+

definition local_empty :: local_version where
  "local_empty = Segments []"

fun local_is_empty :: "local_version \<Rightarrow> bool" where
  "local_is_empty (Segments segments) = (segments = [])"
| "local_is_empty LMax = False"

lemma local_is_empty_iff [simp]: "local_is_empty l \<longleftrightarrow> l = Segments []"
  by (cases l) auto

lemma local_empty_le [simp]: "Segments [] \<le> l"
  by (cases l) auto

section \<open>The full representation\<close>

record version_full =
  f_epoch :: u64
  f_release :: "u64 list"
  f_pre :: "prerelease option"
  f_post :: "u64 option"
  f_dev :: "u64 option"
  f_local :: local_version
  f_min :: "u64 option"
  f_max :: "u64 option"

section \<open>Release numbers\<close>

text \<open>
  \<open>compare_release\<close>: equal lengths are compared as slices, otherwise the shorter release is
  padded with zeros up to the longer one. The loop walks the zipped pair of padded iterators.
\<close>

fun compare_padded :: "u64 list \<Rightarrow> u64 list \<Rightarrow> nat \<Rightarrow> ordering" where
  "compare_padded this other 0 = Equal"
| "compare_padded this other (Suc n) =
    (let t = (case this of [] \<Rightarrow> 0 | x # _ \<Rightarrow> x); o' = (case other of [] \<Rightarrow> 0 | y # _ \<Rightarrow> y)
     in case cmp t o' of
          Less \<Rightarrow> Less
        | Greater \<Rightarrow> Greater
        | Equal \<Rightarrow> compare_padded (tl this) (tl other) n)"

definition compare_release :: "u64 list \<Rightarrow> u64 list \<Rightarrow> ordering" where
  "compare_release this other =
    (if length this = length other then cmp this other
     else compare_padded this other (max (length this) (length other)))"

text \<open>\<open>xs.get(i).copied().unwrap_or(0)\<close>: the release as a sequence padded with zeros.\<close>

definition get_or_zero :: "u64 list \<Rightarrow> nat \<Rightarrow> u64" where
  "get_or_zero xs i = (if i < length xs then xs ! i else 0)"

text \<open>The release without its trailing zeros: the canonical form \<open>compare_release\<close> compares.\<close>

definition trim_release :: "u64 list \<Rightarrow> u64 list" where
  "trim_release xs = rev (dropWhile (\<lambda>x. x = 0) (rev xs))"

lemma trim_release_Nil [simp]: "trim_release [] = []"
  by (simp add: trim_release_def)

lemma trim_release_Cons:
  "trim_release (x # xs) = (if x = 0 \<and> trim_release xs = [] then [] else x # trim_release xs)"
  by (auto simp: trim_release_def dropWhile_append dropWhile_eq_Nil_conv)

lemma trim_release_replicate [simp]: "trim_release (xs @ replicate n 0) = trim_release xs"
proof -
  have "trim_release (replicate n 0) = []"
    by (auto simp: trim_release_def dropWhile_eq_Nil_conv)
  then show ?thesis by (induction xs) (auto simp: trim_release_Cons)
qed

lemma trim_release_idem [simp]: "trim_release (trim_release xs) = trim_release xs"
  by (induction xs) (auto simp: trim_release_Cons)

lemma cmp_Nil_Cons [simp]: "cmp [] (y # ys) = Less" "cmp (y # ys) [] = Greater"
  by (simp_all add: cmp_def)

lemma cmp_zero: "cmp 0 y = (if y = 0 then Equal else Less)" "cmp y 0 = (if y = 0 then Equal else Greater)"
  for y :: u64
  by (auto simp: cmp_def word_gt_0)

lemma cmp_trim_Cons:
  "cmp (trim_release (x # xs)) (trim_release (y # ys)) =
     then_with (cmp x y) (cmp (trim_release xs) (trim_release ys))"
  by (cases "trim_release xs"; cases "trim_release ys") (auto simp: trim_release_Cons cmp_Cons cmp_zero)

lemma compare_padded_trim:
  "max (length this) (length other) \<le> n \<Longrightarrow>
     compare_padded this other n = cmp (trim_release this) (trim_release other)"
proof (induction this other n rule: compare_padded.induct)
  case (1 this other)
  then show ?case by simp
next
  case (2 this other n)
  let ?t = "case this of [] \<Rightarrow> 0 | x # _ \<Rightarrow> x" and ?o = "case other of [] \<Rightarrow> 0 | y # _ \<Rightarrow> y"
  have hd_tl: "trim_release xs = trim_release ((case xs of [] \<Rightarrow> 0 | x # _ \<Rightarrow> x) # tl xs)" for xs
    by (cases xs) (simp_all add: trim_release_Cons)
  have IH: "cmp ?t ?o = Equal \<Longrightarrow>
      compare_padded (tl this) (tl other) n = cmp (trim_release (tl this)) (trim_release (tl other))"
    using "2.IH" [OF refl refl] "2.prems" by (auto simp: le_diff_conv)
  have "compare_padded this other (Suc n) =
      then_with (cmp ?t ?o) (cmp (trim_release (tl this)) (trim_release (tl other)))"
    using IH by (cases "cmp ?t ?o") (simp_all add: Let_def del: cmp_iff)
  also have "\<dots> = cmp (trim_release this) (trim_release other)"
    by (subst (3 4) hd_tl) (simp only: cmp_trim_Cons)
  finally show ?case .
qed

lemma cmp_same_length: "length xs = length ys \<Longrightarrow> cmp xs ys = cmp (trim_release xs) (trim_release ys)"
  by (induction xs ys rule: list_induct2) (simp_all add: cmp_Cons cmp_trim_Cons)

lemma compare_release_trim: "compare_release this other = cmp (trim_release this) (trim_release other)"
  by (simp add: compare_release_def compare_padded_trim cmp_same_length)

text \<open>
  Trimmed releases are equal, or ordered, exactly when the zero-padded sequences are: the form in
  which the proofs about bumps and specifiers use \<open>compare_release\<close>.
\<close>

lemma get_or_zero_simps [simp]:
  "get_or_zero [] i = 0" "get_or_zero (x # xs) 0 = x" "get_or_zero (x # xs) (Suc i) = get_or_zero xs i"
  by (simp_all add: get_or_zero_def)

lemma trim_release_Nil_iff: "trim_release xs = [] \<longleftrightarrow> (\<forall>i. get_or_zero xs i = 0)"
proof (induction xs)
  case (Cons x xs)
  have "(\<forall>i. get_or_zero (x # xs) i = 0) \<longleftrightarrow> x = 0 \<and> (\<forall>i. get_or_zero xs i = 0)"
    by (metis get_or_zero_simps(2,3) not0_implies_Suc)
  with Cons show ?case by (simp add: trim_release_Cons)
qed simp

lemma trim_release_eq_iff:
  "trim_release xs = trim_release ys \<longleftrightarrow> (\<forall>i. get_or_zero xs i = get_or_zero ys i)"
proof (induction xs ys rule: list_induct2')
  case (4 x xs y ys)
  have "(\<forall>i. get_or_zero (x # xs) i = get_or_zero (y # ys) i) \<longleftrightarrow>
      x = y \<and> (\<forall>i. get_or_zero xs i = get_or_zero ys i)"
    by (metis get_or_zero_simps(2,3) not0_implies_Suc)
  with 4 cmp_trim_Cons [of x xs y ys] show ?case
    by (simp only: then_with_eq_Equal cmp_iff flip: cmp_iff(2)) (simp only: cmp_iff)
next
  case (2 x xs)
  then show ?case by (simp add: trim_release_Nil_iff)
next
  case (3 y ys)
  then show ?case using trim_release_Nil_iff [of "y # ys"] by (metis get_or_zero_simps(1) trim_release_Nil)
qed simp

lemma ex_nat_split: "(\<exists>i. P i) \<longleftrightarrow> P 0 \<or> (\<exists>i. P (Suc i))"
  by (metis not0_implies_Suc)

lemma trim_release_less_iff:
  "trim_release xs < trim_release ys \<longleftrightarrow>
     (\<exists>i. (\<forall>j < i. get_or_zero xs j = get_or_zero ys j) \<and> get_or_zero xs i < get_or_zero ys i)"
proof (induction xs ys rule: list_induct2')
  case (4 x xs y ys)
  have "trim_release (x # xs) < trim_release (y # ys) \<longleftrightarrow>
      x < y \<or> x = y \<and> trim_release xs < trim_release ys"
    using cmp_trim_Cons [of x xs y ys]
    by (simp only: then_with_eq_Less flip: cmp_iff(1)) (simp only: cmp_iff)
  with 4 show ?case by (subst ex_nat_split) (auto simp: All_less_Suc2)
next
  case (3 y ys)
  have "trim_release (y # ys) \<noteq> [] \<longleftrightarrow> (\<exists>i. get_or_zero (y # ys) i \<noteq> 0)"
    by (simp add: trim_release_Nil_iff)
  also have "\<dots> \<longleftrightarrow> (\<exists>i. get_or_zero (y # ys) i \<noteq> 0 \<and> (\<forall>j<i. get_or_zero (y # ys) j = 0))"
    using exists_least_iff [of "\<lambda>i. get_or_zero (y # ys) i \<noteq> 0"] by simp
  finally have "trim_release (y # ys) \<noteq> [] \<longleftrightarrow>
      (\<exists>i. (\<forall>j<i. 0 = get_or_zero (y # ys) j) \<and> 0 < get_or_zero (y # ys) i)"
    by (auto simp: word_gt_0)
  then show ?case by (cases "trim_release (y # ys)") auto
qed auto

end
