(* ===== verification/Version_Small.thy ===== *)
theory Version_Small
  imports Version_Data
begin

text \<open>
  \<open>VersionSmall\<close> of \<open>crates/uv-pep440/src/version.rs\<close>: a version packed into a \<open>u64\<close>. The first
  release number takes bits 48 to 63, the next three take a byte each, the suffix kind takes bits
  20 to 23 and the suffix number the low 20 bits. Each setter returns whether the value could be
  stored, together with the updated struct. The niche byte of the struct carries no data and is
  left out; \<open>debug_assert!\<close>s are facts about the arguments, not behaviour of the release build.
\<close>

section \<open>The packed struct and its constants\<close>

record version_small =
  repr :: u64
  rlen :: u8

abbreviation (input) SUFFIX_MIN :: u64 where "SUFFIX_MIN \<equiv> 0"

abbreviation (input) SUFFIX_DEV :: u64 where "SUFFIX_DEV \<equiv> 1"

abbreviation (input) SUFFIX_PRE_ALPHA :: u64 where "SUFFIX_PRE_ALPHA \<equiv> 2"

abbreviation (input) SUFFIX_PRE_BETA :: u64 where "SUFFIX_PRE_BETA \<equiv> 3"

abbreviation (input) SUFFIX_PRE_RC :: u64 where "SUFFIX_PRE_RC \<equiv> 4"

abbreviation (input) SUFFIX_NONE :: u64 where "SUFFIX_NONE \<equiv> 5"

abbreviation (input) SUFFIX_LOCAL :: u64 where "SUFFIX_LOCAL \<equiv> 6"

abbreviation (input) SUFFIX_POST :: u64 where "SUFFIX_POST \<equiv> 7"

abbreviation (input) SUFFIX_MAX :: u64 where "SUFFIX_MAX \<equiv> 8"

abbreviation (input) SUFFIX_RELEASE_MASK :: u64 where "SUFFIX_RELEASE_MASK \<equiv> 0xFFFFFFFFFF000000"

abbreviation (input) SUFFIX_VERSION_MASK :: u64 where "SUFFIX_VERSION_MASK \<equiv> 0x000FFFFF"

abbreviation (input) SUFFIX_VERSION_BIT_LEN :: nat where "SUFFIX_VERSION_BIT_LEN \<equiv> 20"

abbreviation (input) SUFFIX_KIND_MASK :: u64 where "SUFFIX_KIND_MASK \<equiv> 0xF"

definition small_new :: version_small where
  "small_new = \<lparr>repr = push_bit SUFFIX_VERSION_BIT_LEN SUFFIX_NONE, rlen = 0\<rparr>"

section \<open>Suffix kind and number\<close>

definition suffix_kind :: "version_small \<Rightarrow> u64" where
  "suffix_kind s = drop_bit SUFFIX_VERSION_BIT_LEN (repr s) AND SUFFIX_KIND_MASK"

definition suffix_version :: "version_small \<Rightarrow> u64" where
  "suffix_version s = repr s AND SUFFIX_VERSION_MASK"

definition set_suffix_version :: "u64 \<Rightarrow> version_small \<Rightarrow> version_small" where
  "set_suffix_version v s =
    (let s = s\<lparr>repr := repr s AND NOT SUFFIX_VERSION_MASK\<rparr> in s\<lparr>repr := repr s OR v\<rparr>)"

definition set_suffix_kind :: "u64 \<Rightarrow> version_small \<Rightarrow> version_small" where
  "set_suffix_kind k s =
    (let s = s\<lparr>repr := repr s AND NOT (push_bit SUFFIX_VERSION_BIT_LEN SUFFIX_KIND_MASK)\<rparr>;
         s = s\<lparr>repr := repr s OR push_bit SUFFIX_VERSION_BIT_LEN k\<rparr>
     in if k = SUFFIX_NONE \<or> k = SUFFIX_LOCAL then set_suffix_version 0 s else s)"

section \<open>Epoch and release\<close>

definition small_epoch :: "version_small \<Rightarrow> u64" where
  "small_epoch s = 0"

definition set_epoch :: "u64 \<Rightarrow> version_small \<Rightarrow> bool \<times> version_small" where
  "set_epoch v s = (if v \<noteq> 0 then (False, s) else (True, s))"

definition small_clear_release :: "version_small \<Rightarrow> version_small" where
  "small_clear_release s = s\<lparr>repr := repr s AND NOT SUFFIX_RELEASE_MASK, rlen := 0\<rparr>"

definition small_push_release :: "u64 \<Rightarrow> version_small \<Rightarrow> bool \<times> version_small" where
  "small_push_release n s =
    (if rlen s = 0 then
       if n > 0xFFFF then (False, s)
       else (True, s\<lparr>repr := repr s OR push_bit 48 n, rlen := 1\<rparr>)
     else if n > 0xFF then (False, s)
     else if rlen s \<ge> 4 then (False, s)
     else (let shift = 48 - unat (rlen s) * 8
           in (True, s\<lparr>repr := repr s OR push_bit shift n, rlen := rlen s + 1\<rparr>)))"

text \<open>
  The \<open>Small\<close> arm of \<open>Version::release\<close>. \<open>None\<close> is the \<open>unreachable!\<close> arm: a length above 4,
  which \<open>small_inv\<close> below rules out.
\<close>

definition small_release :: "version_small \<Rightarrow> u64 list option" where
  "small_release s =
    (let a = drop_bit 48 (repr s) AND 0xFFFF; b = drop_bit 40 (repr s) AND 0xFF;
         c = drop_bit 32 (repr s) AND 0xFF; d = drop_bit 24 (repr s) AND 0xFF
     in if rlen s = 0 then Some []
        else if rlen s = 1 then Some [a]
        else if rlen s = 2 then Some [a, b]
        else if rlen s = 3 then Some [a, b, c]
        else if rlen s = 4 then Some [a, b, c, d]
        else None)"

section \<open>Suffix getters and setters\<close>

definition small_post :: "version_small \<Rightarrow> u64 option" where
  "small_post s = (if suffix_kind s = SUFFIX_POST then Some (suffix_version s) else None)"

definition set_post :: "u64 option \<Rightarrow> version_small \<Rightarrow> bool \<times> version_small" where
  "set_post v s =
    (if \<not> (suffix_kind s = SUFFIX_NONE \<or> suffix_kind s = SUFFIX_POST) then (v = None, s)
     else case v of
       None \<Rightarrow> (True, set_suffix_kind SUFFIX_NONE s)
     | Some number \<Rightarrow>
         if number > SUFFIX_VERSION_MASK then (False, s)
         else (True, set_suffix_version number (set_suffix_kind SUFFIX_POST s)))"

definition small_pre :: "version_small \<Rightarrow> prerelease option" where
  "small_pre s =
    (let k = suffix_kind s; number = suffix_version s
     in if k = SUFFIX_PRE_ALPHA then Some (Prerelease Alpha number)
        else if k = SUFFIX_PRE_BETA then Some (Prerelease Beta number)
        else if k = SUFFIX_PRE_RC then Some (Prerelease Rc number)
        else None)"

definition set_pre :: "prerelease option \<Rightarrow> version_small \<Rightarrow> bool \<times> version_small" where
  "set_pre v s =
    (if \<not> (suffix_kind s = SUFFIX_NONE \<or> suffix_kind s = SUFFIX_PRE_ALPHA
           \<or> suffix_kind s = SUFFIX_PRE_BETA \<or> suffix_kind s = SUFFIX_PRE_RC) then (v = None, s)
     else case v of
       None \<Rightarrow> (True, set_suffix_kind SUFFIX_NONE s)
     | Some (Prerelease k number) \<Rightarrow>
         if number > SUFFIX_VERSION_MASK then (False, s)
         else (True, set_suffix_version number
           (case k of
              Alpha \<Rightarrow> set_suffix_kind SUFFIX_PRE_ALPHA s
            | Beta \<Rightarrow> set_suffix_kind SUFFIX_PRE_BETA s
            | Rc \<Rightarrow> set_suffix_kind SUFFIX_PRE_RC s)))"

definition small_dev :: "version_small \<Rightarrow> u64 option" where
  "small_dev s = (if suffix_kind s = SUFFIX_DEV then Some (suffix_version s) else None)"

definition set_dev :: "u64 option \<Rightarrow> version_small \<Rightarrow> bool \<times> version_small" where
  "set_dev v s =
    (if \<not> (suffix_kind s = SUFFIX_NONE \<or> suffix_kind s = SUFFIX_DEV) then (v = None, s)
     else case v of
       None \<Rightarrow> (True, set_suffix_kind SUFFIX_NONE s)
     | Some number \<Rightarrow>
         if number > SUFFIX_VERSION_MASK then (False, s)
         else (True, set_suffix_version number (set_suffix_kind SUFFIX_DEV s)))"

definition small_min :: "version_small \<Rightarrow> u64 option" where
  "small_min s = (if suffix_kind s = SUFFIX_MIN then Some (suffix_version s) else None)"

definition set_min :: "u64 option \<Rightarrow> version_small \<Rightarrow> bool \<times> version_small" where
  "set_min v s =
    (if \<not> (suffix_kind s = SUFFIX_NONE \<or> suffix_kind s = SUFFIX_MIN) then (v = None, s)
     else case v of
       None \<Rightarrow> (True, set_suffix_kind SUFFIX_NONE s)
     | Some number \<Rightarrow>
         if number > SUFFIX_VERSION_MASK then (False, s)
         else (True, set_suffix_version number (set_suffix_kind SUFFIX_MIN s)))"

definition small_max :: "version_small \<Rightarrow> u64 option" where
  "small_max s = (if suffix_kind s = SUFFIX_MAX then Some (suffix_version s) else None)"

definition set_max :: "u64 option \<Rightarrow> version_small \<Rightarrow> bool \<times> version_small" where
  "set_max v s =
    (if \<not> (suffix_kind s = SUFFIX_NONE \<or> suffix_kind s = SUFFIX_MAX) then (v = None, s)
     else case v of
       None \<Rightarrow> (True, set_suffix_kind SUFFIX_NONE s)
     | Some number \<Rightarrow>
         if number > SUFFIX_VERSION_MASK then (False, s)
         else (True, set_suffix_version number (set_suffix_kind SUFFIX_MAX s)))"

definition small_local :: "version_small \<Rightarrow> local_version" where
  "small_local s = (if suffix_kind s = SUFFIX_LOCAL then LMax else local_empty)"

definition set_local :: "local_version \<Rightarrow> version_small \<Rightarrow> bool \<times> version_small" where
  "set_local v s =
    (if \<not> (suffix_kind s = SUFFIX_NONE \<or> suffix_kind s = SUFFIX_LOCAL) then (local_is_empty v, s)
     else case v of
       LMax \<Rightarrow> (True, set_suffix_kind SUFFIX_LOCAL s)
     | Segments segments \<Rightarrow>
         if segments = [] then (True, set_suffix_kind SUFFIX_NONE s) else (False, s))"

text \<open>The conversion of \<open>Version::make_full\<close> for a packed version.\<close>

definition small_full :: "version_small \<Rightarrow> version_full" where
  "small_full s =
    \<lparr>f_epoch = small_epoch s, f_release = the (small_release s), f_pre = small_pre s,
     f_post = small_post s, f_dev = small_dev s, f_local = small_local s,
     f_min = small_min s, f_max = small_max s\<rparr>"

section \<open>Invariant and field lemmas\<close>

text \<open>
  The release number stored at index \<open>i\<close>, and the invariant every packed version satisfies: the
  length and the suffix kind are in range, a kind without a number has number 0, and the release
  numbers beyond the length are 0 (so that packed words compare like zero-padded releases).
\<close>

definition seg_width :: "nat \<Rightarrow> nat" where
  "seg_width i = (if i = 0 then 16 else 8)"

definition seg :: "nat \<Rightarrow> version_small \<Rightarrow> u64" where
  "seg i s = bits_at (48 - 8 * i) (seg_width i) (repr s)"

definition small_inv :: "version_small \<Rightarrow> bool" where
  "small_inv s \<longleftrightarrow>
     rlen s \<le> 4 \<and> suffix_kind s \<le> SUFFIX_MAX
     \<and> (suffix_kind s = SUFFIX_NONE \<or> suffix_kind s = SUFFIX_LOCAL \<longrightarrow> suffix_version s = 0)
     \<and> (\<forall>i < 4. unat (rlen s) \<le> i \<longrightarrow> seg i s = 0)"

lemma mask_consts:
  "(0xF::u64) = mask 4" "(0xFF::u64) = mask 8" "(0xFFFF::u64) = mask 16" "(0xFFFFF::u64) = mask 20"
  by (simp_all add: mask_eq_exp_minus_1)

lemma suffix_kind_bits: "suffix_kind s = bits_at 20 4 (repr s)"
  unfolding suffix_kind_def mask_consts bits_at_def by (simp only: take_bit_eq_mask)

lemma suffix_version_bits: "suffix_version s = bits_at 0 20 (repr s)"
  unfolding suffix_version_def mask_consts bits_at_def by (simp only: take_bit_eq_mask drop_bit_0 id_apply)

lemma set_suffix_version_bits: "set_suffix_version v s = s\<lparr>repr := put_bits 0 20 v (repr s)\<rparr>"
  unfolding set_suffix_version_def mask_consts put_bits_def by (simp add: Let_def)

lemma set_suffix_kind_bits:
  "set_suffix_kind k s = s\<lparr>repr := (if k = SUFFIX_NONE \<or> k = SUFFIX_LOCAL
      then put_bits 0 20 0 (put_bits 20 4 k (repr s)) else put_bits 20 4 k (repr s))\<rparr>"
  unfolding set_suffix_kind_def mask_consts(1) Let_def put_bits_def [symmetric]
  by (simp add: set_suffix_version_bits put_bits_def)

lemma take_bit_small: "unat (v::u64) < 2 ^ n \<Longrightarrow> take_bit n v = v"
  by (simp add: word_unat_eq_iff unsigned_take_bit_eq take_bit_nat_eq_self)

lemma fits [simp]:
  "v \<le> SUFFIX_VERSION_MASK \<Longrightarrow> take_bit 20 v = v"
  "v \<le> 0xFF \<Longrightarrow> take_bit 8 v = v"
  "v \<le> 0xFFFF \<Longrightarrow> take_bit 16 v = v"
  "v \<le> SUFFIX_MAX \<Longrightarrow> take_bit 4 v = v"
  by (rule take_bit_small; simp add: word_le_nat_alt)+

lemma suffix_kind_set_version [simp]:
  "v \<le> SUFFIX_VERSION_MASK \<Longrightarrow> suffix_kind (set_suffix_version v s) = suffix_kind s"
  by (simp add: suffix_kind_bits set_suffix_version_bits field_simps_u64)

lemma suffix_version_set_version [simp]:
  "v \<le> SUFFIX_VERSION_MASK \<Longrightarrow> suffix_version (set_suffix_version v s) = v"
  by (simp add: suffix_version_bits set_suffix_version_bits field_simps_u64)

lemma suffix_kind_set_kind [simp]:
  "k \<le> SUFFIX_MAX \<Longrightarrow> suffix_kind (set_suffix_kind k s) = k"
  by (simp add: suffix_kind_bits set_suffix_kind_bits field_simps_u64)

lemma suffix_version_set_kind [simp]:
  "k \<le> SUFFIX_MAX \<Longrightarrow> suffix_version (set_suffix_kind k s) =
     (if k = SUFFIX_NONE \<or> k = SUFFIX_LOCAL then 0 else suffix_version s)"
  by (simp add: suffix_version_bits set_suffix_kind_bits field_simps_u64)

lemma seg_set_version [simp]:
  "v \<le> SUFFIX_VERSION_MASK \<Longrightarrow> i < 4 \<Longrightarrow> seg i (set_suffix_version v s) = seg i s"
  by (simp add: seg_def set_suffix_version_bits field_simps_u64)

lemma seg_set_kind [simp]:
  "k \<le> SUFFIX_MAX \<Longrightarrow> i < 4 \<Longrightarrow> seg i (set_suffix_kind k s) = seg i s"
proof -
  assume "k \<le> SUFFIX_MAX" "i < 4"
  moreover from this have "24 \<le> 48 - 8 * i" by simp
  ultimately show ?thesis by (simp add: seg_def set_suffix_kind_bits field_simps_u64)
qed

lemma rlen_set [simp]: "rlen (set_suffix_version v s) = rlen s" "rlen (set_suffix_kind k s) = rlen s"
  by (simp_all add: set_suffix_version_bits set_suffix_kind_bits)

lemma rlen_cases:
  assumes "rlen s \<le> 4"
  obtains "rlen s = 0" | "rlen s = 1" | "rlen s = 2" | "rlen s = 3" | "rlen s = 4"
proof -
  have "unat (rlen s) \<le> 4" using assms by (simp add: word_le_nat_alt)
  then consider "unat (rlen s) = 0" | "unat (rlen s) = 1" | "unat (rlen s) = 2"
    | "unat (rlen s) = 3" | "unat (rlen s) = 4"
    by linarith
  then show ?thesis
    by cases (use that in \<open>auto simp: word_unat_eq_iff\<close>)
qed

lemma upt_simps:
  "[0..<1] = [0::nat]" "[0..<2] = [0::nat, 1]" "[0..<3] = [0::nat, 1, 2]" "[0..<4] = [0::nat, 1, 2, 3]"
  by (simp_all add: upt_rec)

lemma small_release_segs:
  assumes "small_inv s"
  shows "small_release s = Some (map (\<lambda>i. seg i s) [0..<unat (rlen s)])"
proof -
  have segs: "drop_bit 48 (repr s) AND 0xFFFF = seg 0 s" "drop_bit 40 (repr s) AND 0xFF = seg 1 s"
    "drop_bit 32 (repr s) AND 0xFF = seg 2 s" "drop_bit 24 (repr s) AND 0xFF = seg 3 s"
    unfolding seg_def bits_at_def mask_consts take_bit_eq_mask by (simp_all add: seg_width_def)
  from assms have "rlen s \<le> 4" by (simp add: small_inv_def)
  then show ?thesis
    unfolding small_release_def Let_def segs
    by (cases s rule: rlen_cases) (simp_all add: upt_simps)
qed

lemma small_inv_set_kind: "small_inv s \<Longrightarrow> k \<le> SUFFIX_MAX \<Longrightarrow> small_inv (set_suffix_kind k s)"
  by (simp add: small_inv_def)

lemma small_inv_set_version:
  "small_inv s \<Longrightarrow> v \<le> SUFFIX_VERSION_MASK \<Longrightarrow> suffix_kind s \<noteq> SUFFIX_NONE \<Longrightarrow>
     suffix_kind s \<noteq> SUFFIX_LOCAL \<Longrightarrow> small_inv (set_suffix_version v s)"
  by (simp add: small_inv_def)

lemma small_release_set_kind [simp]:
  "small_inv s \<Longrightarrow> k \<le> SUFFIX_MAX \<Longrightarrow> small_release (set_suffix_kind k s) = small_release s"
  by (auto simp: small_release_segs small_inv_set_kind small_inv_def word_le_nat_alt)

lemma small_release_set_version [simp]:
  "small_inv s \<Longrightarrow> v \<le> SUFFIX_VERSION_MASK \<Longrightarrow> suffix_kind s \<noteq> SUFFIX_NONE \<Longrightarrow>
     suffix_kind s \<noteq> SUFFIX_LOCAL \<Longrightarrow> small_release (set_suffix_version v s) = small_release s"
  by (auto simp: small_release_segs small_inv_set_version small_inv_def word_le_nat_alt)

lemmas small_getters = small_full_def small_epoch_def small_post_def small_pre_def small_dev_def
  small_min_def small_max_def small_local_def local_empty_def Let_def

lemmas small_setter_splits = if_splits option.splits prerelease.splits prerelease_kind.splits
  local_version.splits

text \<open>
  When a setter reports success, the invariant is kept and the full representation changes in
  exactly that component; when it reports failure the struct is unchanged.
\<close>

lemma set_epoch_ok:
  "small_inv s \<Longrightarrow> set_epoch v s = (True, s') \<Longrightarrow>
     small_inv s' \<and> small_full s' = (small_full s)\<lparr>f_epoch := v\<rparr>"
  by (auto simp: set_epoch_def small_getters small_inv_set_kind small_inv_set_version
      split: small_setter_splits)

lemma set_epoch_rejected: "set_epoch v s = (False, s') \<Longrightarrow> s' = s"
  by (auto simp: set_epoch_def split: small_setter_splits)

lemma set_post_ok:
  "small_inv s \<Longrightarrow> set_post v s = (True, s') \<Longrightarrow>
     small_inv s' \<and> small_full s' = (small_full s)\<lparr>f_post := v\<rparr>"
  by (auto simp: set_post_def small_getters small_inv_set_kind small_inv_set_version
      split: small_setter_splits)

lemma set_post_rejected: "set_post v s = (False, s') \<Longrightarrow> s' = s"
  by (auto simp: set_post_def split: small_setter_splits)

lemma set_pre_ok:
  "small_inv s \<Longrightarrow> set_pre v s = (True, s') \<Longrightarrow>
     small_inv s' \<and> small_full s' = (small_full s)\<lparr>f_pre := v\<rparr>"
  by (auto simp: set_pre_def small_getters small_inv_set_kind small_inv_set_version
      split: small_setter_splits)

lemma set_pre_rejected: "set_pre v s = (False, s') \<Longrightarrow> s' = s"
  by (auto simp: set_pre_def split: small_setter_splits)

lemma set_dev_ok:
  "small_inv s \<Longrightarrow> set_dev v s = (True, s') \<Longrightarrow>
     small_inv s' \<and> small_full s' = (small_full s)\<lparr>f_dev := v\<rparr>"
  by (auto simp: set_dev_def small_getters small_inv_set_kind small_inv_set_version
      split: small_setter_splits)

lemma set_dev_rejected: "set_dev v s = (False, s') \<Longrightarrow> s' = s"
  by (auto simp: set_dev_def split: small_setter_splits)

lemma set_min_ok:
  "small_inv s \<Longrightarrow> set_min v s = (True, s') \<Longrightarrow>
     small_inv s' \<and> small_full s' = (small_full s)\<lparr>f_min := v\<rparr>"
  by (auto simp: set_min_def small_getters small_inv_set_kind small_inv_set_version
      split: small_setter_splits)

lemma set_min_rejected: "set_min v s = (False, s') \<Longrightarrow> s' = s"
  by (auto simp: set_min_def split: small_setter_splits)

lemma set_max_ok:
  "small_inv s \<Longrightarrow> set_max v s = (True, s') \<Longrightarrow>
     small_inv s' \<and> small_full s' = (small_full s)\<lparr>f_max := v\<rparr>"
  by (auto simp: set_max_def small_getters small_inv_set_kind small_inv_set_version
      split: small_setter_splits)

lemma set_max_rejected: "set_max v s = (False, s') \<Longrightarrow> s' = s"
  by (auto simp: set_max_def split: small_setter_splits)

lemma set_local_ok:
  "small_inv s \<Longrightarrow> set_local v s = (True, s') \<Longrightarrow>
     small_inv s' \<and> small_full s' = (small_full s)\<lparr>f_local := v\<rparr>"
  by (auto simp: set_local_def small_getters small_inv_set_kind small_inv_set_version
      split: small_setter_splits)

lemma set_local_rejected: "set_local v s = (False, s') \<Longrightarrow> s' = s"
  by (auto simp: set_local_def split: small_setter_splits)

lemma all_less_4: "(\<forall>i < 4. P i) \<longleftrightarrow> P 0 \<and> P 1 \<and> P 2 \<and> P (3::nat)"
  by (auto simp: numeral_eq_Suc less_Suc_eq)

lemma small_new_inv: "small_inv small_new"
  by (simp add: small_inv_def all_less_4 small_new_def seg_def seg_width_def suffix_kind_def
      suffix_version_def bits_at_def)

lemma small_new_full:
  "small_full small_new = \<lparr>f_epoch = 0, f_release = [], f_pre = None, f_post = None,
     f_dev = None, f_local = local_empty, f_min = None, f_max = None\<rparr>"
  by (simp add: small_getters small_release_def small_new_def suffix_kind_def suffix_version_def)

lemma clear_bits: "repr (small_clear_release s) = bits_at 0 24 (repr s)"
proof -
  have "NOT SUFFIX_RELEASE_MASK = mask 24" by (simp add: mask_eq_exp_minus_1)
  then show ?thesis by (simp add: small_clear_release_def bits_at_def take_bit_eq_mask)
qed

lemma bits_at_bits_at: "q + m \<le> n \<Longrightarrow> bits_at q m (bits_at 0 n w) = bits_at q m w"
  by (rule bit_word_eqI) (auto simp: bit_simps)

lemma bits_at_bits_at_zero: "n \<le> q \<Longrightarrow> bits_at q m (bits_at 0 n w) = 0"
  by (rule bit_word_eqI) (auto simp: bit_simps)

lemma small_clear_ok:
  assumes inv: "small_inv s"
  shows "small_inv (small_clear_release s)"
    "small_full (small_clear_release s) = (small_full s)\<lparr>f_release := []\<rparr>"
proof -
  have [simp]: "rlen (small_clear_release s) = 0" by (simp add: small_clear_release_def)
  have k: "suffix_kind (small_clear_release s) = suffix_kind s"
    "suffix_version (small_clear_release s) = suffix_version s"
    by (simp_all add: suffix_kind_bits suffix_version_bits clear_bits bits_at_bits_at)
  have "seg i (small_clear_release s) = 0" if "i < 4" for i
    using that by (simp add: seg_def clear_bits bits_at_bits_at_zero)
  with inv show "small_inv (small_clear_release s)"
    "small_full (small_clear_release s) = (small_full s)\<lparr>f_release := []\<rparr>"
    by (simp_all add: small_inv_def k small_getters small_release_def)
qed

lemma small_push_put:
  assumes "small_inv s" "small_push_release n s = (True, s')"
  defines "r \<equiv> unat (rlen s)"
  shows "r < 4" "take_bit (seg_width r) n = n"
    "s' = s\<lparr>repr := put_bits (48 - 8 * r) (seg_width r) n (repr s), rlen := rlen s + 1\<rparr>"
proof -
  show r: "r < 4"
    using assms(2) by (auto simp: small_push_release_def r_def word_le_nat_alt split: if_splits)
  show "take_bit (seg_width r) n = n"
    using assms(2) by (auto simp: small_push_release_def r_def seg_width_def unat_eq_0 split: if_splits)
  have "seg r s = 0" using assms(1) r by (simp add: small_inv_def r_def)
  then have "repr s OR push_bit (48 - 8 * r) n = put_bits (48 - 8 * r) (seg_width r) n (repr s)"
    by (intro or_push_eq_put) (simp add: seg_def)
  then show "s' = s\<lparr>repr := put_bits (48 - 8 * r) (seg_width r) n (repr s), rlen := rlen s + 1\<rparr>"
    using assms(2)
    by (auto simp: small_push_release_def r_def Let_def mult.commute split: if_splits)
qed

lemma small_push_ok:
  assumes "small_inv s" "small_push_release n s = (True, s')"
  shows "small_inv s'" "small_full s' = (small_full s)\<lparr>f_release := f_release (small_full s) @ [n]\<rparr>"
proof -
  let ?r = "unat (rlen s)"
  note put = small_push_put [OF assms]
  note other = bits_at_put_other [OF put(2)]
  have r': "unat (rlen s') = Suc ?r"
    using put(1,3) by (simp add: unat_word_ariths)
  have "24 \<le> 48 - 8 * ?r" using put(1) by simp
  then have k: "suffix_kind s' = suffix_kind s" "suffix_version s' = suffix_version s"
    unfolding suffix_kind_bits suffix_version_bits put(3) by (simp_all add: other)
  have new: "seg ?r s' = n"
  proof -
    have "48 - 8 * ?r + seg_width ?r \<le> 64" by (auto simp: seg_width_def)
    then show ?thesis unfolding seg_def put(3) by (simp add: bits_at_put_same [OF put(2)])
  qed
  have old: "seg i s' = seg i s" if "i < 4" "i \<noteq> ?r" for i
  proof -
    have "48 - 8 * i + seg_width i \<le> 48 - 8 * ?r \<or> 48 - 8 * ?r + seg_width ?r \<le> 48 - 8 * i"
      using that put(1) by (auto simp: seg_width_def)
    then show ?thesis unfolding seg_def put(3) by (simp add: other)
  qed
  show inv': "small_inv s'"
    using assms(1) put(1) r' old by (auto simp: small_inv_def k word_le_nat_alt)
  have "map (\<lambda>i. seg i s') [0..<?r] = map (\<lambda>i. seg i s) [0..<?r]"
    using put(1) old by auto
  then show "small_full s' = (small_full s)\<lparr>f_release := f_release (small_full s) @ [n]\<rparr>"
    using inv' assms(1) r' new by (simp add: small_getters k small_release_segs)
qed

lemma small_push_rejected: "small_push_release n s = (False, s') \<Longrightarrow> s' = s"
  by (auto simp: small_push_release_def Let_def split: if_splits)

section \<open>Comparing packed words\<close>

text \<open>
  The packed word compares like the tuple of its fields, and, by the invariant, like the
  zero-padded release followed by suffix kind and suffix number.
\<close>

lemma repr_cmp_fields:
  "cmp (repr a) (repr b) =
    then_with (cmp (map (\<lambda>i. seg i a) [0, 1, 2, 3]) (map (\<lambda>i. seg i b) [0, 1, 2, 3]))
      (then_with (cmp (suffix_kind a) (suffix_kind b)) (cmp (suffix_version a) (suffix_version b)))"
proof -
  let ?c = "\<lambda>p n. cmp (bits_at p n (repr a)) (bits_at p n (repr b))"
  have "cmp (repr a) (repr b) = ?c 0 64" by (simp only: bits_at_all)
  also have "?c 0 64 = then_with (?c 20 44) (?c 0 20)"
    using bits_at_cmp_split [of 20 64 0] by simp
  also have "?c 20 44 = then_with (?c 24 40) (?c 20 4)"
    using bits_at_cmp_split [of 4 44 20] by simp
  also have "?c 24 40 = then_with (?c 32 32) (?c 24 8)"
    using bits_at_cmp_split [of 8 40 24] by simp
  also have "?c 32 32 = then_with (?c 40 24) (?c 32 8)"
    using bits_at_cmp_split [of 8 32 32] by simp
  also have "?c 40 24 = then_with (?c 48 16) (?c 40 8)"
    using bits_at_cmp_split [of 8 24 40] by simp
  finally show ?thesis
    by (simp add: then_with_assoc cmp_Cons seg_def seg_width_def suffix_kind_bits suffix_version_bits)
qed

lemma small_release_trim:
  assumes "small_inv s"
  shows "trim_release (f_release (small_full s)) = trim_release (map (\<lambda>i. seg i s) [0, 1, 2, 3])"
proof -
  from assms have "rlen s \<le> 4" and z: "\<And>i. i < 4 \<Longrightarrow> unat (rlen s) \<le> i \<Longrightarrow> seg i s = 0"
    by (auto simp: small_inv_def)
  then show ?thesis
    by (cases s rule: rlen_cases)
      (simp_all add: small_full_def small_release_segs [OF assms] upt_simps trim_release_Cons)
qed

lemma small_repr_cmp:
  assumes "small_inv a" "small_inv b"
  shows "cmp (repr a) (repr b) =
    then_with (compare_release (f_release (small_full a)) (f_release (small_full b)))
      (then_with (cmp (suffix_kind a) (suffix_kind b)) (cmp (suffix_version a) (suffix_version b)))"
  unfolding repr_cmp_fields compare_release_trim small_release_trim [OF assms(1)]
    small_release_trim [OF assms(2)]
  by (subst cmp_same_length) simp_all

end
