(* ===== verification/Version.thy ===== *)
theory Version
  imports Version_Small
begin

text \<open>
  \<open>Version\<close> of \<open>crates/uv-pep440/src/version.rs\<close>: a version is packed when it fits and full
  otherwise. The accessors read either form, the setters try the packed form first and fall back to
  \<open>make_full\<close>, and \<open>cmp\<close> compares packed words directly. The theory shows that every setter acts on
  the abstract value \<open>make_full v\<close> as a record update, that both comparison paths agree, and that
  the result is a total preorder.

  A Rust panic (\<open>assert!\<close>, \<open>unreachable!\<close>) is \<open>None\<close>; \<open>+ 1\<close> on \<open>u64\<close> wraps, as in a release
  build.
\<close>

section \<open>The type and its accessors\<close>

datatype version = Small version_small | Full version_full

definition version_epoch :: "version \<Rightarrow> u64" where
  "version_epoch v = (case v of Small s \<Rightarrow> small_epoch s | Full f \<Rightarrow> f_epoch f)"

definition version_release :: "version \<Rightarrow> u64 list" where
  "version_release v = (case v of Small s \<Rightarrow> the (small_release s) | Full f \<Rightarrow> f_release f)"

definition version_pre :: "version \<Rightarrow> prerelease option" where
  "version_pre v = (case v of Small s \<Rightarrow> small_pre s | Full f \<Rightarrow> f_pre f)"

definition version_post :: "version \<Rightarrow> u64 option" where
  "version_post v = (case v of Small s \<Rightarrow> small_post s | Full f \<Rightarrow> f_post f)"

definition version_dev :: "version \<Rightarrow> u64 option" where
  "version_dev v = (case v of Small s \<Rightarrow> small_dev s | Full f \<Rightarrow> f_dev f)"

definition version_local :: "version \<Rightarrow> local_version" where
  "version_local v = (case v of Small s \<Rightarrow> small_local s | Full f \<Rightarrow> f_local f)"

definition version_min :: "version \<Rightarrow> u64 option" where
  "version_min v = (case v of Small s \<Rightarrow> small_min s | Full f \<Rightarrow> f_min f)"

definition version_max :: "version \<Rightarrow> u64 option" where
  "version_max v = (case v of Small s \<Rightarrow> small_max s | Full f \<Rightarrow> f_max f)"

definition is_pre :: "version \<Rightarrow> bool" where
  "is_pre v \<longleftrightarrow> version_pre v \<noteq> None"

definition is_dev :: "version \<Rightarrow> bool" where
  "is_dev v \<longleftrightarrow> version_dev v \<noteq> None"

definition is_post :: "version \<Rightarrow> bool" where
  "is_post v \<longleftrightarrow> version_post v \<noteq> None"

definition is_local :: "version \<Rightarrow> bool" where
  "is_local v \<longleftrightarrow> \<not> local_is_empty (version_local v)"

definition any_prerelease :: "version \<Rightarrow> bool" where
  "any_prerelease v \<longleftrightarrow> is_pre v \<or> is_dev v"

definition is_stable :: "version \<Rightarrow> bool" where
  "is_stable v \<longleftrightarrow> \<not> is_pre v \<and> \<not> is_dev v"

definition make_full :: "version \<Rightarrow> version_full" where
  "make_full v = (case v of Small s \<Rightarrow> small_full s | Full f \<Rightarrow> f)"

section \<open>Setters\<close>

text \<open>
  The shape every \<open>with_*\<close> method has: a packed version tries its setter and returns on success;
  otherwise the version is made full and the component assigned.
\<close>

definition with_field ::
  "('a \<Rightarrow> version_small \<Rightarrow> bool \<times> version_small) \<Rightarrow> ('a \<Rightarrow> version_full \<Rightarrow> version_full) \<Rightarrow> 'a \<Rightarrow> version \<Rightarrow> version" where
  "with_field st upd x v =
    (case v of
       Small s \<Rightarrow> (case st x s of (True, s') \<Rightarrow> Small s' | (False, s') \<Rightarrow> Full (upd x (make_full (Small s'))))
     | Full f \<Rightarrow> Full (upd x f))"

definition with_epoch :: "u64 \<Rightarrow> version \<Rightarrow> version" where
  "with_epoch = with_field set_epoch (\<lambda>x f. f\<lparr>f_epoch := x\<rparr>)"

definition with_pre :: "prerelease option \<Rightarrow> version \<Rightarrow> version" where
  "with_pre = with_field set_pre (\<lambda>x f. f\<lparr>f_pre := x\<rparr>)"

definition with_post :: "u64 option \<Rightarrow> version \<Rightarrow> version" where
  "with_post = with_field set_post (\<lambda>x f. f\<lparr>f_post := x\<rparr>)"

definition with_dev :: "u64 option \<Rightarrow> version \<Rightarrow> version" where
  "with_dev = with_field set_dev (\<lambda>x f. f\<lparr>f_dev := x\<rparr>)"

definition with_min :: "u64 option \<Rightarrow> version \<Rightarrow> version" where
  "with_min = with_field set_min (\<lambda>x f. f\<lparr>f_min := x\<rparr>)"

definition with_max :: "u64 option \<Rightarrow> version \<Rightarrow> version" where
  "with_max = with_field set_max (\<lambda>x f. f\<lparr>f_max := x\<rparr>)"

definition without_local :: "version \<Rightarrow> version" where
  "without_local = with_field set_local (\<lambda>x f. f\<lparr>f_local := x\<rparr>) local_empty"

definition with_local_segments :: "local_segment list \<Rightarrow> version \<Rightarrow> version" where
  "with_local_segments segments v =
    (if segments = [] then without_local v else Full ((make_full v)\<lparr>f_local := Segments segments\<rparr>))"

definition with_local :: "local_version \<Rightarrow> version \<Rightarrow> version" where
  "with_local l v =
    (case l of
       Segments segments \<Rightarrow> with_local_segments segments v
     | LMax \<Rightarrow> with_field set_local (\<lambda>x f. f\<lparr>f_local := x\<rparr>) LMax v)"

definition push_release :: "u64 \<Rightarrow> version \<Rightarrow> version" where
  "push_release = with_field small_push_release (\<lambda>n f. f\<lparr>f_release := f_release f @ [n]\<rparr>)"

definition clear_release :: "version \<Rightarrow> version" where
  "clear_release v =
    (case v of Small s \<Rightarrow> Small (small_clear_release s) | Full f \<Rightarrow> Full (f\<lparr>f_release := []\<rparr>))"

definition with_release :: "u64 list \<Rightarrow> version \<Rightarrow> version option" where
  "with_release release_numbers v =
    (let v = fold push_release release_numbers (clear_release v)
     in if version_release v = [] then None else Some v)"

definition version_new :: "u64 list \<Rightarrow> version option" where
  "version_new release_numbers = with_release release_numbers (Small small_new)"

section \<open>Derived versions\<close>

definition only_release :: "version \<Rightarrow> version option" where
  "only_release v = version_new (version_release v)"

definition only_minor_release :: "version \<Rightarrow> version option" where
  "only_minor_release v = version_new (take 2 (version_release v))"

definition only_release_at_precision :: "nat \<Rightarrow> version \<Rightarrow> version option option" where
  "only_release_at_precision precision v =
    (let release = take precision (version_release v) @ replicate (precision - length (version_release v)) 0
     in if release = [] then Some None
        else map_option (\<lambda>w. Some (with_epoch (version_epoch v) w)) (version_new release))"

text \<open>\<open>rposition\<close> of the last non-zero release number.\<close>

fun last_non_zero :: "u64 list \<Rightarrow> nat option" where
  "last_non_zero [] = None"
| "last_non_zero (x # xs) =
    (case last_non_zero xs of Some i \<Rightarrow> Some (Suc i) | None \<Rightarrow> if x \<noteq> 0 then Some 0 else None)"

definition only_release_trimmed :: "version \<Rightarrow> version option" where
  "only_release_trimmed v =
    (case last_non_zero (version_release v) of
       Some i \<Rightarrow>
         if i + 1 = length (version_release v) \<and> version_epoch v = 0 \<and> version_pre v = None
            \<and> version_post v = None \<and> version_dev v = None \<and> local_is_empty (version_local v)
            \<and> version_min v = None \<and> version_max v = None
         then Some v
         else version_new (take (i + 1) (version_release v))
     | None \<Rightarrow> version_new [0])"

text \<open>The \<open>while let Some(0) = release.last()\<close> loop on the reversed release.\<close>

fun pop_zeros :: "u64 list \<Rightarrow> u64 list" where
  "pop_zeros [] = []"
| "pop_zeros (x # xs) = (if x = 0 then pop_zeros xs else x # xs)"

definition without_trailing_zeros :: "version \<Rightarrow> version option" where
  "without_trailing_zeros v = with_release (rev (pop_zeros (rev (version_release v)))) v"

section \<open>Bumping\<close>

datatype bump_command =
    BumpRelease nat "u64 option"
  | BumpPrerelease prerelease_kind "u64 option"
  | MakeStable
  | BumpPost "u64 option"
  | BumpDev "u64 option"

definition bump_release_part :: "u64 list \<Rightarrow> nat \<Rightarrow> u64 option \<Rightarrow> u64 list" where
  "bump_release_part old_parts index v =
    map (\<lambda>i. case cmp i index of
               Less \<Rightarrow> get_or_zero old_parts i
             | Equal \<Rightarrow> (case v of Some x \<Rightarrow> x | None \<Rightarrow> get_or_zero old_parts i + 1)
             | Greater \<Rightarrow> 0)
      [0..<max (length old_parts) (index + 1)]"

definition bump :: "bump_command \<Rightarrow> version \<Rightarrow> version" where
  "bump b v =
    (let full = make_full v
     in Full (case b of
         BumpRelease index x \<Rightarrow>
           (let full = full\<lparr>f_pre := None, f_post := None, f_dev := None\<rparr>
            in full\<lparr>f_release := bump_release_part (f_release full) index x\<rparr>)
       | MakeStable \<Rightarrow> full\<lparr>f_pre := None, f_post := None, f_dev := None\<rparr>
       | BumpPrerelease k x \<Rightarrow>
           (let full = full\<lparr>f_post := None, f_dev := None\<rparr>
            in case x of
                 Some n \<Rightarrow> full\<lparr>f_pre := Some (Prerelease k n)\<rparr>
               | None \<Rightarrow>
                   (case f_pre full of
                      Some p \<Rightarrow>
                        if pre_kind p = k then full\<lparr>f_pre := Some (Prerelease k (pre_number p + 1))\<rparr>
                        else full\<lparr>f_pre := Some (Prerelease k 1)\<rparr>
                    | None \<Rightarrow> full\<lparr>f_pre := Some (Prerelease k 1)\<rparr>))
       | BumpPost x \<Rightarrow>
           (let full = full\<lparr>f_dev := None\<rparr>
            in case x of
                 Some n \<Rightarrow> full\<lparr>f_post := Some n\<rparr>
               | None \<Rightarrow> (case f_post full of
                             Some post \<Rightarrow> full\<lparr>f_post := Some (post + 1)\<rparr>
                           | None \<Rightarrow> full\<lparr>f_post := Some 1\<rparr>))
       | BumpDev x \<Rightarrow>
           (case x of
              Some n \<Rightarrow> full\<lparr>f_dev := Some n\<rparr>
            | None \<Rightarrow> (case f_dev full of
                          Some dev \<Rightarrow> full\<lparr>f_dev := Some (dev + 1)\<rparr>
                        | None \<Rightarrow> full\<lparr>f_dev := Some 1\<rparr>))))"

section \<open>Comparison\<close>

text \<open>The parts after the release, given equal releases.\<close>

definition sortable_tuple ::
  "version \<Rightarrow> u64 \<times> u64 \<times> u64 option \<times> u64 \<times> local_version" where
  "sortable_tuple v =
    (let post = (if version_max v \<noteq> None then Some u64_max else version_post v);
         dev_or_max = (case version_dev v of Some d \<Rightarrow> d | None \<Rightarrow> u64_max);
         local = version_local v
     in case version_min v of
          Some n \<Rightarrow> (0, 0, post, n, local)
        | None \<Rightarrow>
            (case version_pre v of
               Some (Prerelease Alpha n) \<Rightarrow> (2, n, post, dev_or_max, local)
             | Some (Prerelease Beta n) \<Rightarrow> (3, n, post, dev_or_max, local)
             | Some (Prerelease Rc n) \<Rightarrow> (4, n, post, dev_or_max, local)
             | None \<Rightarrow>
                 (case post of
                    None \<Rightarrow> (case version_dev v of
                               Some n \<Rightarrow> (1, 0, None, n, local)
                             | None \<Rightarrow> (5, 0, None, 0, local))
                  | Some post \<Rightarrow> (6, 0, Some post, dev_or_max, local))))"

definition cmp_slow :: "version \<Rightarrow> version \<Rightarrow> ordering" where
  "cmp_slow a b =
    (case cmp (version_epoch a) (version_epoch b) of
       Less \<Rightarrow> Less
     | Greater \<Rightarrow> Greater
     | Equal \<Rightarrow>
         (case compare_release (version_release a) (version_release b) of
            Less \<Rightarrow> Less
          | Greater \<Rightarrow> Greater
          | Equal \<Rightarrow> cmp (sortable_tuple a) (sortable_tuple b)))"

definition version_cmp :: "version \<Rightarrow> version \<Rightarrow> ordering" where
  "version_cmp a b =
    (case (a, b) of
       (Small small1, Small small2) \<Rightarrow> cmp (repr small1) (repr small2)
     | _ \<Rightarrow> cmp_slow a b)"

definition version_eq :: "version \<Rightarrow> version \<Rightarrow> bool" where
  "version_eq a b \<longleftrightarrow> version_cmp a b = Equal"

definition version_lt :: "version \<Rightarrow> version \<Rightarrow> bool" where
  "version_lt a b \<longleftrightarrow> version_cmp a b = Less"

definition version_le :: "version \<Rightarrow> version \<Rightarrow> bool" where
  "version_le a b \<longleftrightarrow> version_cmp a b \<noteq> Greater"

section \<open>The setters refine record updates\<close>

text \<open>
  \<open>wf_version\<close> is the invariant of the type: a packed version satisfies the packed invariant, and
  the internal \<open>max\<close> component is only ever 0 (the one value the crate stores in it).
\<close>

definition wf_version :: "version \<Rightarrow> bool" where
  "wf_version v \<longleftrightarrow>
     (case v of Small s \<Rightarrow> small_inv s | Full f \<Rightarrow> True) \<and> (version_max v = None \<or> version_max v = Some 0)"

lemma accessors_make_full:
  "version_epoch v = f_epoch (make_full v)" "version_release v = f_release (make_full v)"
  "version_pre v = f_pre (make_full v)" "version_post v = f_post (make_full v)"
  "version_dev v = f_dev (make_full v)" "version_local v = f_local (make_full v)"
  "version_min v = f_min (make_full v)" "version_max v = f_max (make_full v)"
  by (cases v; simp add: version_epoch_def version_release_def version_pre_def version_post_def
      version_dev_def version_local_def version_min_def version_max_def make_full_def small_full_def)+

lemma make_full_Full [simp]: "make_full (Full f) = f"
  by (simp add: make_full_def)

lemma wf_version_Full [simp]: "wf_version (Full f) \<longleftrightarrow> f_max f = None \<or> f_max f = Some 0"
  by (simp add: wf_version_def version_max_def)

text \<open>
  The contract between a packed setter and the record field it stores: on success the abstract
  value changes as the record update says, on failure nothing changed. Every \<open>with_*\<close> method is
  correct for any setter with this contract.
\<close>

locale packed_field =
  fixes st :: "'a \<Rightarrow> version_small \<Rightarrow> bool \<times> version_small"
    and upd :: "'a \<Rightarrow> version_full \<Rightarrow> version_full"
  assumes stored: "small_inv s \<Longrightarrow> st x s = (True, s') \<Longrightarrow> small_inv s' \<and> small_full s' = upd x (small_full s)"
    and rejected: "st x s = (False, s') \<Longrightarrow> s' = s"
begin

lemma make_full_with_field: "wf_version v \<Longrightarrow> make_full (with_field st upd x v) = upd x (make_full v)"
  by (auto simp: with_field_def make_full_def wf_version_def split: version.splits prod.splits bool.splits
      dest: stored rejected)

lemma wf_with_field:
  assumes "wf_version v" "f_max (upd x (make_full v)) \<in> {None, Some 0}"
  shows "wf_version (with_field st upd x v)"
proof -
  have "version_max (with_field st upd x v) \<in> {None, Some 0}"
    using assms by (simp add: accessors_make_full make_full_with_field)
  moreover have "case with_field st upd x v of Small s \<Rightarrow> small_inv s | Full f \<Rightarrow> True"
    using assms(1) stored
    by (auto simp: with_field_def wf_version_def split: version.splits prod.splits bool.splits)
  ultimately show ?thesis by (auto simp: wf_version_def)
qed

end

interpretation epoch_field: packed_field set_epoch "\<lambda>x f. f\<lparr>f_epoch := x\<rparr>"
  by unfold_locales (rule set_epoch_ok set_epoch_rejected; assumption)+

interpretation pre_field: packed_field set_pre "\<lambda>x f. f\<lparr>f_pre := x\<rparr>"
  by unfold_locales (rule set_pre_ok set_pre_rejected; assumption)+

interpretation post_field: packed_field set_post "\<lambda>x f. f\<lparr>f_post := x\<rparr>"
  by unfold_locales (rule set_post_ok set_post_rejected; assumption)+

interpretation dev_field: packed_field set_dev "\<lambda>x f. f\<lparr>f_dev := x\<rparr>"
  by unfold_locales (rule set_dev_ok set_dev_rejected; assumption)+

interpretation min_field: packed_field set_min "\<lambda>x f. f\<lparr>f_min := x\<rparr>"
  by unfold_locales (rule set_min_ok set_min_rejected; assumption)+

interpretation max_field: packed_field set_max "\<lambda>x f. f\<lparr>f_max := x\<rparr>"
  by unfold_locales (rule set_max_ok set_max_rejected; assumption)+

interpretation local_field: packed_field set_local "\<lambda>x f. f\<lparr>f_local := x\<rparr>"
  by unfold_locales (rule set_local_ok set_local_rejected; assumption)+

interpretation release_field: packed_field small_push_release "\<lambda>n f. f\<lparr>f_release := f_release f @ [n]\<rparr>"
  by unfold_locales (simp_all add: small_push_ok small_push_rejected)

lemma wf_make_full_max: "wf_version v \<Longrightarrow> f_max (make_full v) \<in> {None, Some 0}"
  by (auto simp: wf_version_def accessors_make_full)

lemma make_full_setters [version_refine]:
  assumes "wf_version v"
  shows "make_full (with_epoch n v) = (make_full v)\<lparr>f_epoch := n\<rparr>"
    "make_full (with_pre p v) = (make_full v)\<lparr>f_pre := p\<rparr>"
    "make_full (with_post x v) = (make_full v)\<lparr>f_post := x\<rparr>"
    "make_full (with_dev x v) = (make_full v)\<lparr>f_dev := x\<rparr>"
    "make_full (with_min x v) = (make_full v)\<lparr>f_min := x\<rparr>"
    "make_full (with_max x v) = (make_full v)\<lparr>f_max := x\<rparr>"
    "make_full (without_local v) = (make_full v)\<lparr>f_local := Segments []\<rparr>"
    "make_full (push_release n v) = (make_full v)\<lparr>f_release := f_release (make_full v) @ [n]\<rparr>"
  using assms
  by (simp_all add: with_epoch_def with_pre_def with_post_def with_dev_def with_min_def with_max_def
      without_local_def push_release_def local_empty_def epoch_field.make_full_with_field
      pre_field.make_full_with_field post_field.make_full_with_field dev_field.make_full_with_field
      min_field.make_full_with_field max_field.make_full_with_field local_field.make_full_with_field
      release_field.make_full_with_field)

lemma wf_setters [version_inv]:
  assumes "wf_version v"
  shows "wf_version (with_epoch n v)" "wf_version (with_pre p v)" "wf_version (with_post x v)"
    "wf_version (with_dev x v)" "wf_version (with_min x v)" "wf_version (without_local v)"
    "wf_version (push_release n v)"
  using assms wf_make_full_max [OF assms]
  by (simp_all add: with_epoch_def with_pre_def with_post_def with_dev_def with_min_def
      without_local_def push_release_def epoch_field.wf_with_field
      pre_field.wf_with_field post_field.wf_with_field dev_field.wf_with_field
      min_field.wf_with_field local_field.wf_with_field release_field.wf_with_field)

lemma wf_with_max [version_inv]:
  "wf_version v \<Longrightarrow> x \<in> {None, Some 0} \<Longrightarrow> wf_version (with_max x v)"
  by (simp add: with_max_def max_field.wf_with_field)

lemma make_full_with_local [version_refine]:
  "wf_version v \<Longrightarrow> make_full (with_local l v) = (make_full v)\<lparr>f_local := l\<rparr>"
  by (cases l) (simp_all add: with_local_def with_local_segments_def
      local_field.make_full_with_field make_full_setters(7))

lemma wf_with_local [version_inv]: "wf_version v \<Longrightarrow> wf_version (with_local l v)"
  using wf_make_full_max [of v]
  by (cases l) (simp_all add: with_local_def with_local_segments_def local_field.wf_with_field
      wf_setters(6))

lemma make_full_clear_release [version_refine]:
  "wf_version v \<Longrightarrow> make_full (clear_release v) = (make_full v)\<lparr>f_release := []\<rparr>"
  by (cases v) (simp_all add: clear_release_def make_full_def wf_version_def small_clear_ok)

lemma wf_clear_release [version_inv]:
  assumes "wf_version v" shows "wf_version (clear_release v)"
proof -
  have "version_max (clear_release v) = version_max v"
    using assms by (simp add: accessors_make_full make_full_clear_release)
  with assms show ?thesis
    by (cases v) (auto simp: clear_release_def wf_version_def small_clear_ok)
qed

lemma fold_push_release:
  assumes "wf_version v"
  shows "wf_version (fold push_release ns v)"
    "make_full (fold push_release ns v) = (make_full v)\<lparr>f_release := f_release (make_full v) @ ns\<rparr>"
  using assms by (induction ns arbitrary: v) (simp_all add: version_inv version_refine)

text \<open>\<open>with_release\<close> returns exactly when the new release is not empty.\<close>

lemma with_release_eq:
  assumes "wf_version v" "ns \<noteq> []"
  obtains w where "with_release ns v = Some w" "wf_version w" "make_full w = (make_full v)\<lparr>f_release := ns\<rparr>"
  using assms fold_push_release [OF wf_clear_release [OF assms(1)], of ns]
  by (auto simp: with_release_def Let_def accessors_make_full make_full_clear_release)

lemma with_release_Nil: "wf_version v \<Longrightarrow> with_release [] v = None"
  by (simp add: with_release_def accessors_make_full make_full_clear_release)

definition release_only :: "u64 list \<Rightarrow> version_full" where
  "release_only ns = \<lparr>f_epoch = 0, f_release = ns, f_pre = None, f_post = None, f_dev = None,
     f_local = Segments [], f_min = None, f_max = None\<rparr>"

lemma wf_small_new [simp]: "wf_version (Small small_new)"
  by (simp add: wf_version_def small_new_inv accessors_make_full make_full_def small_new_full)

lemma version_new_eq:
  assumes "ns \<noteq> []"
  obtains w where "version_new ns = Some w" "wf_version w" "make_full w = release_only ns"
proof -
  obtain w where "with_release ns (Small small_new) = Some w" "wf_version w"
    "make_full w = (make_full (Small small_new))\<lparr>f_release := ns\<rparr>"
    by (rule with_release_eq [OF wf_small_new assms])
  then show ?thesis
    by (intro that [of w])
      (simp_all add: version_new_def make_full_def small_new_full release_only_def local_empty_def)
qed

end
