(* ===== verification/Version_Order.thy ===== *)
theory Version_Order
  imports Version
begin

text \<open>
  The ordering of versions: \<open>Version::cmp\<close> compares packed words when both versions are packed and
  calls \<open>cmp_slow\<close> otherwise. The two agree on every well-formed version, so the comparison is that
  of one key and satisfies the contract of \<open>Ord\<close>; \<open>Hash\<close> agrees with \<open>Eq\<close>; the bump commands move
  a version upwards.
\<close>

section \<open>The key the comparison is about\<close>

definition version_key ::
  "version \<Rightarrow> u64 \<times> u64 list \<times> u64 \<times> u64 \<times> u64 option \<times> u64 \<times> local_version" where
  "version_key v = (version_epoch v, trim_release (version_release v), sortable_tuple v)"

lemma cmp_slow_key: "cmp_slow a b = cmp (version_key a) (version_key b)"
  by (simp add: cmp_slow_def version_key_def compare_release_trim cmp_Pair case_ordering_then_with)

section \<open>Packed and full comparison agree\<close>

lemma suffix_kind_cases:
  assumes "small_inv s"
  obtains "suffix_kind s = 0" | "suffix_kind s = 1" | "suffix_kind s = 2" | "suffix_kind s = 3" | "suffix_kind s = 4"
   | "suffix_kind s = 5" "suffix_version s = 0" | "suffix_kind s = 6" "suffix_version s = 0" | "suffix_kind s = 7" | "suffix_kind s = 8"
proof -
  have "unat (suffix_kind s) \<le> 8" using assms by (simp add: small_inv_def word_le_nat_alt)
  then have "unat (suffix_kind s) \<in> set [0,1,2,3,4,5,6,7,8]" by auto
  then have "suffix_kind s \<in> set [0,1,2,3,4,5,6,7,8]" by (auto simp: word_unat_eq_iff)
  with assms that show ?thesis by (auto simp: small_inv_def)
qed

lemma small_tuple:
  assumes "small_inv s"
  shows "sortable_tuple (Small s) =
   (if suffix_kind s = SUFFIX_MIN then (0, 0, None, suffix_version s, Segments [])
    else if suffix_kind s = SUFFIX_DEV then (1, 0, None, suffix_version s, Segments [])
    else if suffix_kind s = SUFFIX_PRE_ALPHA then (2, suffix_version s, None, u64_max, Segments [])
    else if suffix_kind s = SUFFIX_PRE_BETA then (3, suffix_version s, None, u64_max, Segments [])
    else if suffix_kind s = SUFFIX_PRE_RC then (4, suffix_version s, None, u64_max, Segments [])
    else if suffix_kind s = SUFFIX_NONE then (5, 0, None, 0, Segments [])
    else if suffix_kind s = SUFFIX_LOCAL then (5, 0, None, 0, LMax)
    else if suffix_kind s = SUFFIX_POST then (6, 0, Some (suffix_version s), u64_max, Segments [])
    else (6, 0, Some u64_max, u64_max, Segments []))"
  using assms
  by (cases s rule: suffix_kind_cases)
    (simp_all add: sortable_tuple_def version_min_def version_max_def version_pre_def version_post_def
      version_dev_def version_local_def small_getters)

lemma cmp_Segments_LMax [simp]: "cmp (Segments l) LMax = Less" "cmp LMax (Segments l) = Greater"
  by (simp_all add: cmp_def)

lemma suffix_version_bound: "suffix_version s < u64_max"
proof -
  have "unat (suffix_version s) < 2 ^ 20" unfolding suffix_version_bits by (rule bits_at_bound) simp
  then show ?thesis by (simp add: word_less_nat_alt unsigned_minus_1_eq_mask mask_eq_exp_minus_1)
qed

lemma cmp_below_max [simp]: "x < u64_max \<Longrightarrow> cmp x u64_max = Less" "x < u64_max \<Longrightarrow> cmp u64_max x = Greater"
  by (simp_all)

lemma small_tuple_cmp:
  assumes "small_inv a" "small_inv b" "suffix_kind a = SUFFIX_MAX \<Longrightarrow> suffix_version a = 0"
    "suffix_kind b = SUFFIX_MAX \<Longrightarrow> suffix_version b = 0"
  shows "cmp (sortable_tuple (Small a)) (sortable_tuple (Small b)) =
    then_with (cmp (suffix_kind a) (suffix_kind b)) (cmp (suffix_version a) (suffix_version b))"
proof -
  have five: "\<not> (5::u64) \<le> 1" by (simp add: word_le_nat_alt)
  note bounds = suffix_version_bound [of a] suffix_version_bound [of b]
  show ?thesis
    unfolding small_tuple [OF assms(1)] small_tuple [OF assms(2)]
    by (rule suffix_kind_cases [OF assms(1)]; rule suffix_kind_cases [OF assms(2)])
      (use bounds assms(3,4) five in \<open>simp_all add: cmp_Pair cmp_def\<close>)
qed

lemma wf_small_max: "wf_version (Small s) \<Longrightarrow> suffix_kind s = SUFFIX_MAX \<Longrightarrow> suffix_version s = 0"
  by (auto simp: wf_version_def version_max_def small_max_def)

lemma version_cmp_slow:
  assumes "wf_version a" "wf_version b"
  shows "version_cmp a b = cmp_slow a b"
proof (cases a)
  case sa: (Small s)
  show ?thesis
  proof (cases b)
    case sb: (Small t)
    have inv: "small_inv s" "small_inv t" using assms sa sb by (auto simp: wf_version_def)
    have "cmp (repr s) (repr t) = then_with (compare_release (f_release (small_full s)) (f_release (small_full t)))
      (cmp (sortable_tuple a) (sortable_tuple b))"
      using small_repr_cmp [OF inv] small_tuple_cmp [OF inv] assms wf_small_max sa sb by auto
    then show ?thesis
      by (simp add: sa sb version_cmp_def cmp_slow_def accessors_make_full make_full_def case_ordering_then_with small_full_def small_epoch_def)
  qed (simp add: version_cmp_def sa)
qed (simp add: version_cmp_def)

lemma version_cmp_key: "wf_version a \<Longrightarrow> wf_version b \<Longrightarrow> version_cmp a b = cmp (version_key a) (version_key b)"
  by (simp add: version_cmp_slow cmp_slow_key)

lemma version_order_key:
  assumes "wf_version a" "wf_version b"
  shows "version_eq a b \<longleftrightarrow> version_key a = version_key b" "version_lt a b \<longleftrightarrow> version_key a < version_key b"
    "version_le a b \<longleftrightarrow> version_key a \<le> version_key b"
  using assms by (auto simp: version_eq_def version_lt_def version_le_def version_cmp_key)

interpretation version_ord: rust_ord wf_version version_cmp
  by (rule rust_ord_key [of _ _ version_key]) (rule version_cmp_key)

section \<open>Real versions\<close>

text \<open>
  \<open>pep440\<close> holds of the versions a string can denote: well-formed, with a release, without the
  internal components \<open>min\<close>, \<open>max\<close> and the local sentinel, and with every number below
  \<open>u64::MAX\<close>, which the parser rejects. On these, \<open>Eq\<close> is equality of the components up to
  trailing zeros of the release.
\<close>

fun kind_code :: "prerelease_kind \<Rightarrow> u64" where
  "kind_code Alpha = 2"
| "kind_code Beta = 3"
| "kind_code Rc = 4"

lemma kind_code_inj [simp]: "kind_code a = kind_code b \<longleftrightarrow> a = b"
  by (cases a; cases b) simp_all

lemma kind_code_neq [simp]: "kind_code k \<noteq> 1" "kind_code k \<noteq> 5" "kind_code k \<noteq> 6" "kind_code k \<noteq> 0" "1 \<noteq> kind_code k" "5 \<noteq> kind_code k" "6 \<noteq> kind_code k" "0 \<noteq> kind_code k"
  by (cases k; simp)+

lemma sortable_tuple_real:
  assumes "version_min v = None" "version_max v = None"
  shows "sortable_tuple v =
    (case (version_pre v, version_post v, version_dev v) of
       (Some p, post, dev) \<Rightarrow> (kind_code (pre_kind p), pre_number p, post, (case dev of Some d \<Rightarrow> d | None \<Rightarrow> u64_max), version_local v)
     | (None, None, Some n) \<Rightarrow> (1, 0, None, n, version_local v)
     | (None, None, None) \<Rightarrow> (5, 0, None, 0, version_local v)
     | (None, Some post, dev) \<Rightarrow> (6, 0, Some post, (case dev of Some d \<Rightarrow> d | None \<Rightarrow> u64_max), version_local v))"
  using assms
  by (auto simp: sortable_tuple_def Let_def split: option.split prerelease.split prerelease_kind.split)

definition pep440 :: "version \<Rightarrow> bool" where
  "pep440 v \<longleftrightarrow>
     wf_version v \<and> version_release v \<noteq> [] \<and> version_min v = None \<and> version_max v = None
     \<and> version_local v \<noteq> LMax \<and> version_epoch v \<noteq> u64_max \<and> u64_max \<notin> set (version_release v)
     \<and> (case version_pre v of None \<Rightarrow> True | Some p \<Rightarrow> pre_number p \<noteq> u64_max)
     \<and> version_post v \<noteq> Some u64_max \<and> version_dev v \<noteq> Some u64_max"

lemma sortable_tuple_eq:
  assumes "pep440 a" "pep440 b"
  shows "sortable_tuple a = sortable_tuple b \<longleftrightarrow>
    version_pre a = version_pre b \<and> version_post a = version_post b \<and> version_dev a = version_dev b \<and> version_local a = version_local b"
  using assms
  by (auto simp: pep440_def sortable_tuple_real split: option.splits intro: prerelease.expand)

lemma version_eq_components:
  assumes "pep440 a" "pep440 b"
  shows "version_eq a b \<longleftrightarrow> version_epoch a = version_epoch b
     \<and> trim_release (version_release a) = trim_release (version_release b)
     \<and> version_pre a = version_pre b \<and> version_post a = version_post b \<and> version_dev a = version_dev b \<and> version_local a = version_local b"
  using assms by (simp add: version_order_key pep440_def version_key_def sortable_tuple_eq[OF assms])

section \<open>Hashing\<close>

text \<open>
  \<open>Hash\<close> feeds these items to the hasher, in this order; enum discriminants, slice lengths and
  numbers are what the derived implementations write.
\<close>

datatype hash_item = HashU64 u64 | HashDiscriminant nat | HashLen nat | HashStr string

definition hash_option :: "('a \<Rightarrow> hash_item list) \<Rightarrow> 'a option \<Rightarrow> hash_item list" where
  "hash_option f x = (case x of None \<Rightarrow> [HashDiscriminant 0] | Some y \<Rightarrow> HashDiscriminant 1 # f y)"

definition hash_prerelease :: "prerelease \<Rightarrow> hash_item list" where
  "hash_prerelease p = [HashDiscriminant (prerelease_kind_rank (pre_kind p)), HashU64 (pre_number p)]"

fun hash_local_segment :: "local_segment \<Rightarrow> hash_item list" where
  "hash_local_segment (LString s) = [HashDiscriminant 0, HashStr s]"
| "hash_local_segment (LNumber n) = [HashDiscriminant 1, HashU64 n]"

fun hash_local :: "local_version \<Rightarrow> hash_item list" where
  "hash_local (Segments l) = HashDiscriminant 0 # HashLen (length l) # concat (map hash_local_segment l)"
| "hash_local LMax = [HashDiscriminant 1]"

definition version_hash :: "version \<Rightarrow> hash_item list" where
  "version_hash v =
    HashU64 (version_epoch v) # map HashU64 (dropWhile (\<lambda>x. x = 0) (rev (version_release v)))
    @ hash_option hash_prerelease (version_pre v)
    @ hash_option (\<lambda>n. [HashU64 n]) (version_dev v)
    @ hash_option (\<lambda>n. [HashU64 n]) (version_post v)
    @ hash_local (version_local v)"

lemma version_eq_hash:
  assumes "pep440 a" "pep440 b" "version_eq a b"
  shows "version_hash a = version_hash b"
proof -
  have "dropWhile (\<lambda>x. x = 0) (rev xs) = rev (trim_release xs)" for xs :: "u64 list"
    by (simp add: trim_release_def)
  with assms show ?thesis
    by (simp add: version_eq_components [OF assms(1,2)] version_hash_def)
qed

section \<open>Bumping\<close>

lemma get_or_zero_bump:
  "get_or_zero (bump_release_part xs idx x) i =
    (if i < idx then get_or_zero xs i
     else if i = idx then (case x of Some n \<Rightarrow> n | None \<Rightarrow> get_or_zero xs idx + 1) else 0)"
proof (cases "i < max (length xs) (idx + 1)")
  case True
  then have "bump_release_part xs idx x ! i =
    (case cmp i idx of Less \<Rightarrow> get_or_zero xs i | Equal \<Rightarrow> (case x of Some n \<Rightarrow> n | None \<Rightarrow> get_or_zero xs i + 1) | Greater \<Rightarrow> 0)"
    unfolding bump_release_part_def by (simp add: nth_map_upt cong: ordering.case_cong option.case_cong)
  moreover have "i < length (bump_release_part xs idx x)" using True by (simp add: bump_release_part_def)
  ultimately show ?thesis by (auto simp: get_or_zero_def [of "bump_release_part xs idx x"] cmp_def split: option.splits)
next
  case False
  then show ?thesis by (auto simp: get_or_zero_def bump_release_part_def)
qed

lemma wf_bump [version_inv]: "wf_version v \<Longrightarrow> wf_version (bump b v)"
  using wf_make_full_max [of v]
  by (cases b) (auto simp: bump_def Let_def split: option.splits)

lemma bump_release_increases:
  assumes "wf_version v" "case x of Some n \<Rightarrow> get_or_zero (version_release v) idx < n | None \<Rightarrow> get_or_zero (version_release v) idx \<noteq> u64_max"
  shows "version_lt v (bump (BumpRelease idx x) v)"
proof -
  let ?w = "bump (BumpRelease idx x) v"
  have e: "version_epoch ?w = version_epoch v" "version_release ?w = bump_release_part (version_release v) idx x"
    by (simp_all add: accessors_make_full bump_def Let_def)
  have "trim_release (version_release v) < trim_release (version_release ?w)"
    unfolding trim_release_less_iff e get_or_zero_bump
    by (rule exI [of _ idx]) (use assms(2) below_max_less in \<open>auto split: option.splits\<close>)
  then show ?thesis
    using assms(1) e(1) by (simp add: version_order_key wf_bump version_key_def)
qed

lemma bump_post_increases:
  assumes "pep440 v" shows "version_lt v (bump (BumpPost None) v)"
proof -
  let ?w = "bump (BumpPost None) v"
  have "version_epoch ?w = version_epoch v" "version_release ?w = version_release v" "version_pre ?w = version_pre v"
    "version_local ?w = version_local v" "version_min ?w = None" "version_max ?w = None" "version_dev ?w = None"
    "version_post ?w = Some (case version_post v of Some n \<Rightarrow> n + 1 | None \<Rightarrow> 1)"
    using assms by (auto simp: accessors_make_full bump_def Let_def pep440_def split: option.split)
  moreover have "wf_version ?w" using assms by (simp add: pep440_def wf_bump)
  ultimately show ?thesis
    using assms below_max_less
    by (auto simp: version_order_key version_key_def sortable_tuple_real pep440_def word_less_nat_alt split: option.split)
qed

lemma bump_pre_increases:
  assumes "pep440 v" "version_pre v = Some p" shows "version_lt v (bump (BumpPrerelease (pre_kind p) None) v)"
proof -
  let ?w = "bump (BumpPrerelease (pre_kind p) None) v"
  have "version_epoch ?w = version_epoch v" "version_release ?w = version_release v" 
    "version_local ?w = version_local v" "version_min ?w = None" "version_max ?w = None" "version_dev ?w = None" "version_post ?w = None"
    "version_pre ?w = Some (Prerelease (pre_kind p) (pre_number p + 1))"
    using assms by (auto simp: accessors_make_full bump_def Let_def pep440_def split: option.split)
  moreover have "wf_version ?w" using assms by (simp add: pep440_def wf_bump)
  ultimately show ?thesis
    using assms below_max_less
    by (auto simp: version_order_key version_key_def sortable_tuple_real pep440_def)
qed

lemma bump_dev_increases:
  assumes "pep440 v" "version_dev v = Some d" shows "version_lt v (bump (BumpDev None) v)"
proof -
  let ?w = "bump (BumpDev None) v"
  have "version_epoch ?w = version_epoch v" "version_release ?w = version_release v" "version_pre ?w = version_pre v"
    "version_local ?w = version_local v" "version_min ?w = None" "version_max ?w = None" "version_dev ?w = Some (d + 1)" "version_post ?w = version_post v"
    using assms by (auto simp: accessors_make_full bump_def Let_def pep440_def split: option.split)
  moreover have "wf_version ?w" using assms by (simp add: pep440_def wf_bump)
  ultimately show ?thesis
    using assms below_max_less
    by (auto simp: version_order_key version_key_def sortable_tuple_real pep440_def split: option.split)
qed

section \<open>Trimmed releases\<close>

lemma last_non_zero_trim:
  "case last_non_zero xs of None \<Rightarrow> trim_release xs = [] | Some i \<Rightarrow> take (i + 1) xs = trim_release xs \<and> trim_release xs \<noteq> []"
  by (induction xs) (auto simp: trim_release_Cons split: option.splits)

lemma only_release_trimmed_eq:
  assumes "wf_version v" "version_release v \<noteq> []"
  obtains w where "only_release_trimmed v = Some w" "wf_version w"
    "make_full w = release_only (if trim_release (version_release v) = [] then [0] else trim_release (version_release v))"
proof (cases "last_non_zero (version_release v)")
  case None
  then have "trim_release (version_release v) = []" using last_non_zero_trim [of "version_release v"] by simp
  then show ?thesis using None that by (auto simp: only_release_trimmed_def intro: version_new_eq [of "[0]"])
next
  case (Some i)
  then have t: "take (i + 1) (version_release v) = trim_release (version_release v)" "trim_release (version_release v) \<noteq> []"
    using last_non_zero_trim [of "version_release v"] by auto
  show ?thesis
  proof (cases "i + 1 = length (version_release v) \<and> version_epoch v = 0 \<and> version_pre v = None
            \<and> version_post v = None \<and> version_dev v = None \<and> local_is_empty (version_local v)
            \<and> version_min v = None \<and> version_max v = None")
    case True
    then have "make_full v = release_only (trim_release (version_release v))"
      using t by (simp add: accessors_make_full release_only_def)
    moreover have "only_release_trimmed v = Some v" using True Some by (simp add: only_release_trimmed_def)
    ultimately show ?thesis using that assms(1) t(2) by simp
  next
    case False
    then have "only_release_trimmed v = version_new (trim_release (version_release v))"
      by (simp only: only_release_trimmed_def Some option.case if_False t(1))
    then show ?thesis using that t(2) by (auto intro: version_new_eq [OF t(2)])
  qed
qed

lemma sortable_tuple_cong:
  "version_pre w = version_pre v \<Longrightarrow> version_post w = version_post v \<Longrightarrow> version_dev w = version_dev v \<Longrightarrow>
   version_local w = version_local v \<Longrightarrow> version_min w = version_min v \<Longrightarrow> version_max w = version_max v \<Longrightarrow>
   sortable_tuple w = sortable_tuple v"
  by (simp only: sortable_tuple_def)

lemma pop_zeros_eq: "pop_zeros xs = dropWhile (\<lambda>x. x = 0) xs"
  by (induction xs) auto

lemma without_trailing_zeros_panics:
  assumes "wf_version v"
  shows "without_trailing_zeros v = None \<longleftrightarrow> (\<forall>x \<in> set (version_release v). x = 0)"
proof -
  have t: "rev (pop_zeros (rev (version_release v))) = trim_release (version_release v)"
    by (simp add: pop_zeros_eq trim_release_def)
  have "trim_release (version_release v) = [] \<longleftrightarrow> (\<forall>x \<in> set (version_release v). x = 0)"
    by (auto simp: trim_release_def dropWhile_eq_Nil_conv)
  moreover have "with_release ns v = None \<longleftrightarrow> ns = []" for ns
    using with_release_Nil [OF assms] with_release_eq [OF assms, of ns] by (metis option.distinct(1))
  ultimately show ?thesis unfolding without_trailing_zeros_def t by simp
qed

lemma without_trailing_zeros_eq:
  assumes "wf_version v" "without_trailing_zeros v = Some w"
  shows "wf_version w" "make_full w = (make_full v)\<lparr>f_release := trim_release (version_release v)\<rparr>" "version_eq w v"
proof -
  have t: "rev (pop_zeros (rev (version_release v))) = trim_release (version_release v)"
    by (simp add: pop_zeros_eq trim_release_def)
  have "trim_release (version_release v) \<noteq> []"
    using assms(2) with_release_Nil [OF assms(1)] unfolding without_trailing_zeros_def t by (metis option.distinct(1))
  then show w: "wf_version w" "make_full w = (make_full v)\<lparr>f_release := trim_release (version_release v)\<rparr>"
    using assms(2) with_release_eq [OF assms(1), of "trim_release (version_release v)"]
    unfolding without_trailing_zeros_def t by (metis option.inject)+
  show "version_eq w v"
    using assms w sortable_tuple_cong [of w v]
    by (simp add: version_order_key version_key_def accessors_make_full)
qed

section \<open>Properties\<close>

text \<open>
  The versions the witnesses use: \<open>1.2.3\<close> packed, \<open>1.2.3.0+ubuntu.1\<close> and \<open>1.2.0.0\<close>
  (not packed), \<open>1.2rc4.dev5\<close> not packed because it has two suffixes.
\<close>

definition sample_packed :: version where
  "sample_packed = Small \<lparr>repr = 0x0001020300500000, rlen = 3\<rparr>"

definition sample_local :: version where
  "sample_local = Full \<lparr>f_epoch = 0, f_release = [1, 2, 3, 0], f_pre = None, f_post = None, f_dev = None,
     f_local = Segments [LString ''ubuntu'', LNumber 1], f_min = None, f_max = None\<rparr>"

definition sample_zeros :: version where
  "sample_zeros = Full \<lparr>f_epoch = 0, f_release = [1, 2, 0, 0], f_pre = None, f_post = None, f_dev = None,
     f_local = Segments [], f_min = None, f_max = None\<rparr>"

definition sample_pre :: version where
  "sample_pre = Full \<lparr>f_epoch = 0, f_release = [1, 2], f_pre = Some (Prerelease Rc 4), f_post = None,
     f_dev = Some 5, f_local = Segments [], f_min = None, f_max = None\<rparr>"

text \<open>
  C1: the comparison of two versions gives the result of the component-wise comparison
  (\<open>cmp_slow\<close>) also when it takes the shortcut of comparing the two packed 64-bit words.
\<close>

theorem version_cmp_agrees:
  assumes "wf_version a" "wf_version b"
  shows "version_cmp a b = cmp_slow a b"
  using assms by (rule version_cmp_slow)

theorem version_cmp_agrees_witness:
  "wf_version sample_packed \<and> wf_version (Small \<lparr>repr = 0x0001020000400007, rlen = 2\<rparr>)
   \<and> version_cmp sample_packed (Small \<lparr>repr = 0x0001020000400007, rlen = 2\<rparr>) = Greater
   \<and> version_cmp sample_packed (Small \<lparr>repr = 0x0001020000400007, rlen = 2\<rparr>)
       = cmp_slow sample_packed (Small \<lparr>repr = 0x0001020000400007, rlen = 2\<rparr>)"
proof -
  have w: "wf_version sample_packed" "wf_version (Small \<lparr>repr = 0x0001020000400007, rlen = 2\<rparr>)"
    by code_simp+
  moreover have "version_cmp sample_packed (Small \<lparr>repr = 0x0001020000400007, rlen = 2\<rparr>) = Greater"
    by code_simp
  ultimately show ?thesis using version_cmp_agrees [OF w] by blast
qed

text \<open>
  C2: the comparison is a total order on versions up to its own equality: reflexive, antisymmetric
  (comparing the other way round reverses the result) and transitive, which is what sorting and
  the ordered maps keyed by versions rely on.
\<close>

theorem version_cmp_total_order:
  assumes "wf_version a" "wf_version b" "wf_version c"
  shows "version_cmp a a = Equal \<and> version_cmp b a = reverse_ordering (version_cmp a b)
    \<and> (version_cmp a b \<noteq> Greater \<longrightarrow> version_cmp b c \<noteq> Greater \<longrightarrow> version_cmp a c \<noteq> Greater)
    \<and> (version_cmp a b = Equal \<longrightarrow> version_cmp a c = version_cmp b c)"
proof (intro conjI)
  show "version_cmp a a = Equal" using assms by (simp add: version_ord.compare_refl)
  show "version_cmp b a = reverse_ordering (version_cmp a b)"
    using assms by (simp add: version_ord.compare_swap [of a b])
  show "version_cmp a b \<noteq> Greater \<longrightarrow> version_cmp b c \<noteq> Greater \<longrightarrow> version_cmp a c \<noteq> Greater"
    using assms version_ord.compare_le_trans [of a b c] by blast
  show "version_cmp a b = Equal \<longrightarrow> version_cmp a c = version_cmp b c"
    using assms by (simp add: version_cmp_key)
qed

theorem version_cmp_total_order_witness:
  "wf_version sample_pre \<and> wf_version sample_packed \<and> wf_version sample_local
   \<and> version_cmp sample_pre sample_packed = Less \<and> version_cmp sample_packed sample_local = Less
   \<and> version_cmp sample_pre sample_local \<noteq> Greater"
proof -
  have w: "wf_version sample_pre" "wf_version sample_packed" "wf_version sample_local"
    by code_simp+
  moreover have "version_cmp sample_pre sample_packed = Less" "version_cmp sample_packed sample_local = Less"
    by code_simp+
  ultimately show ?thesis using version_cmp_total_order [OF w] by simp
qed



text \<open>
  C29: two versions without sentinels are equal exactly when all their components are equal, the
  releases up to trailing zeros.
\<close>

theorem version_eq_iff_components:
  assumes "pep440 a" "pep440 b"
  shows "version_eq a b \<longleftrightarrow> version_epoch a = version_epoch b
     \<and> trim_release (version_release a) = trim_release (version_release b)
     \<and> version_pre a = version_pre b \<and> version_post a = version_post b
     \<and> version_dev a = version_dev b \<and> version_local a = version_local b"
  using assms by (rule version_eq_components)

theorem version_eq_iff_components_witness:
  "pep440 sample_zeros \<and> pep440 (Small \<lparr>repr = 0x0001020000500000, rlen = 2\<rparr>)
   \<and> version_eq sample_zeros (Small \<lparr>repr = 0x0001020000500000, rlen = 2\<rparr>)"
proof -
  have w: "pep440 sample_zeros" "pep440 (Small \<lparr>repr = 0x0001020000500000, rlen = 2\<rparr>)"
    by code_simp+
  moreover have "version_epoch sample_zeros = version_epoch (Small \<lparr>repr = 0x0001020000500000, rlen = 2\<rparr>)
     \<and> trim_release (version_release sample_zeros)
       = trim_release (version_release (Small \<lparr>repr = 0x0001020000500000, rlen = 2\<rparr>))
     \<and> version_pre sample_zeros = version_pre (Small \<lparr>repr = 0x0001020000500000, rlen = 2\<rparr>)
     \<and> version_post sample_zeros = version_post (Small \<lparr>repr = 0x0001020000500000, rlen = 2\<rparr>)
     \<and> version_dev sample_zeros = version_dev (Small \<lparr>repr = 0x0001020000500000, rlen = 2\<rparr>)
     \<and> version_local sample_zeros = version_local (Small \<lparr>repr = 0x0001020000500000, rlen = 2\<rparr>)"
    by code_simp
  ultimately show ?thesis using version_eq_iff_components [OF w] by simp
qed

text \<open>
  C30: equal versions feed the same sequence of items to the hasher, so \<open>Hash\<close> agrees with \<open>Eq\<close>
  although equality ignores trailing zeros of the release.
\<close>

theorem version_eq_implies_hash:
  assumes "pep440 a" "pep440 b" "version_eq a b"
  shows "version_hash a = version_hash b"
  using assms by (rule version_eq_hash)

theorem version_eq_implies_hash_witness:
  "pep440 sample_zeros \<and> pep440 (Small \<lparr>repr = 0x0001020000500000, rlen = 2\<rparr>)
   \<and> version_eq sample_zeros (Small \<lparr>repr = 0x0001020000500000, rlen = 2\<rparr>)
   \<and> version_hash sample_zeros = version_hash (Small \<lparr>repr = 0x0001020000500000, rlen = 2\<rparr>)"
proof -
  have w: "pep440 sample_zeros" "pep440 (Small \<lparr>repr = 0x0001020000500000, rlen = 2\<rparr>)"
    "version_eq sample_zeros (Small \<lparr>repr = 0x0001020000500000, rlen = 2\<rparr>)"
    by code_simp+
  then show ?thesis using version_eq_implies_hash [OF w] by simp
qed

text \<open>
  C32: bumping a release number (\<open>uv version --bump major\<close> and the like), by one or to a larger
  value, gives a strictly larger version; the number must not be the largest 64-bit one, where the
  increment wraps around.
\<close>

theorem bump_release_is_larger:
  assumes "wf_version v"
    "case x of Some n \<Rightarrow> get_or_zero (version_release v) idx < n
     | None \<Rightarrow> get_or_zero (version_release v) idx \<noteq> u64_max"
  shows "version_lt v (bump (BumpRelease idx x) v)"
  using assms by (rule bump_release_increases)

theorem bump_release_is_larger_witness:
  "wf_version sample_pre \<and> get_or_zero (version_release sample_pre) 2 \<noteq> u64_max
   \<and> version_lt sample_pre (bump (BumpRelease 2 None) sample_pre)"
proof -
  have w: "wf_version sample_pre" "get_or_zero (version_release sample_pre) 2 \<noteq> u64_max"
    by code_simp+
  then show ?thesis using bump_release_is_larger [of sample_pre 2 None] by simp
qed



text \<open>
  \<open>only_release_trimmed\<close> keeps of a version its release without trailing zeros and nothing
  else; a release of zeros becomes \<open>0\<close>.
\<close>

theorem only_release_trimmed_result:
  assumes "wf_version v" "version_release v \<noteq> []"
  shows "\<exists>w. only_release_trimmed v = Some w \<and> wf_version w
    \<and> make_full w = release_only (if trim_release (version_release v) = [] then [0]
                                  else trim_release (version_release v))"
  using assms by (rule only_release_trimmed_eq) blast

text \<open>
  \<open>without_trailing_zeros\<close> panics exactly on a release of zeros only; otherwise it only
  drops trailing zeros and the result is equal to the version it came from.
\<close>

theorem without_trailing_zeros_result:
  assumes "wf_version v"
  shows "case without_trailing_zeros v of
      None \<Rightarrow> \<forall>x \<in> set (version_release v). x = 0
    | Some w \<Rightarrow> (\<exists>x \<in> set (version_release v). x \<noteq> 0) \<and> version_eq w v
        \<and> make_full w = (make_full v)\<lparr>f_release := trim_release (version_release v)\<rparr>"
  using assms without_trailing_zeros_panics [OF assms] without_trailing_zeros_eq [OF assms]
  by (auto split: option.split)

end
