(* ===== verification/Version_Parser.thy ===== *)
theory Version_Parser
  imports Version_Order
begin

text \<open>
  The version parser of \<open>crates/uv-pep440/src/version.rs\<close> (\<open>struct Parser\<close>) and the \<open>Display\<close>
  implementation of \<open>Version\<close>. Input is the byte string \<open>v\<close>; the parser record carries the position
  and the components found so far. Errors are values, \<open>assert!\<close>, \<open>expect\<close> and the array index of
  \<open>byte\<close> are \<open>Panic\<close>. Slices \<open>v[i..]\<close> are \<open>drop i v\<close>; the position never exceeds the length
  (\<open>parser_ok\<close> in \<open>Version_Parser_Facts\<close>), so no slice is out of range.
\<close>

section \<open>Bytes\<close>

definition byte_of :: "char \<Rightarrow> nat" where
  "byte_of c = of_char c"

definition is_ascii_digit :: "char \<Rightarrow> bool" where
  "is_ascii_digit c \<longleftrightarrow> 48 \<le> byte_of c \<and> byte_of c \<le> 57"

definition is_ascii_uppercase :: "char \<Rightarrow> bool" where
  "is_ascii_uppercase c \<longleftrightarrow> 65 \<le> byte_of c \<and> byte_of c \<le> 90"

definition is_ascii_lowercase :: "char \<Rightarrow> bool" where
  "is_ascii_lowercase c \<longleftrightarrow> 97 \<le> byte_of c \<and> byte_of c \<le> 122"

definition is_ascii_alphanumeric :: "char \<Rightarrow> bool" where
  "is_ascii_alphanumeric c \<longleftrightarrow> is_ascii_digit c \<or> is_ascii_uppercase c \<or> is_ascii_lowercase c"

definition is_ascii_whitespace :: "char \<Rightarrow> bool" where
  "is_ascii_whitespace c \<longleftrightarrow> byte_of c \<in> {9, 10, 12, 13, 32}"

definition to_ascii_lowercase :: "char \<Rightarrow> char" where
  "to_ascii_lowercase c = (if is_ascii_uppercase c then char_of (byte_of c + 32) else c)"

definition to_ascii_uppercase :: "char \<Rightarrow> char" where
  "to_ascii_uppercase c = (if is_ascii_lowercase c then char_of (byte_of c - 32) else c)"

definition eq_ignore_ascii_case :: "char \<Rightarrow> char \<Rightarrow> bool" where
  "eq_ignore_ascii_case a b \<longleftrightarrow> to_ascii_lowercase a = to_ascii_lowercase b"

definition starts_with_ignore_ascii_case :: "string \<Rightarrow> string \<Rightarrow> bool" where
  "starts_with_ignore_ascii_case needle haystack \<longleftrightarrow>
     length needle \<le> length haystack \<and> list_all (\<lambda>(b1, b2). eq_ignore_ascii_case b1 b2) (zip needle haystack)"

section \<open>Errors\<close>

datatype error_kind =
    Wildcard
  | InvalidDigit char
  | NumberTooBig string
  | NoLeadingNumber
  | NoLeadingReleaseNumber
  | LocalEmpty char
  | UnexpectedEnd string string

datatype pattern_error_kind = VersionError error_kind | WildcardNotTrailing

section \<open>Numbers\<close>

fun parse_u64_loop :: "string \<Rightarrow> u64 \<Rightarrow> string \<Rightarrow> (u64, error_kind) outcome" where
  "parse_u64_loop bytes n [] = Ok n"
| "parse_u64_loop bytes n (b # rest) =
    (if byte_of b < 48 then Err (InvalidDigit b)
     else if byte_of b - 48 > 9 then Err (InvalidDigit b)
     else case checked_mul_u64 n 10 of
            None \<Rightarrow> Err (NumberTooBig bytes)
          | Some m \<Rightarrow>
              (case checked_add_u64 m (of_nat (byte_of b - 48)) of
                 None \<Rightarrow> Err (NumberTooBig bytes)
               | Some k \<Rightarrow> parse_u64_loop bytes k rest))"

definition parse_u64 :: "string \<Rightarrow> (u64, error_kind) outcome" where
  "parse_u64 bytes = parse_u64_loop bytes 0 bytes"

section \<open>Byte sets and string sets\<close>

type_synonym byte_set = "char \<Rightarrow> bool"

definition byte_set_new :: "string \<Rightarrow> byte_set" where
  "byte_set_new bytes = (\<lambda>c. list_ex (\<lambda>b. c = to_ascii_uppercase b \<or> c = to_ascii_lowercase b) bytes)"

definition byte_set_starts_with :: "byte_set \<Rightarrow> string \<Rightarrow> char option" where
  "byte_set_starts_with bset haystack =
    (case haystack of [] \<Rightarrow> None | b # _ \<Rightarrow> if bset b then Some b else None)"

record string_set =
  first_byte :: byte_set
  strings :: "string list"

text \<open>
  \<open>StringSet::new\<close> collects the first bytes in an array of 20 zero bytes; \<open>None\<close> is its
  compile-time assertion that there are at most 20 non-empty strings.
\<close>

definition string_set_new :: "string list \<Rightarrow> string_set option" where
  "string_set_new strs =
    (if length strs \<le> 20 \<and> list_all (\<lambda>s. s \<noteq> []) strs
     then Some \<lparr>first_byte = byte_set_new (map hd strs @ replicate (20 - length strs) (char_of (0::nat))),
                strings = strs\<rparr>
     else None)"

fun string_set_find :: "char \<Rightarrow> string \<Rightarrow> nat \<Rightarrow> string list \<Rightarrow> nat option" where
  "string_set_find first haystack i [] = None"
| "string_set_find first haystack i (s # ss) =
    (if (case s of [] \<Rightarrow> False | b # _ \<Rightarrow> eq_ignore_ascii_case b first)
        \<and> starts_with_ignore_ascii_case s haystack
     then Some i else string_set_find first haystack (Suc i) ss)"

definition string_set_starts_with :: "string_set \<Rightarrow> string \<Rightarrow> nat option" where
  "string_set_starts_with sset haystack =
    (case byte_set_starts_with (first_byte sset) haystack of
       None \<Rightarrow> None
     | Some first \<Rightarrow> string_set_find first haystack 0 (strings sset))"

section \<open>Release numbers\<close>

datatype release_numbers = Inline "u64 list" nat | Vec "u64 list"

definition release_numbers_new :: release_numbers where
  "release_numbers_new = Inline [0, 0, 0, 0] 0"

fun release_numbers_push :: "u64 \<Rightarrow> release_numbers \<Rightarrow> release_numbers option" where
  "release_numbers_push n (Inline numbers len) =
    (if len > 4 then None
     else if len = 4 then Some (Vec (numbers @ [n]))
     else Some (Inline (numbers[len := n]) (len + 1)))"
| "release_numbers_push n (Vec numbers) = Some (Vec (numbers @ [n]))"

fun as_slice :: "release_numbers \<Rightarrow> u64 list" where
  "as_slice (Inline numbers len) = take len numbers"
| "as_slice (Vec numbers) = numbers"

section \<open>The parser state and its cursor\<close>

record parser =
  p_v :: string
  p_i :: nat
  p_epoch :: u64
  p_release :: release_numbers
  p_pre :: "prerelease option"
  p_post :: "u64 option"
  p_dev :: "u64 option"
  p_local :: "local_segment list"
  p_wildcard :: bool

definition parser_new :: "string \<Rightarrow> parser" where
  "parser_new v = \<lparr>p_v = v, p_i = 0, p_epoch = 0, p_release = release_numbers_new, p_pre = None,
     p_post = None, p_dev = None, p_local = [], p_wildcard = False\<rparr>"

definition is_done :: "parser \<Rightarrow> bool" where
  "is_done p \<longleftrightarrow> p_i p \<ge> length (p_v p)"

definition rest :: "parser \<Rightarrow> string" where
  "rest p = drop (p_i p) (p_v p)"

text \<open>\<open>bump_while\<close>: the loop stops at the first byte that fails the predicate.\<close>

function bump_while_loop :: "(char \<Rightarrow> bool) \<Rightarrow> string \<Rightarrow> nat \<Rightarrow> nat" where
  "bump_while_loop pred v i = (if i < length v \<and> pred (v ! i) then bump_while_loop pred v (i + 1) else i)"
  by pat_completeness auto
termination
  by (relation "measure (\<lambda>(pred, v, i). length v - i)") auto

declare bump_while_loop.simps [simp del]

definition bump_while :: "(char \<Rightarrow> bool) \<Rightarrow> parser \<Rightarrow> string \<times> parser" where
  "bump_while pred p =
    (let i = bump_while_loop pred (p_v p) (p_i p)
     in (take (i - p_i p) (drop (p_i p) (p_v p)), p\<lparr>p_i := i\<rparr>))"

definition bump_if :: "string \<Rightarrow> parser \<Rightarrow> bool \<times> parser" where
  "bump_if s p =
    (if is_done p then (False, p)
     else if starts_with_ignore_ascii_case s (rest p) then (True, p\<lparr>p_i := p_i p + length s\<rparr>)
     else (False, p))"

definition bump_if_string_set :: "string_set \<Rightarrow> parser \<Rightarrow> nat option \<times> parser" where
  "bump_if_string_set sset p =
    (case string_set_starts_with sset (rest p) of
       None \<Rightarrow> (None, p)
     | Some index \<Rightarrow> (Some index, p\<lparr>p_i := p_i p + length (strings sset ! index)\<rparr>))"

definition bump_if_byte_set :: "byte_set \<Rightarrow> parser \<Rightarrow> char option \<times> parser" where
  "bump_if_byte_set bset p =
    (case byte_set_starts_with bset (rest p) of
       None \<Rightarrow> (None, p)
     | Some found \<Rightarrow> (Some found, p\<lparr>p_i := p_i p + 1\<rparr>))"

definition unbump :: "parser \<Rightarrow> (parser, pattern_error_kind) outcome" where
  "unbump p = (if p_i p = 0 then Panic else Ok (p\<lparr>p_i := p_i p - 1\<rparr>))"

definition reset :: "nat \<Rightarrow> parser \<Rightarrow> (parser, pattern_error_kind) outcome" where
  "reset offset p = (if offset \<le> length (p_v p) then Ok (p\<lparr>p_i := offset\<rparr>) else Panic)"

definition SEPARATOR :: byte_set where
  "SEPARATOR = byte_set_new ''._-''"


section \<open>The parts of a version\<close>

definition map_version_error :: "('a, error_kind) outcome \<Rightarrow> ('a, pattern_error_kind) outcome" where
  "map_version_error r = (case r of Ok x \<Rightarrow> Ok x | Err e \<Rightarrow> Err (VersionError e) | Panic \<Rightarrow> Panic)"

definition parse_number :: "parser \<Rightarrow> (u64 option \<times> parser, pattern_error_kind) outcome" where
  "parse_number p =
    (case bump_while is_ascii_digit p of (digits, p) \<Rightarrow>
      if digits = [] then Ok (None, p)
      else and_then (map_version_error (parse_u64 digits)) (\<lambda>n.
        if n = u64_max then Err (VersionError (NumberTooBig digits))
        else Ok (Some n, p)))"

definition push_release_number :: "u64 \<Rightarrow> parser \<Rightarrow> (parser, pattern_error_kind) outcome" where
  "push_release_number n p =
    (case release_numbers_push n (p_release p) of
       None \<Rightarrow> Panic
     | Some r \<Rightarrow> Ok (p\<lparr>p_release := r\<rparr>))"

definition parse_epoch_and_initial_release :: "parser \<Rightarrow> (parser, pattern_error_kind) outcome" where
  "parse_epoch_and_initial_release p =
    and_then (parse_number p) (\<lambda>(first_number, p).
      case first_number of
        None \<Rightarrow> Err (VersionError NoLeadingNumber)
      | Some first_number \<Rightarrow>
          (case bump_if ''!'' p of (bang, p) \<Rightarrow>
            if bang
            then let p = p\<lparr>p_epoch := first_number\<rparr>
                 in and_then (parse_number p) (\<lambda>(n, p).
                      case n of
                        None \<Rightarrow> Err (VersionError NoLeadingReleaseNumber)
                      | Some n \<Rightarrow> push_release_number n p)
            else push_release_number first_number p))"

text \<open>
  The loop of \<open>parse_rest_of_release\<close>. It terminates because every round that continues has
  consumed at least the dot.
\<close>

lemma bump_while_loop_ge: "i \<le> bump_while_loop pred v i"
  by (induction pred v i rule: bump_while_loop.induct) (subst bump_while_loop.simps, auto)

lemma bump_if_True:
  assumes "bump_if s p = (True, p')"
  shows "p_i p < length (p_v p) \<and> p' = p\<lparr>p_i := p_i p + length s\<rparr>"
  using assms by (auto simp: bump_if_def is_done_def split: if_splits)

lemma parse_number_mono:
  assumes "parse_number p = Ok (n, p')"
  shows "p_i p \<le> p_i p' \<and> p_v p' = p_v p"
  using assms bump_while_loop_ge[of "p_i p" is_ascii_digit "p_v p"]
  by (auto simp: parse_number_def bump_while_def Let_def map_version_error_def
      split: if_splits outcome.splits)

lemma push_release_number_Ok:
  assumes "push_release_number n p = Ok p'"
  shows "p_i p' = p_i p \<and> p_v p' = p_v p"
  using assms by (auto simp: push_release_number_def split: option.splits)

function parse_rest_of_release :: "parser \<Rightarrow> (parser, pattern_error_kind) outcome" where
  "parse_rest_of_release p =
    (case bump_if ''.'' p of
       (False, p1) \<Rightarrow> Ok p1
     | (True, p1) \<Rightarrow>
        (case parse_number p1 of
           Ok (None, p2) \<Rightarrow> unbump p2
         | Ok (Some n, p2) \<Rightarrow>
            (case push_release_number n p2 of
               Ok p3 \<Rightarrow> parse_rest_of_release p3
             | Err e \<Rightarrow> Err e
             | Panic \<Rightarrow> Panic)
         | Err e \<Rightarrow> Err e
         | Panic \<Rightarrow> Panic))"
  by pat_completeness auto
termination
  apply (relation "measure (\<lambda>p. length (p_v p) - p_i p)")
   apply simp
  subgoal for p b p1 res q opt n p3
    using bump_if_True[of "''.''" p p1] parse_number_mono[of p1 "Some n"] push_release_number_Ok[of n]
    by auto
  done

declare parse_rest_of_release.simps [simp del]

definition parse_wildcard :: "parser \<Rightarrow> (bool \<times> parser, pattern_error_kind) outcome" where
  "parse_wildcard p =
    (case bump_if ''.*'' p of (found, p) \<Rightarrow>
      if \<not> found then Ok (False, p)
      else if \<not> is_done p then Err WildcardNotTrailing
      else Ok (True, p\<lparr>p_wildcard := True\<rparr>))"

definition PRE_SPELLINGS :: "string list" where
  "PRE_SPELLINGS = [''alpha'', ''beta'', ''preview'', ''pre'', ''rc'', ''a'', ''b'', ''c'']"

definition PRE_MAP :: "prerelease_kind list" where
  "PRE_MAP = [Alpha, Beta, Rc, Rc, Rc, Alpha, Beta, Rc]"

definition POST_SPELLINGS :: "string list" where
  "POST_SPELLINGS = [''post'', ''rev'', ''r'']"

definition parse_pre :: "parser \<Rightarrow> (parser, pattern_error_kind) outcome" where
  "parse_pre p =
    (let oldpos = p_i p;
         p = snd (bump_if_byte_set SEPARATOR p)
     in case bump_if_string_set (the (string_set_new PRE_SPELLINGS)) p of
          (None, p) \<Rightarrow> reset oldpos p
        | (Some spelling, p) \<Rightarrow>
            let kind = PRE_MAP ! spelling;
                p = snd (bump_if_byte_set SEPARATOR p)
            in and_then (parse_number p) (\<lambda>(number, p).
                 Ok (p\<lparr>p_pre := Some (Prerelease kind (case number of None \<Rightarrow> 0 | Some n \<Rightarrow> n))\<rparr>)))"

definition parse_post_spelled :: "nat \<Rightarrow> parser \<Rightarrow> (parser, pattern_error_kind) outcome" where
  "parse_post_spelled oldpos p =
    (let p = snd (bump_if_byte_set SEPARATOR p)
     in case bump_if_string_set (the (string_set_new POST_SPELLINGS)) p of
          (None, p) \<Rightarrow> reset oldpos p
        | (Some _, p) \<Rightarrow>
            let p = snd (bump_if_byte_set SEPARATOR p)
            in and_then (parse_number p) (\<lambda>(number, p).
                 Ok (p\<lparr>p_post := Some (case number of None \<Rightarrow> 0 | Some n \<Rightarrow> n)\<rparr>)))"

definition parse_post :: "parser \<Rightarrow> (parser, pattern_error_kind) outcome" where
  "parse_post p =
    (let oldpos = p_i p
     in case bump_if ''-'' p of
          (False, p) \<Rightarrow> parse_post_spelled oldpos p
        | (True, p) \<Rightarrow>
            and_then (parse_number p) (\<lambda>(n, p).
              case n of
                Some n \<Rightarrow> Ok (p\<lparr>p_post := Some n\<rparr>)
              | None \<Rightarrow> and_then (reset oldpos p) (parse_post_spelled oldpos)))"

definition parse_dev :: "parser \<Rightarrow> (parser, pattern_error_kind) outcome" where
  "parse_dev p =
    (let oldpos = p_i p;
         p = snd (bump_if_byte_set SEPARATOR p)
     in case bump_if ''dev'' p of
          (False, p) \<Rightarrow> reset oldpos p
        | (True, p) \<Rightarrow>
            let p = snd (bump_if_byte_set SEPARATOR p)
            in and_then (parse_number p) (\<lambda>(number, p).
                 Ok (p\<lparr>p_dev := Some (case number of None \<Rightarrow> 0 | Some n \<Rightarrow> n)\<rparr>)))"

definition local_segment_of :: "string \<Rightarrow> local_segment" where
  "local_segment_of first =
    (case parse_u64 first of Ok number \<Rightarrow> LNumber number | _ \<Rightarrow> LString (map to_ascii_lowercase first))"

text \<open>The loop of \<open>parse_local\<close>: every round consumes at least one alphanumeric byte.\<close>

lemma bump_while_nonempty:
  assumes "bump_while pred p = (w, p')" "w \<noteq> []"
  shows "p_i p < p_i p' \<and> p_i p < length (p_v p) \<and> p_v p' = p_v p"
  using assms bump_while_loop_ge[of "p_i p" pred "p_v p"]
  by (auto simp: bump_while_def Let_def intro: le_neq_implies_less)

lemma bump_if_byte_set_snd:
  "p_i p \<le> p_i (snd (bump_if_byte_set bset p)) \<and> p_v (snd (bump_if_byte_set bset p)) = p_v p"
  by (auto simp: bump_if_byte_set_def split: option.splits)

function parse_local_loop :: "char \<Rightarrow> parser \<Rightarrow> (parser, pattern_error_kind) outcome" where
  "parse_local_loop precursor p =
    (case bump_while is_ascii_alphanumeric p of (first, p1) \<Rightarrow>
      if first = [] then Err (VersionError (LocalEmpty precursor))
      else let p2 = p1\<lparr>p_local := p_local p1 @ [local_segment_of first]\<rparr>
           in (case bump_if_byte_set SEPARATOR p2 of
                 (None, p3) \<Rightarrow> Ok p3
               | (Some byte, p3) \<Rightarrow> parse_local_loop byte p3))"
  by pat_completeness auto
termination
  apply (relation "measure (\<lambda>(c, p). length (p_v p) - p_i p)")
   apply simp
  subgoal for precursor p w p1 p2 r p3 byte
    using bump_while_nonempty[of is_ascii_alphanumeric p w p1] bump_if_byte_set_snd[of p2 SEPARATOR]
    by (auto simp: prod_eq_iff)
  done

declare parse_local_loop.simps [simp del]

definition parse_local :: "parser \<Rightarrow> (parser, pattern_error_kind) outcome" where
  "parse_local p =
    (case bump_if ''+'' p of
       (False, p) \<Rightarrow> Ok p
     | (True, p) \<Rightarrow> parse_local_loop (CHR ''+'') p)"

section \<open>Patterns, the fast path and the entry points\<close>

record version_pattern =
  vp_version :: version
  vp_wildcard :: bool

definition into_pattern :: "parser \<Rightarrow> (version_pattern, pattern_error_kind) outcome" where
  "into_pattern p =
    (if length (as_slice (p_release p)) > 0
     then case version_new (as_slice (p_release p)) of
            None \<Rightarrow> Panic
          | Some v \<Rightarrow>
              Ok \<lparr>vp_version = with_local (Segments (p_local p)) (with_dev (p_dev p) (with_post (p_post p)
                     (with_pre (p_pre p) (with_epoch (p_epoch p) v)))),
                  vp_wildcard = p_wildcard p\<rparr>
     else Panic)"

definition from_fast_release :: "u8 list \<Rightarrow> u8 \<Rightarrow> version_pattern" where
  "from_fast_release release len =
    \<lparr>vp_version = Small \<lparr>repr =
        push_bit 48 (ucast (release ! 0)) OR push_bit 40 (ucast (release ! 1))
        OR push_bit 32 (ucast (release ! 2)) OR push_bit 24 (ucast (release ! 3))
        OR push_bit 20 SUFFIX_NONE, rlen = len\<rparr>,
     vp_wildcard = False\<rparr>"

definition byte_u8 :: "char \<Rightarrow> u8" where
  "byte_u8 c = of_nat (byte_of c)"

fun parse_fast_loop :: "bool \<Rightarrow> u8 \<Rightarrow> u8 list \<Rightarrow> u8 \<Rightarrow> string \<Rightarrow> version_pattern option" where
  "parse_fast_loop prev_digit cur release len [] =
    (if \<not> prev_digit then None
     else if unat len < length release
     then Some (from_fast_release (release[unat len := cur]) (len + 1))
     else None)"
| "parse_fast_loop prev_digit cur release len (byte # bytes) =
    (if byte = CHR ''.''
     then if \<not> prev_digit then None
          else if unat len < length release
          then parse_fast_loop False 0 (release[unat len := cur]) (len + 1) bytes
          else None
     else case checked_sub_u8 (byte_u8 byte) 48 of
            None \<Rightarrow> None
          | Some digit \<Rightarrow>
              if digit > 9 then None
              else case checked_mul_u8 cur 10 of
                     None \<Rightarrow> None
                   | Some cur10 \<Rightarrow>
                       (case checked_add_u8 cur10 digit of
                          None \<Rightarrow> None
                        | Some cur \<Rightarrow> parse_fast_loop True cur release len bytes))"

definition parse_fast_triple :: "string \<Rightarrow> version_pattern option" where
  "parse_fast_triple v =
    (case v of
       [major, d1, minor, d2, patch] \<Rightarrow>
         if d1 = CHR ''.'' \<and> d2 = CHR ''.''
            \<and> byte_u8 major - 48 \<le> 9 \<and> byte_u8 minor - 48 \<le> 9 \<and> byte_u8 patch - 48 \<le> 9
         then Some (from_fast_release [byte_u8 major - 48, byte_u8 minor - 48, byte_u8 patch - 48, 0] 3)
         else None
     | _ \<Rightarrow> None)"

definition parse_fast :: "parser \<Rightarrow> version_pattern option" where
  "parse_fast p =
    (case parse_fast_triple (p_v p) of
       Some vpat \<Rightarrow> Some vpat
     | None \<Rightarrow> parse_fast_loop False 0 [0, 0, 0, 0] 0 (p_v p))"

definition parse_suffixes :: "parser \<Rightarrow> (version_pattern, pattern_error_kind) outcome" where
  "parse_suffixes p =
    and_then (parse_pre p) (\<lambda>p.
    and_then (parse_post p) (\<lambda>p.
    and_then (parse_dev p) (\<lambda>p.
    and_then (parse_local p) (\<lambda>p.
      let p = snd (bump_while is_ascii_whitespace p)
      in if \<not> is_done p
         then Err (VersionError (UnexpectedEnd (take (p_i p) (p_v p)) (drop (p_i p) (p_v p))))
         else into_pattern p))))"

definition parse_slow :: "parser \<Rightarrow> (version_pattern, pattern_error_kind) outcome" where
  "parse_slow p =
    (let p = snd (bump_while is_ascii_whitespace p);
         p = snd (bump_if ''v'' p)
     in and_then (parse_epoch_and_initial_release p) (\<lambda>p.
        and_then (parse_rest_of_release p) (\<lambda>p.
        and_then (parse_wildcard p) (\<lambda>(wildcard, p).
          if wildcard then into_pattern p else parse_suffixes p))))"

definition parse_pattern :: "parser \<Rightarrow> (version_pattern, pattern_error_kind) outcome" where
  "parse_pattern p = (case parse_fast p of Some vpat \<Rightarrow> Ok vpat | None \<Rightarrow> parse_slow p)"

definition parse_version :: "parser \<Rightarrow> (version, error_kind) outcome" where
  "parse_version p =
    (case parse_pattern p of
       Ok vpat \<Rightarrow> if vp_wildcard vpat then Err Wildcard else Ok (vp_version vpat)
     | Err (VersionError e) \<Rightarrow> Err e
     | Err WildcardNotTrailing \<Rightarrow> Err Wildcard
     | Panic \<Rightarrow> Panic)"

definition version_from_str :: "string \<Rightarrow> (version, error_kind) outcome" where
  "version_from_str s = parse_version (parser_new s)"

definition version_pattern_from_str :: "string \<Rightarrow> (version_pattern, pattern_error_kind) outcome" where
  "version_pattern_from_str s = parse_pattern (parser_new s)"

section \<open>Display\<close>

text \<open>Decimal printing of an unsigned integer, as the standard library prints it.\<close>

fun show_nat :: "nat \<Rightarrow> string" where
  "show_nat n = (if n < 10 then [char_of (48 + n)] else show_nat (n div 10) @ [char_of (48 + n mod 10)])"

declare show_nat.simps [simp del]

definition show_u64 :: "u64 \<Rightarrow> string" where
  "show_u64 n = show_nat (unat n)"

fun show_prerelease_kind :: "prerelease_kind \<Rightarrow> string" where
  "show_prerelease_kind Alpha = ''a''"
| "show_prerelease_kind Beta = ''b''"
| "show_prerelease_kind Rc = ''rc''"

fun show_prerelease :: "prerelease \<Rightarrow> string" where
  "show_prerelease (Prerelease kind number) = show_prerelease_kind kind @ show_u64 number"

fun show_local_segment :: "local_segment \<Rightarrow> string" where
  "show_local_segment (LString s) = s"
| "show_local_segment (LNumber n) = show_u64 n"

fun show_dotted :: "('a \<Rightarrow> string) \<Rightarrow> 'a list \<Rightarrow> string" where
  "show_dotted f [] = []"
| "show_dotted f (x # xs) = f x @ concat (map (\<lambda>y. ''.'' @ f y) xs)"

fun show_local :: "local_version \<Rightarrow> string" where
  "show_local (Segments segments) = show_dotted show_local_segment segments"
| "show_local LMax = ''[max]''"

definition version_to_string :: "version \<Rightarrow> string" where
  "version_to_string v =
    (if version_epoch v \<noteq> 0 then show_u64 (version_epoch v) @ ''!'' else [])
    @ show_dotted show_u64 (version_release v)
    @ (case version_pre v of None \<Rightarrow> [] | Some pre \<Rightarrow> show_prerelease pre)
    @ (case version_post v of None \<Rightarrow> [] | Some post \<Rightarrow> ''.post'' @ show_u64 post)
    @ (case version_dev v of None \<Rightarrow> [] | Some dev \<Rightarrow> ''.dev'' @ show_u64 dev)
    @ (if \<not> local_is_empty (version_local v)
       then case version_local v of
              Segments _ \<Rightarrow> ''+'' @ show_local (version_local v)
            | LMax \<Rightarrow> ''+''
       else [])"

end
