(* ===== verification/Version_Parser_Facts.thy ===== *)
theory Version_Parser_Facts
  imports Version_Parser
begin

text \<open>
  Facts about the version parser: closed forms of the cursor operations, the invariant
  \<open>parser_ok\<close> that every part keeps (so that no \<open>assert!\<close> fails and no slice is out of range), and
  the agreement of the numeric fast path with the general parser.
\<close>

section \<open>Closed forms of the cursor operations\<close>

abbreviation advance :: "nat \<Rightarrow> parser \<Rightarrow> parser" where
  "advance n p \<equiv> p\<lparr>p_i := p_i p + n\<rparr>"

lemma rest_advance [simp]: "rest (p\<lparr>p_i := p_i p + n\<rparr>) = drop n (rest p)"
  by (simp add: rest_def add.commute)

lemma rest_advance_Suc [simp]:
  "rest (p\<lparr>p_i := Suc (p_i p)\<rparr>) = drop 1 (rest p)" "rest (p\<lparr>p_i := Suc (p_i p + n)\<rparr>) = drop (Suc n) (rest p)"
  by (simp_all add: rest_def add.commute)

lemma rest_updates [simp]:
  "rest (p\<lparr>p_epoch := e\<rparr>) = rest p" "rest (p\<lparr>p_release := r\<rparr>) = rest p" "rest (p\<lparr>p_pre := a\<rparr>) = rest p"
  "rest (p\<lparr>p_post := b\<rparr>) = rest p" "rest (p\<lparr>p_dev := c\<rparr>) = rest p" "rest (p\<lparr>p_local := l\<rparr>) = rest p"
  "rest (p\<lparr>p_wildcard := w\<rparr>) = rest p"
  by (simp_all add: rest_def)

lemma rest_reset [simp]: "rest (p\<lparr>p_i := p_i q\<rparr>) = drop (p_i q) (p_v p)"
  by (simp add: rest_def)

lemma is_done_rest: "is_done p \<longleftrightarrow> rest p = []"
  by (simp add: is_done_def rest_def)

lemma bump_while_loop_eq: "bump_while_loop pred v i = i + length (takeWhile pred (drop i v))"
proof (induction pred v i rule: bump_while_loop.induct)
  case (1 pred v i)
  show ?case
  proof (cases "i < length v \<and> pred (v ! i)")
    case True
    with 1 show ?thesis
      by (subst bump_while_loop.simps) (simp add: Cons_nth_drop_Suc [symmetric])
  next
    case False
    then have "takeWhile pred (drop i v) = []"
      by (cases "i < length v") (auto simp: Cons_nth_drop_Suc [symmetric])
    with False show ?thesis by (subst bump_while_loop.simps) auto
  qed
qed

lemma bump_while_eq [simp]:
  "bump_while pred p = (takeWhile pred (rest p), advance (length (takeWhile pred (rest p))) p)"
  by (simp add: bump_while_def bump_while_loop_eq rest_def Let_def takeWhile_eq_take [symmetric])

lemma drop_length_takeWhile [simp]: "drop (length (takeWhile P xs)) xs = dropWhile P xs"
  by (simp add: dropWhile_eq_drop)

section \<open>Case-insensitive prefixes\<close>

lemma starts_with_Nil [simp]: "starts_with_ignore_ascii_case [] h"
  by (simp add: starts_with_ignore_ascii_case_def)

lemma starts_with_Cons:
  "starts_with_ignore_ascii_case (n # ns) h \<longleftrightarrow>
     (case h of [] \<Rightarrow> False | c # cs \<Rightarrow> eq_ignore_ascii_case n c \<and> starts_with_ignore_ascii_case ns cs)"
  by (cases h) (auto simp: starts_with_ignore_ascii_case_def)

lemma eq_ignore_refl [simp]: "eq_ignore_ascii_case c c"
  by (simp add: eq_ignore_ascii_case_def)

lemma starts_with_append [simp]: "starts_with_ignore_ascii_case s (s @ t)"
  by (induction s) (simp_all add: starts_with_Cons)

lemma bump_if_eq:
  "s \<noteq> [] \<Longrightarrow> bump_if s p =
    (if starts_with_ignore_ascii_case s (rest p) then (True, advance (length s) p) else (False, p))"
  by (auto simp: bump_if_def is_done_rest starts_with_ignore_ascii_case_def)

lemma starts_with_length: "starts_with_ignore_ascii_case s h \<Longrightarrow> length s \<le> length h"
  by (simp add: starts_with_ignore_ascii_case_def)

text \<open>A byte that is not a letter is only matched by itself.\<close>

lemma byte_of_inj [simp]: "byte_of a = byte_of b \<longleftrightarrow> a = b"
  by (simp add: byte_of_def)

lemma byte_of_char_of [simp]: "n < 256 \<Longrightarrow> byte_of (char_of n) = n"
  by (simp add: byte_of_def)

lemma eq_ignore_nonletter:
  assumes "\<not> is_ascii_uppercase c" "\<not> is_ascii_lowercase c"
  shows "eq_ignore_ascii_case c d \<longleftrightarrow> c = d"
proof -
  have "byte_of (to_ascii_lowercase d) = (if is_ascii_uppercase d then byte_of d + 32 else byte_of d)"
    by (simp add: to_ascii_lowercase_def is_ascii_uppercase_def)
  with assms show ?thesis
    unfolding eq_ignore_ascii_case_def byte_of_inj [symmetric] to_ascii_lowercase_def [of c]
    by (auto simp: is_ascii_uppercase_def is_ascii_lowercase_def split: if_splits)
qed

section \<open>Numbers\<close>

definition digit :: "char \<Rightarrow> nat" where
  "digit c = byte_of c - 48"

definition digits_from :: "nat \<Rightarrow> string \<Rightarrow> nat" where
  "digits_from n ds = foldl (\<lambda>a c. a * 10 + digit c) n ds"

lemma digits_from_simps [simp]:
  "digits_from n [] = n" "digits_from n (c # cs) = digits_from (n * 10 + digit c) cs"
  "digits_from n (as @ bs) = digits_from (digits_from n as) bs"
  by (simp_all add: digits_from_def)

lemma digits_from_ge: "n \<le> digits_from n ds"
proof (induction ds arbitrary: n)
  case (Cons c cs)
  have "n \<le> n * 10 + digit c" by simp
  also have "\<dots> \<le> digits_from n (c # cs)" using Cons [of "n * 10 + digit c"] by simp
  finally show ?case .
qed simp

lemma unat_u64_less [simp]: "unat (n::u64) < 18446744073709551616"
  using unsigned_less [of n] by simp

lemma parse_u64_loop_digits:
  assumes "\<forall>c \<in> set ds. is_ascii_digit c"
  shows "parse_u64_loop bs n ds =
    (if digits_from (unat n) ds < 2 ^ 64 then Ok (of_nat (digits_from (unat n) ds)) else Err (NumberTooBig bs))"
  using assms
proof (induction ds arbitrary: n)
  case (Cons c cs)
  have d: "\<not> byte_of c < 48" "\<not> byte_of c - 48 > 9" "digit c \<le> 9"
    using Cons.prems by (auto simp: is_ascii_digit_def digit_def)
  have ge: "unat n * 10 \<le> unat n * 10 + digit c" "unat n * 10 + digit c \<le> digits_from (unat n * 10 + digit c) cs"
    by (simp_all add: digits_from_ge)
  have ten: "unat (10::u64) = 10" by simp
  have dg: "unat (of_nat (digit c) :: u64) = digit c" using d(3) by (simp add: unsigned_of_nat take_bit_nat_eq_self)
  show ?case
  proof (cases "unat n * 10 + digit c < 2 ^ 64")
    case True
    then have m: "unat (n * 10) = unat n * 10"
      by (simp add: unat_word_ariths)
    then have a: "unat (n * 10 + of_nat (digit c)) = unat n * 10 + digit c"
      using True dg by (simp add: unat_word_ariths)
    show ?thesis using True d(1,2) m a dg Cons.IH [of "n * 10 + of_nat (digit c)"] Cons.prems
      by (simp add: checked_mul_u64_def checked_add_u64_def digit_def [symmetric])
  next
    case False
    then have f: "\<not> digits_from (unat n * 10 + digit c) cs < 2 ^ 64" using ge by linarith
    show ?thesis
    proof (cases "unat n * 10 < 2 ^ 64")
      case True
      then have m: "unat (n * 10) = unat n * 10" by (simp add: unat_word_ariths)
      show ?thesis using True False f d(1,2) m dg
        by (simp add: checked_mul_u64_def checked_add_u64_def digit_def [symmetric])
    next
      case False
      then show ?thesis using f d(1,2) by (simp add: checked_mul_u64_def)
    qed
  qed
qed simp

lemma parse_u64_digits:
  assumes "\<forall>c \<in> set ds. is_ascii_digit c"
  shows "parse_u64 ds = (if digits_from 0 ds < 2 ^ 64 then Ok (of_nat (digits_from 0 ds)) else Err (NumberTooBig ds))"
  using parse_u64_loop_digits [OF assms, of ds 0] by (simp add: parse_u64_def)

lemma parse_u64_loop_not_Panic: "parse_u64_loop bs n ds \<noteq> Panic"
  by (induction bs n ds rule: parse_u64_loop.induct) (auto split: option.splits)

lemma parse_u64_not_Panic [simp]: "parse_u64 ds \<noteq> Panic"
  by (simp add: parse_u64_def parse_u64_loop_not_Panic)

lemma parse_u64_loop_Ok: "parse_u64_loop bs n ds = Ok k \<Longrightarrow> \<forall>c \<in> set ds. is_ascii_digit c"
  by (induction bs n ds rule: parse_u64_loop.induct)
    (auto simp: is_ascii_digit_def split: option.splits if_splits)

lemma show_nat_digits: "\<forall>c \<in> set (show_nat n). is_ascii_digit c"
  by (induction n rule: show_nat.induct) (subst show_nat.simps, auto simp: is_ascii_digit_def)

lemma digits_from_show_nat: "digits_from 0 (show_nat n) = n"
  by (induction n rule: show_nat.induct) (subst show_nat.simps, simp add: digit_def)

lemma show_nat_nonempty [simp]: "show_nat n \<noteq> []"
  by (subst show_nat.simps) simp

lemma show_u64_facts:
  "\<forall>c \<in> set (show_u64 n). is_ascii_digit c" "show_u64 n \<noteq> []" "digits_from 0 (show_u64 n) = unat n"
  by (simp_all add: show_u64_def show_nat_digits digits_from_show_nat)

lemma parse_show_u64 [simp]: "parse_u64 (show_u64 n) = Ok n"
  using show_u64_facts [of n] unsigned_less [of n] by (simp add: parse_u64_digits)

lemma parse_number_eq:
  "parse_number p =
    (let ds = takeWhile is_ascii_digit (rest p)
     in if ds = [] then Ok (None, p)
        else if digits_from 0 ds < 2 ^ 64 - 1 then Ok (Some (of_nat (digits_from 0 ds)), advance (length ds) p)
        else Err (VersionError (NumberTooBig ds)))"
proof -
  define ds where "ds = takeWhile is_ascii_digit (rest p)"
  define k where "k = digits_from 0 ds"
  have "\<forall>c \<in> set ds. is_ascii_digit c" unfolding ds_def by (meson set_takeWhileD)
  then have u: "parse_u64 ds = (if k < 2 ^ 64 then Ok (of_nat k) else Err (NumberTooBig ds))"
    unfolding k_def by (rule parse_u64_digits)
  have b: "bump_while is_ascii_digit p = (ds, advance (length ds) p)" by (simp add: ds_def)
  have m: "k < 2 ^ 64 \<Longrightarrow> of_nat k = u64_max \<longleftrightarrow> k = 2 ^ 64 - 1"
    by (simp only: word_unat_eq_iff unat_u64_max unsigned_of_nat) (simp add: take_bit_nat_eq_self)
  show ?thesis
    unfolding parse_number_def b prod.case u Let_def ds_def [symmetric] k_def [symmetric]
    using m by (cases "ds = []"; cases "k < 2 ^ 64"; cases "k = 2 ^ 64 - 1") (auto simp: map_version_error_def)
qed

definition release_ok :: "release_numbers \<Rightarrow> bool" where
  "release_ok r = (case r of Inline ns len \<Rightarrow> length ns = 4 \<and> len \<le> 4 | Vec _ \<Rightarrow> True)"

lemma release_numbers_push_ok:
  assumes "release_ok r"
  shows "\<exists>r'. release_numbers_push n r = Some r' \<and> release_ok r' \<and> as_slice r' = as_slice r @ [n]"
  using assms
  by (cases r) (auto simp: release_ok_def take_Suc_conv_app_nth)

text \<open>What the parser puts into a local version: numbers, and lower-case alphanumeric words that are no number.\<close>

fun parsed_segment :: "local_segment \<Rightarrow> bool" where
  "parsed_segment (LNumber n) = True"
| "parsed_segment (LString s) \<longleftrightarrow>
     s \<noteq> [] \<and> list_all (\<lambda>c. is_ascii_digit c \<or> is_ascii_lowercase c) s
     \<and> (case parse_u64 s of Ok _ \<Rightarrow> False | _ \<Rightarrow> True)"

definition parser_ok :: "parser \<Rightarrow> bool" where
  "parser_ok p \<longleftrightarrow>
     p_i p \<le> length (p_v p) \<and> release_ok (p_release p) \<and> p_epoch p \<noteq> u64_max
     \<and> u64_max \<notin> set (as_slice (p_release p))
     \<and> (case p_pre p of None \<Rightarrow> True | Some pre \<Rightarrow> pre_number pre \<noteq> u64_max)
     \<and> p_post p \<noteq> Some u64_max \<and> p_dev p \<noteq> Some u64_max \<and> list_all parsed_segment (p_local p)"

lemma parser_new_ok: "parser_ok (parser_new s)"
  by (simp add: parser_ok_def parser_new_def release_numbers_new_def release_ok_def)

text \<open>The cursor operations only move the position forward, within the input.\<close>

definition moves :: "parser \<Rightarrow> parser \<Rightarrow> bool" where
  "moves p q \<longleftrightarrow> q = p\<lparr>p_i := p_i q\<rparr> \<and> p_i p \<le> p_i q \<and> p_i q \<le> length (p_v p)"

lemma moves_refl: "parser_ok p \<Longrightarrow> moves p p"
  by (simp add: moves_def parser_ok_def)

lemma moves_fields:
  assumes "moves p q"
  shows "p_v q = p_v p" "p_epoch q = p_epoch p" "p_release q = p_release p" "p_pre q = p_pre p"
    "p_post q = p_post p" "p_dev q = p_dev p" "p_local q = p_local p" "p_wildcard q = p_wildcard p"
  using assms by (cases p; cases q; simp add: moves_def)+

lemma moves_trans: "moves p q \<Longrightarrow> moves q r \<Longrightarrow> moves p r"
  by (cases p; cases q; cases r) (auto simp: moves_def)

lemma moves_advance: "parser_ok p \<Longrightarrow> n \<le> length (rest p) \<Longrightarrow> moves p (advance n p)"
  by (auto simp: moves_def parser_ok_def rest_def)

lemma moves_ok: "moves p q \<Longrightarrow> parser_ok p \<Longrightarrow> parser_ok q"
  using moves_fields [of p q] by (simp add: parser_ok_def moves_def)

lemma moves_reset: "moves p q \<Longrightarrow> reset (p_i p) q = Ok p"
  by (cases p; cases q) (auto simp: moves_def reset_def)


lemma parse_number_safe:
  assumes "parser_ok p"
  shows "safe (\<lambda>(n, q). n \<noteq> Some u64_max \<and> moves p q) (parse_number p)"
proof -
  have "of_nat k \<noteq> u64_max" if "k < 2 ^ 64 - 1" for k :: nat
    using that by (simp add: word_unat_eq_iff unat_u64_max unsigned_of_nat take_bit_nat_eq_self)
  then show ?thesis
    using assms by (auto simp: parse_number_eq Let_def length_takeWhile_le moves_refl intro: moves_advance)
qed

lemma bump_if_byte_set_moves: "parser_ok p \<Longrightarrow> moves p (snd (bump_if_byte_set bs p))"
  by (auto simp: bump_if_byte_set_def byte_set_starts_with_def moves_refl Suc_leI
      split: option.splits list.splits intro: moves_advance [of p 1, simplified])

lemma string_set_find_Some:
  "string_set_find c h i ss = Some j \<Longrightarrow> i \<le> j \<and> j - i < length ss \<and> starts_with_ignore_ascii_case (ss ! (j - i)) h"
proof (induction c h i ss rule: string_set_find.induct)
  case (2 c h i s ss)
  show ?case
  proof (cases "j = i")
    case True
    with 2 show ?thesis by (auto split: if_splits)
  next
    case False
    with 2 have "Suc i \<le> j \<and> j - Suc i < length ss \<and> starts_with_ignore_ascii_case (ss ! (j - Suc i)) h"
      by (auto split: if_splits)
    then show ?thesis by (auto simp: nth_Cons' Suc_diff_Suc)
  qed
qed simp

lemma bump_if_string_set_Some:
  assumes "bump_if_string_set ss p = (Some j, q)"
  shows "j < length (strings ss) \<and> q = advance (length (strings ss ! j)) p \<and> length (strings ss ! j) \<le> length (rest p)"
  using assms string_set_find_Some [of _ "rest p" 0 "strings ss" j]
  by (auto simp: bump_if_string_set_def string_set_starts_with_def split: option.splits dest: starts_with_length)

lemma bump_if_string_set_moves: "parser_ok p \<Longrightarrow> bump_if_string_set ss p = (r, q) \<Longrightarrow> moves p q"
  using bump_if_string_set_Some [of ss p _ q]
  by (cases r) (auto simp: bump_if_string_set_def moves_refl split: option.splits intro: moves_advance)

lemma bump_if_moves: "parser_ok p \<Longrightarrow> bump_if s p = (b, q) \<Longrightarrow> moves p q"
  by (auto simp: bump_if_def moves_refl split: if_splits intro: moves_advance dest: starts_with_length)

section \<open>No part panics\<close>

text \<open>
  The contract of a parser part that runs after the release: it keeps the invariant, the input, the
  epoch, the release and the wildcard flag, and it does not panic.
\<close>

definition part_post :: "parser \<Rightarrow> parser \<Rightarrow> bool" where
  "part_post p q \<longleftrightarrow> parser_ok q \<and> p_v q = p_v p \<and> p_epoch q = p_epoch p
     \<and> p_release q = p_release p \<and> p_wildcard q = p_wildcard p"

lemma moves_part_post: "moves p q \<Longrightarrow> parser_ok p \<Longrightarrow> part_post p q"
  by (simp add: part_post_def moves_fields moves_ok)

locale parser_part =
  fixes part :: "parser \<Rightarrow> (parser, pattern_error_kind) outcome"
  assumes part_safe: "parser_ok p \<Longrightarrow> safe (part_post p) (part p)"
begin

lemma safe_then:
  assumes "parser_ok p" "part_post r p" "\<And>q. part_post r q \<Longrightarrow> safe Q (f q)"
  shows "safe Q (and_then (part p) f)"
  using part_safe [OF assms(1)]
proof (rule safe_and_then)
  fix q assume "part_post p q"
  with assms(2) have "part_post r q" by (simp add: part_post_def)
  then show "safe Q (f q)" by (rule assms(3))
qed

end

lemma unwrap_or_zero: "n \<noteq> Some u64_max \<Longrightarrow> (case n of None \<Rightarrow> 0 | Some x \<Rightarrow> x) \<noteq> u64_max"
  by (cases n) simp_all

text \<open>The common end of the three numbered parts: separator, number (0 when absent), store.\<close>

lemma numbered_safe:
  assumes "parser_ok p" "moves p q" "\<And>n q. n \<noteq> u64_max \<Longrightarrow> part_post p q \<Longrightarrow> part_post p (upd n q)"
  shows "safe (part_post p) (and_then (parse_number (snd (bump_if_byte_set SEPARATOR q)))
     (\<lambda>(number, p). Ok (upd (case number of None \<Rightarrow> 0 | Some n \<Rightarrow> n) p)))"
proof -
  let ?q = "snd (bump_if_byte_set SEPARATOR q)"
  have ok: "parser_ok q" using assms(2,1) by (rule moves_ok)
  then have m: "moves p ?q" using assms(2) bump_if_byte_set_moves moves_trans by blast
  from parse_number_safe [OF moves_ok [OF m assms(1)]] show ?thesis
  proof (rule safe_and_then)
    fix x assume x: "case x of (n, r) \<Rightarrow> n \<noteq> Some u64_max \<and> moves ?q r"
    obtain n r where [simp]: "x = (n, r)" by force
    have "part_post p r" using x moves_part_post [OF moves_trans [OF m] assms(1)] by simp
    then show "safe (part_post p) ((\<lambda>(number, p). Ok (upd (case number of None \<Rightarrow> 0 | Some n \<Rightarrow> n) p)) x)"
      using x assms(3) [OF unwrap_or_zero [of n]] by simp
  qed
qed

lemma part_post_updates:
  assumes "part_post p q" "n \<noteq> u64_max"
  shows "part_post p (q\<lparr>p_pre := Some (Prerelease k n)\<rparr>)" "part_post p (q\<lparr>p_post := Some n\<rparr>)"
    "part_post p (q\<lparr>p_dev := Some n\<rparr>)"
  using assms by (auto simp: part_post_def parser_ok_def)

interpretation pre_part: parser_part parse_pre
proof
  fix p assume ok: "parser_ok p"
  let ?q = "snd (bump_if_byte_set SEPARATOR p)" and ?ss = "the (string_set_new PRE_SPELLINGS)"
  have m: "moves p ?q" using ok by (rule bump_if_byte_set_moves)
  obtain r q where s: "bump_if_string_set ?ss ?q = (r, q)" by force
  have m2: "moves p q" using m bump_if_string_set_moves [OF moves_ok [OF m ok] s] by (rule moves_trans)
  show "safe (part_post p) (parse_pre p)"
  proof (cases r)
    case None
    then show ?thesis using ok s m2 by (simp add: parse_pre_def moves_reset moves_part_post moves_refl)
  next
    case (Some j)
    then show ?thesis
      using s numbered_safe [OF ok m2, of "\<lambda>n q. q\<lparr>p_pre := Some (Prerelease (PRE_MAP ! j) n)\<rparr>"]
      by (simp add: parse_pre_def Let_def part_post_updates)
  qed
qed

lemma parse_post_spelled_safe:
  assumes ok: "parser_ok p"
  shows "safe (part_post p) (parse_post_spelled (p_i p) p)"
proof -
  let ?q = "snd (bump_if_byte_set SEPARATOR p)" and ?ss = "the (string_set_new POST_SPELLINGS)"
  have m: "moves p ?q" using ok by (rule bump_if_byte_set_moves)
  obtain r q where s: "bump_if_string_set ?ss ?q = (r, q)" by force
  have m2: "moves p q" using m bump_if_string_set_moves [OF moves_ok [OF m ok] s] by (rule moves_trans)
  show ?thesis
  proof (cases r)
    case None
    then show ?thesis using ok s m2 by (simp add: parse_post_spelled_def moves_reset moves_part_post moves_refl)
  next
    case (Some j)
    then show ?thesis
      using s numbered_safe [OF ok m2, of "\<lambda>n q. q\<lparr>p_post := Some n\<rparr>"]
      by (simp add: parse_post_spelled_def Let_def part_post_updates)
  qed
qed

interpretation post_part: parser_part parse_post
proof
  fix p assume ok: "parser_ok p"
  obtain b q where s: "bump_if ''-'' p = (b, q)" by force
  have m: "moves p q" using ok s by (rule bump_if_moves)
  show "safe (part_post p) (parse_post p)"
  proof (cases b)
    case False
    then have "q = p" using s by (auto simp: bump_if_def split: if_splits)
    then show ?thesis using False s parse_post_spelled_safe [OF ok] by (simp add: parse_post_def)
  next
    case True
    have "safe (part_post p) (and_then (parse_number q) (\<lambda>(n, r).
       case n of Some n \<Rightarrow> Ok (r\<lparr>p_post := Some n\<rparr>)
       | None \<Rightarrow> and_then (reset (p_i p) r) (parse_post_spelled (p_i p))))"
      using parse_number_safe [OF moves_ok [OF m ok]]
    proof (rule safe_and_then)
      fix x assume x: "case x of (n, r) \<Rightarrow> n \<noteq> Some u64_max \<and> moves q r"
      obtain n r where [simp]: "x = (n, r)" by force
      have mr: "moves p r" using x moves_trans [OF m] by simp
      then show "safe (part_post p) ((\<lambda>(n, r).
         case n of Some n \<Rightarrow> Ok (r\<lparr>p_post := Some n\<rparr>)
         | None \<Rightarrow> and_then (reset (p_i p) r) (parse_post_spelled (p_i p))) x)"
        using x moves_part_post [OF mr ok] parse_post_spelled_safe [OF ok]
        by (cases n) (simp_all add: moves_reset part_post_updates)
    qed
    then show ?thesis using True s by (simp add: parse_post_def Let_def)
  qed
qed

interpretation dev_part: parser_part parse_dev
proof
  fix p assume ok: "parser_ok p"
  let ?q = "snd (bump_if_byte_set SEPARATOR p)"
  have m: "moves p ?q" using ok by (rule bump_if_byte_set_moves)
  obtain b q where s: "bump_if ''dev'' ?q = (b, q)" by force
  have m2: "moves p q" using m bump_if_moves [OF moves_ok [OF m ok] s] by (rule moves_trans)
  show "safe (part_post p) (parse_dev p)"
  proof (cases b)
    case False
    then show ?thesis using ok s m2 by (simp add: parse_dev_def moves_reset moves_part_post moves_refl)
  next
    case True
    then show ?thesis
      using s numbered_safe [OF ok m2, of "\<lambda>n q. q\<lparr>p_dev := Some n\<rparr>"]
      by (simp add: parse_dev_def Let_def part_post_updates)
  qed
qed

lemma local_segment_of_parsed:
  assumes "w \<noteq> []" "list_all is_ascii_alphanumeric w"
  shows "parsed_segment (local_segment_of w)"
proof (cases "\<exists>n. parse_u64 w = Ok n")
  case True
  then show ?thesis by (auto simp: local_segment_of_def)
next
  case False
  have lower: "is_ascii_digit (to_ascii_lowercase c) \<or> is_ascii_lowercase (to_ascii_lowercase c)"
    if "is_ascii_alphanumeric c" for c
    using that by (auto simp: is_ascii_alphanumeric_def to_ascii_lowercase_def is_ascii_uppercase_def
        is_ascii_lowercase_def is_ascii_digit_def)
  have digit: "is_ascii_digit (to_ascii_lowercase c) \<longleftrightarrow> is_ascii_digit c" for c
    by (auto simp: to_ascii_lowercase_def is_ascii_uppercase_def is_ascii_digit_def)
  have same: "to_ascii_lowercase c = c" if "is_ascii_digit c" for c
    using that by (simp add: to_ascii_lowercase_def is_ascii_uppercase_def is_ascii_digit_def)
  let ?w = "map to_ascii_lowercase w"
  have "parse_u64 ?w \<noteq> Ok n" for n
  proof
    assume o: "parse_u64 ?w = Ok n"
    then have "\<forall>c \<in> set ?w. is_ascii_digit c" unfolding parse_u64_def by (rule parse_u64_loop_Ok)
    then have "?w = w" using digit same by (auto intro!: map_idI)
    with o False show False by simp
  qed
  moreover have "list_all (\<lambda>c. is_ascii_digit c \<or> is_ascii_lowercase c) ?w"
    using assms(2) lower by (auto simp: list_all_iff)
  ultimately show ?thesis using assms(1) False
    by (auto simp: local_segment_of_def split: outcome.splits)
qed

lemma takeWhile_all: "list_all P (takeWhile P xs)"
  by (auto simp: list_all_iff dest: set_takeWhileD)

lemma safe_part_post: "safe (part_post q) m \<Longrightarrow> part_post p q \<Longrightarrow> safe (part_post p) m"
  by (cases m) (auto simp: part_post_def)

lemma parse_local_loop_safe: "parser_ok p \<Longrightarrow> safe (part_post p) (parse_local_loop c p)"
proof (induction c p rule: parse_local_loop.induct)
  case (1 c p)
  define w where "w = takeWhile is_ascii_alphanumeric (rest p)"
  define q where "q = (advance (length w) p)\<lparr>p_local := p_local p @ [local_segment_of w]\<rparr>"
  show ?case
  proof (cases "w = []")
    case True
    then show ?thesis by (subst parse_local_loop.simps) (simp add: w_def)
  next
    case False
    have "moves p (advance (length w) p)"
      using 1(2) by (rule moves_advance) (simp add: w_def length_takeWhile_le)
    then have "parser_ok (advance (length w) p)" using 1(2) by (rule moves_ok)
    moreover have "parsed_segment (local_segment_of w)"
      using False takeWhile_all local_segment_of_parsed unfolding w_def by blast
    ultimately have ok: "part_post p q" "parser_ok q" by (simp_all add: q_def part_post_def parser_ok_def)
    obtain r q2 where s: "bump_if_byte_set SEPARATOR q = (r, q2)" by force
    have m: "moves q q2" using bump_if_byte_set_moves [OF ok(2), of SEPARATOR] s by simp
    then have p2: "part_post p q2" "parser_ok q2"
      using ok moves_ok [OF m ok(2)] by (auto simp: part_post_def moves_fields)
    show ?thesis
    proof (cases r)
      case None
      then show ?thesis using False s p2
        by (subst parse_local_loop.simps) (simp add: w_def [symmetric] q_def [symmetric] Let_def)
    next
      case (Some b)
      have wb: "bump_while is_ascii_alphanumeric p = (w, advance (length w) p)" by (simp add: w_def)
      have qd: "q = (advance (length w) p)\<lparr>p_local := p_local (advance (length w) p) @ [local_segment_of w]\<rparr>"
        by (simp add: q_def)
      have "safe (part_post p) (parse_local_loop b q2)"
        using 1(1) [OF wb [symmetric] False qd s [symmetric] Some p2(2)] p2(1) by (rule safe_part_post)
      then show ?thesis using Some False s
        by (subst parse_local_loop.simps) (simp add: w_def [symmetric] q_def [symmetric] Let_def)
    qed
  qed
qed

interpretation local_part: parser_part parse_local
proof
  fix p assume ok: "parser_ok p"
  obtain b q where s: "bump_if ''+'' p = (b, q)" by force
  have m: "moves p q" using ok s by (rule bump_if_moves)
  then have "parser_ok q" "part_post p q" using ok moves_ok moves_part_post by blast+
  then have "safe (part_post p) (parse_local_loop CHR ''+'' q)"
    using parse_local_loop_safe safe_part_post by blast
  then show "safe (part_post p) (parse_local p)"
    using s \<open>part_post p q\<close> by (cases b) (simp_all add: parse_local_def)
qed

section \<open>The release\<close>

definition release_post :: "parser \<Rightarrow> parser \<Rightarrow> bool" where
  "release_post p q \<longleftrightarrow> parser_ok q \<and> p_pre q = p_pre p \<and> p_post q = p_post p \<and> p_dev q = p_dev p
     \<and> p_local q = p_local p \<and> p_wildcard q = p_wildcard p
     \<and> length (as_slice (p_release p)) \<le> length (as_slice (p_release q))"

lemma push_release_number_eq:
  assumes "parser_ok p" "n \<noteq> u64_max"
  shows "\<exists>r. push_release_number n p = Ok (p\<lparr>p_release := r\<rparr>) \<and> as_slice r = as_slice (p_release p) @ [n]
    \<and> parser_ok (p\<lparr>p_release := r\<rparr>)"
  using assms release_numbers_push_ok [of "p_release p" n]
  by (auto simp: push_release_number_def parser_ok_def)

lemma moves_release_post: "moves p q \<Longrightarrow> parser_ok p \<Longrightarrow> release_post p q"
  by (simp add: release_post_def moves_fields moves_ok)

lemma release_post_trans: "release_post p q \<Longrightarrow> release_post q r \<Longrightarrow> release_post p r"
  by (auto simp: release_post_def)

lemma push_release_number_safe:
  assumes "parser_ok p" "n \<noteq> u64_max"
  shows "safe (\<lambda>q. release_post p q \<and> as_slice (p_release q) \<noteq> []) (push_release_number n p)"
  using push_release_number_eq [OF assms] by (auto simp: release_post_def)

lemma safe_release_post:
  "safe (release_post q) m \<Longrightarrow> release_post p q \<Longrightarrow> safe (release_post p) m"
  "safe (\<lambda>r. release_post q r \<and> P r) m \<Longrightarrow> release_post p q \<Longrightarrow> safe (\<lambda>r. release_post p r \<and> P r) m"
  using release_post_trans by (cases m; auto)+

lemma push_release_number_from:
  "release_post p q \<Longrightarrow> n \<noteq> u64_max \<Longrightarrow>
   safe (\<lambda>r. release_post p r \<and> as_slice (p_release r) \<noteq> []) (push_release_number n q)"
  by (rule safe_release_post(2) [OF push_release_number_safe]) (auto simp: release_post_def)

lemma parse_rest_of_release_safe: "parser_ok p \<Longrightarrow> safe (release_post p) (parse_rest_of_release p)"
proof (induction p rule: parse_rest_of_release.induct)
  case (1 p)
  obtain b q where s: "bump_if ''.'' p = (b, q)" by force
  have m: "moves p q" using 1(2) s by (rule bump_if_moves)
  show ?case
  proof (cases b)
    case False
    then show ?thesis using s moves_release_post [OF m 1(2)] by (subst parse_rest_of_release.simps) simp
  next
    case True
    have ok: "parser_ok q" using m 1(2) by (rule moves_ok)
    have i: "0 < p_i q" using True s bump_if_True [of "''.''" p q] by simp
    show ?thesis
    proof (cases "parse_number q")
      case (Ok x)
      obtain n r where x: "x = (n, r)" by force
      with Ok parse_number_safe [OF ok] have n: "n \<noteq> Some u64_max" and mr: "moves q r" by simp_all
      have okr: "parser_ok r" using mr ok by (rule moves_ok)
      show ?thesis
      proof (cases n)
        case None
        have "0 < p_i r" using i mr by (simp add: moves_def)
        then have "safe (release_post p) (unbump r)"
          using moves_release_post [OF moves_trans [OF m mr] 1(2)]
          by (auto simp: unbump_def release_post_def parser_ok_def)
        then show ?thesis using True s Ok x None by (subst parse_rest_of_release.simps) simp
      next
        case (Some k)
        then obtain t where t: "push_release_number k r = Ok t" "release_post r t"
          using push_release_number_eq [OF okr, of k] n by (auto simp: release_post_def)
        have "parser_ok t" using t by (simp add: release_post_def)
        then have "safe (release_post t) (parse_rest_of_release t)"
          using 1(1) [OF s [symmetric] _ Ok x [symmetric] Some t(1)] True by simp
        moreover have "release_post p t"
          using moves_release_post [OF moves_trans [OF m mr] 1(2)] t(2) by (rule release_post_trans)
        ultimately have "safe (release_post p) (parse_rest_of_release t)"
          by (rule safe_release_post)
        then show ?thesis using True s Ok x Some t by (subst parse_rest_of_release.simps) simp
      qed
    next
      case (Err e)
      then show ?thesis using True s by (subst parse_rest_of_release.simps) simp
    next
      case Panic
      then show ?thesis using parse_number_safe [OF ok] by simp
    qed
  qed
qed

lemma parse_initial_safe:
  assumes ok: "parser_ok p"
  shows "safe (\<lambda>q. release_post p q \<and> as_slice (p_release q) \<noteq> []) (parse_epoch_and_initial_release p)"
  unfolding parse_epoch_and_initial_release_def
  using parse_number_safe [OF ok]
proof (rule safe_and_then)
  fix x assume x: "case x of (n, q) \<Rightarrow> n \<noteq> Some u64_max \<and> moves p q"
  obtain n q where xe: "x = (n, q)" by force
  with x have n: "n \<noteq> Some u64_max" and m: "moves p q" by simp_all
  have okq: "parser_ok q" using m ok by (rule moves_ok)
  show "safe (\<lambda>q. release_post p q \<and> as_slice (p_release q) \<noteq> []) (case x of (n, p) \<Rightarrow>
     (case n of None \<Rightarrow> Err (VersionError NoLeadingNumber)
      | Some n \<Rightarrow> (case bump_if ''!'' p of (bang, p) \<Rightarrow>
          if bang then let p = p\<lparr>p_epoch := n\<rparr> in and_then (parse_number p)
             (\<lambda>(n, p). case n of None \<Rightarrow> Err (VersionError NoLeadingReleaseNumber) | Some n \<Rightarrow> push_release_number n p)
          else push_release_number n p)))"
  proof (cases n)
    case (Some k)
    obtain b r where s: "bump_if ''!'' q = (b, r)" by force
    have mr: "moves q r" using okq s by (rule bump_if_moves)
    have okr: "parser_ok r" using mr okq by (rule moves_ok)
    have pr: "release_post p r" using moves_release_post [OF moves_trans [OF m mr] ok] .
    show ?thesis
    proof (cases b)
      case True
      let ?r = "r\<lparr>p_epoch := k\<rparr>"
      have ok1: "parser_ok ?r" using okr n Some by (simp add: parser_ok_def)
      have "safe (\<lambda>q. release_post p q \<and> as_slice (p_release q) \<noteq> []) (and_then (parse_number ?r)
             (\<lambda>(n, p). case n of None \<Rightarrow> Err (VersionError NoLeadingReleaseNumber) | Some n \<Rightarrow> push_release_number n p))"
        using parse_number_safe [OF ok1]
      proof (rule safe_and_then)
        fix y assume y: "case y of (n, q) \<Rightarrow> n \<noteq> Some u64_max \<and> moves ?r q"
        obtain j t where ye: "y = (j, t)" by force
        with y have j: "j \<noteq> Some u64_max" and mt: "moves ?r t" by simp_all
        have "release_post p ?r" using pr ok1 by (simp add: release_post_def)
        then have pt: "release_post p t" using moves_release_post [OF mt ok1] by (rule release_post_trans)
        have okt: "parser_ok t" using mt ok1 by (rule moves_ok)
        show "safe (\<lambda>q. release_post p q \<and> as_slice (p_release q) \<noteq> []) (case y of (n, p) \<Rightarrow>
          (case n of None \<Rightarrow> Err (VersionError NoLeadingReleaseNumber) | Some n \<Rightarrow> push_release_number n p))"
          using ye j pt by (cases j) (simp_all add: push_release_number_from)
      qed
      then show ?thesis using Some True s xe by (simp add: Let_def)
    next
      case False
      then show ?thesis using Some s xe n pr by (simp add: push_release_number_from)
    qed
  qed (simp add: xe)
qed

section \<open>The result\<close>

lemma into_pattern_eq:
  assumes "as_slice (p_release p) \<noteq> []"
  obtains v where "into_pattern p = Ok \<lparr>vp_version = v, vp_wildcard = p_wildcard p\<rparr>" "wf_version v"
    "make_full v = \<lparr>f_epoch = p_epoch p, f_release = as_slice (p_release p), f_pre = p_pre p, f_post = p_post p,
       f_dev = p_dev p, f_local = Segments (p_local p), f_min = None, f_max = None\<rparr>"
proof -
  obtain w where w: "version_new (as_slice (p_release p)) = Some w" "wf_version w"
    "make_full w = release_only (as_slice (p_release p))"
    using assms by (rule version_new_eq)
  show thesis
    by (rule that [of "with_local (Segments (p_local p)) (with_dev (p_dev p) (with_post (p_post p)
            (with_pre (p_pre p) (with_epoch (p_epoch p) w))))"])
      (use w assms in \<open>simp_all add: into_pattern_def version_inv version_refine release_only_def\<close>)
qed

definition parsed_version :: "version \<Rightarrow> bool" where
  "parsed_version v \<longleftrightarrow> pep440 v
     \<and> (case version_local v of Segments l \<Rightarrow> list_all parsed_segment l | LMax \<Rightarrow> False)"

definition parsed_pattern :: "version_pattern \<Rightarrow> bool" where
  "parsed_pattern vp \<longleftrightarrow> parsed_version (vp_version vp)
     \<and> (vp_wildcard vp \<longrightarrow> version_pre (vp_version vp) = None \<and> version_post (vp_version vp) = None
          \<and> version_dev (vp_version vp) = None \<and> version_local (vp_version vp) = Segments [])"

lemma into_pattern_safe:
  assumes "parser_ok p" "as_slice (p_release p) \<noteq> []"
    "p_wildcard p \<longrightarrow> p_pre p = None \<and> p_post p = None \<and> p_dev p = None \<and> p_local p = []"
  shows "safe parsed_pattern (into_pattern p)"
proof -
  obtain v where v: "into_pattern p = Ok \<lparr>vp_version = v, vp_wildcard = p_wildcard p\<rparr>" "wf_version v"
    "make_full v = \<lparr>f_epoch = p_epoch p, f_release = as_slice (p_release p), f_pre = p_pre p, f_post = p_post p,
       f_dev = p_dev p, f_local = Segments (p_local p), f_min = None, f_max = None\<rparr>"
    using assms(2) by (rule into_pattern_eq)
  have "parsed_version v"
    using assms v(2) by (simp add: parsed_version_def pep440_def accessors_make_full v(3) parser_ok_def)
  then show ?thesis using assms(3) v by (simp add: parsed_pattern_def accessors_make_full)
qed

lemma parse_suffixes_safe:
  assumes "parser_ok p" "as_slice (p_release p) \<noteq> []" "\<not> p_wildcard p"
  shows "safe parsed_pattern (parse_suffixes p)"
  unfolding parse_suffixes_def
proof (rule pre_part.safe_then [OF assms(1)])
  show "part_post p p" using assms(1) by (simp add: part_post_def)
  fix q1 assume p1: "part_post p q1"
  then have o1: "parser_ok q1" by (simp add: part_post_def)
  show "safe parsed_pattern (and_then (parse_post q1) (\<lambda>p. and_then (parse_dev p) (\<lambda>p. and_then (parse_local p)
     (\<lambda>p. let p = snd (bump_while is_ascii_whitespace p)
      in if \<not> is_done p then Err (VersionError (UnexpectedEnd (take (p_i p) (p_v p)) (drop (p_i p) (p_v p))))
         else into_pattern p))))"
  proof (rule post_part.safe_then [OF o1 p1])
    fix q2 assume p2: "part_post p q2"
    then have o2: "parser_ok q2" by (simp add: part_post_def)
    show "safe parsed_pattern (and_then (parse_dev q2) (\<lambda>p. and_then (parse_local p)
     (\<lambda>p. let p = snd (bump_while is_ascii_whitespace p)
      in if \<not> is_done p then Err (VersionError (UnexpectedEnd (take (p_i p) (p_v p)) (drop (p_i p) (p_v p))))
         else into_pattern p)))"
    proof (rule dev_part.safe_then [OF o2 p2])
      fix q3 assume p3: "part_post p q3"
      then have o3: "parser_ok q3" by (simp add: part_post_def)
      show "safe parsed_pattern (and_then (parse_local q3)
        (\<lambda>p. let p = snd (bump_while is_ascii_whitespace p)
         in if \<not> is_done p then Err (VersionError (UnexpectedEnd (take (p_i p) (p_v p)) (drop (p_i p) (p_v p))))
            else into_pattern p))"
      proof (rule local_part.safe_then [OF o3 p3])
        fix q4 assume p4: "part_post p q4"
        let ?q = "advance (length (takeWhile is_ascii_whitespace (rest q4))) q4"
        have o4: "parser_ok q4" using p4 by (simp add: part_post_def)
        have "moves q4 ?q" using o4 by (rule moves_advance) (simp add: length_takeWhile_le)
        then have "parser_ok ?q" using o4 by (rule moves_ok)
        then have "safe parsed_pattern (into_pattern ?q)"
          using p4 assms by (intro into_pattern_safe) (simp_all add: part_post_def)
        then show "safe parsed_pattern (let p = snd (bump_while is_ascii_whitespace q4)
           in if \<not> is_done p then Err (VersionError (UnexpectedEnd (take (p_i p) (p_v p)) (drop (p_i p) (p_v p))))
              else into_pattern p)"
          by (simp add: Let_def)
      qed
    qed
  qed
qed

lemma parse_slow_safe: "safe parsed_pattern (parse_slow (parser_new s))"
proof -
  let ?p = "parser_new s"
  have ok: "parser_ok ?p" by (rule parser_new_ok)
  define q where "q = snd (bump_while is_ascii_whitespace ?p)"
  have "moves ?p q" using ok unfolding q_def by (simp add: moves_advance length_takeWhile_le)
  then have okq: "parser_ok q" using ok by (rule moves_ok)
  define r where "r = snd (bump_if ''v'' q)"
  have mr: "moves q r" using bump_if_moves [OF okq] unfolding r_def by (metis prod.collapse)
  then have "moves ?p r" using \<open>moves ?p q\<close> moves_trans by blast
  then have okr: "parser_ok r" and bare: "p_pre r = None" "p_post r = None" "p_dev r = None" "p_local r = []"
    "\<not> p_wildcard r"
    using ok moves_ok moves_fields [of ?p r] by (auto simp: parser_new_def)
  have "safe parsed_pattern (and_then (parse_epoch_and_initial_release r) (\<lambda>p.
        and_then (parse_rest_of_release p) (\<lambda>p.
        and_then (parse_wildcard p) (\<lambda>(wildcard, p).
          if wildcard then into_pattern p else parse_suffixes p))))"
    using parse_initial_safe [OF okr]
  proof (rule safe_and_then)
    fix t assume t: "release_post r t \<and> as_slice (p_release t) \<noteq> []"
    then have "safe (release_post t) (parse_rest_of_release t)"
      by (auto intro: parse_rest_of_release_safe simp: release_post_def)
    then have "safe (\<lambda>u. release_post r u \<and> as_slice (p_release u) \<noteq> []) (parse_rest_of_release t)"
      using t release_post_trans by (cases "parse_rest_of_release t") (auto simp: release_post_def)
    then show "safe parsed_pattern (and_then (parse_rest_of_release t) (\<lambda>p.
        and_then (parse_wildcard p) (\<lambda>(wildcard, p). if wildcard then into_pattern p else parse_suffixes p)))"
    proof (rule safe_and_then)
      fix u assume u: "release_post r u \<and> as_slice (p_release u) \<noteq> []"
      then have oku: "parser_ok u" by (simp add: release_post_def)
      obtain b w where bw: "bump_if ''.*'' u = (b, w)" by force
      have mw: "moves u w" using oku bw by (rule bump_if_moves)
      have w: "parser_ok w" "as_slice (p_release w) \<noteq> []" "\<not> p_wildcard w"
        "p_pre w = None" "p_post w = None" "p_dev w = None" "p_local w = []"
        using moves_ok [OF mw oku] moves_fields [OF mw] u bare by (auto simp: release_post_def)
      moreover have "safe parsed_pattern (into_pattern (w\<lparr>p_wildcard := True\<rparr>))"
        using w by (intro into_pattern_safe) (simp_all add: parser_ok_def)
      ultimately show "safe parsed_pattern (and_then (parse_wildcard u)
         (\<lambda>(wildcard, p). if wildcard then into_pattern p else parse_suffixes p))"
        using bw parse_suffixes_safe [of w] by (auto simp: parse_wildcard_def)
    qed
  qed
  then show ?thesis by (simp add: parse_slow_def Let_def q_def r_def)
qed

section \<open>The fast path builds the version the setters build\<close>

lemma put_bits_self: "put_bits p n (bits_at p n w) w = w"
proof (rule bit_word_eqI)
  fix i assume i: "i < LENGTH(64)"
  show "bit (put_bits p n (bits_at p n w) w) i = bit w i"
    using i by (cases "p \<le> i") (auto simp: bit_put_bits bit_bits_at)
qed

lemma set_suffix_kind_self:
  assumes "small_inv s" "suffix_kind s = SUFFIX_NONE"
  shows "set_suffix_kind SUFFIX_NONE s = s"
proof -
  have v: "bits_at 20 4 (repr s) = 5" "bits_at 0 20 (repr s) = 0"
    using assms by (auto simp: small_inv_def suffix_kind_bits suffix_version_bits)
  then have "put_bits 20 4 5 (repr s) = repr s" using put_bits_self [of 20 4 "repr s"] by simp
  then show ?thesis using put_bits_self [of 0 20 "repr s"] v by (simp add: set_suffix_kind_bits)
qed

lemma release_only_kind:
  assumes "small_inv s" "small_full s = release_only ns"
  shows "suffix_kind s = SUFFIX_NONE"
  using assms(1)
  by (cases s rule: suffix_kind_cases) (use assms(2) in \<open>auto simp: small_getters release_only_def\<close>)

lemma default_setters:
  assumes "small_inv s" "small_full s = release_only ns"
  shows "with_local (Segments []) (with_dev None (with_post None (with_pre None (with_epoch 0 (Small s))))) = Small s"
  using set_suffix_kind_self [OF assms(1) release_only_kind [OF assms]] release_only_kind [OF assms]
  by (simp add: with_epoch_def with_pre_def with_post_def with_dev_def with_local_def with_local_segments_def
      without_local_def with_field_def set_epoch_def set_pre_def set_post_def set_dev_def set_local_def local_empty_def)

lemma ucast_u8_le: "ucast (x :: u8) \<le> (0xFF :: u64)" "ucast (x :: u8) \<le> (0xFFFF :: u64)"
proof -
  have "unat x < 2 ^ LENGTH(8)" by (rule unsigned_less)
  then have "unat x < 256" by simp
  then have "unat (ucast x :: u64) = unat x" by (simp add: unsigned_ucast_eq take_bit_nat_eq_self)
  then show "ucast x \<le> (0xFF :: u64)" "ucast x \<le> (0xFFFF :: u64)"
    using \<open>unat x < 256\<close> by (simp_all add: word_le_nat_alt)
qed

lemma clear_small_new: "clear_release (Small small_new) = Small small_new"
  by code_simp

lemma from_fast_release_pushes:
  fixes ns :: "u8 list"
  assumes "ns \<noteq> []" "length ns \<le> 4"
  shows "fold push_release (map ucast ns) (Small small_new)
    = vp_version (from_fast_release (ns @ replicate (4 - length ns) 0) (of_nat (length ns)))"
proof -
  have le: "\<not> ucast (x::u8) > (0xFF::u64)" "\<not> ucast (x::u8) > (0xFFFF::u64)" for x
    using ucast_u8_le [of x] by auto
  have four: "\<not> (4::u8) \<le> 1" "\<not> (4::u8) \<le> 2" "\<not> (4::u8) \<le> 3" by (simp_all add: word_le_nat_alt)
  from assms consider a where "ns = [a]" | a b where "ns = [a, b]" | a b c where "ns = [a, b, c]"
    | a b c d where "ns = [a, b, c, d]"
    by (cases ns; cases "tl ns"; cases "tl (tl ns)"; cases "tl (tl (tl ns))") auto
  then show ?thesis
    by cases (simp_all add: push_release_def with_field_def small_push_release_def small_new_def le four Let_def
        from_fast_release_def or.commute or.left_commute or.assoc)
qed

lemma from_fast_release_eq:
  fixes ns :: "u8 list"
  assumes "ns \<noteq> []" "length ns \<le> 4" "as_slice (p_release p) = map ucast ns"
    "p_epoch p = 0" "p_pre p = None" "p_post p = None" "p_dev p = None" "p_local p = []" "\<not> p_wildcard p"
  shows "into_pattern p = Ok (from_fast_release (ns @ replicate (4 - length ns) 0) (of_nat (length ns)))"
proof -
  let ?f = "from_fast_release (ns @ replicate (4 - length ns) 0) (of_nat (length ns))"
  obtain w where w: "version_new (map ucast ns) = Some w" "wf_version w" "make_full w = release_only (map ucast ns)"
    using assms(1) version_new_eq [of "map ucast ns"] by auto
  then have "w = vp_version ?f"
    using from_fast_release_pushes [OF assms(1,2)]
    by (simp add: version_new_def with_release_def clear_small_new Let_def split: if_splits)
  moreover obtain s where s: "vp_version ?f = Small s" "vp_wildcard ?f = False" by (simp add: from_fast_release_def)
  ultimately have "small_inv s" "small_full s = release_only (map ucast ns)"
    using w(2,3) by (simp_all add: wf_version_def make_full_def)
  from default_setters [OF this] show ?thesis
    using w(1) s \<open>w = vp_version ?f\<close> assms by (simp add: into_pattern_def)
qed

section \<open>Reading a release\<close>

definition digit_start :: "string \<Rightarrow> bool" where
  "digit_start s = (case s of [] \<Rightarrow> False | c # _ \<Rightarrow> is_ascii_digit c)"

text \<open>A number the parser accepts, and its value.\<close>

definition number_text :: "string \<Rightarrow> bool" where
  "number_text g \<longleftrightarrow> g \<noteq> [] \<and> list_all is_ascii_digit g \<and> digits_from 0 g < 2 ^ 64 - 1"

definition number_of :: "string \<Rightarrow> u64" where
  "number_of g = of_nat (digits_from 0 g)"

definition dotted_tail :: "string list \<Rightarrow> string" where
  "dotted_tail gs = concat (map (\<lambda>g. ''.'' @ g) gs)"

lemma dotted_tail_simps [simp]:
  "dotted_tail [] = []" "dotted_tail (g # gs) = CHR ''.'' # g @ dotted_tail gs"
  by (simp_all add: dotted_tail_def)

lemma number_text_facts:
  assumes "number_text g"
  shows "g \<noteq> []" "\<forall>c \<in> set g. is_ascii_digit c" "digits_from 0 g < 18446744073709551615" "number_of g \<noteq> u64_max"
proof -
  show "g \<noteq> []" "\<forall>c \<in> set g. is_ascii_digit c" "digits_from 0 g < 18446744073709551615"
    using assms by (simp_all add: number_text_def list_all_iff)
  then show "number_of g \<noteq> u64_max"
    by (simp add: number_of_def word_unat_eq_iff unat_u64_max unsigned_of_nat take_bit_nat_eq_self)
qed

lemma takeWhile_number:
  assumes "list_all is_ascii_digit g" "\<not> digit_start t"
  shows "takeWhile is_ascii_digit (g @ t) = g"
  using assms by (cases t) (auto simp: digit_start_def list_all_iff takeWhile_append)

lemma parse_number_text:
  assumes "number_text g" "\<not> digit_start t" "rest p = g @ t"
  shows "parse_number p = Ok (Some (number_of g), advance (length g) p)"
  using assms takeWhile_number [of g t] unfolding parse_number_eq
  by (simp add: number_text_def number_of_def)

lemma parse_number_none: "\<not> digit_start (rest p) \<Longrightarrow> parse_number p = Ok (None, p)"
  by (cases "rest p") (simp_all add: parse_number_eq digit_start_def)

lemma digit_bytes [simp]: "\<not> is_ascii_digit CHR ''.''" "\<not> is_ascii_digit CHR ''!''" "\<not> is_ascii_digit CHR ''+''"
  "\<not> is_ascii_digit CHR ''a''" "\<not> is_ascii_digit CHR ''b''" "\<not> is_ascii_digit CHR ''r''"
  by (simp_all add: is_ascii_digit_def byte_of_def)

lemma nonletters [simp]:
  "eq_ignore_ascii_case CHR ''.'' d \<longleftrightarrow> d = CHR ''.''" "eq_ignore_ascii_case CHR ''!'' d \<longleftrightarrow> d = CHR ''!''"
  "eq_ignore_ascii_case CHR ''*'' d \<longleftrightarrow> d = CHR ''*''" "eq_ignore_ascii_case CHR ''-'' d \<longleftrightarrow> d = CHR ''-''"
  "eq_ignore_ascii_case CHR ''+'' d \<longleftrightarrow> d = CHR ''+''"
  by (auto simp: eq_ignore_nonletter is_ascii_uppercase_def is_ascii_lowercase_def byte_of_def)

lemma bump_if_single:
  "bump_if [c] p = (case rest p of [] \<Rightarrow> (False, p)
     | d # _ \<Rightarrow> if eq_ignore_ascii_case c d then (True, advance 1 p) else (False, p))"
  by (auto simp: bump_if_eq starts_with_Cons split: list.splits)

text \<open>Where the release ends: no digit follows, also not after a dot.\<close>

definition release_end :: "string \<Rightarrow> bool" where
  "release_end t \<longleftrightarrow> \<not> digit_start t \<and> (case t of [] \<Rightarrow> True | c # cs \<Rightarrow> c = CHR ''.'' \<longrightarrow> \<not> digit_start cs)"

lemma digit_start_dotted_tail: "release_end t \<Longrightarrow> \<not> digit_start (dotted_tail gs @ t)"
  by (cases gs) (auto simp: release_end_def digit_start_def)

lemma parse_rest_of_release_text:
  assumes "list_all number_text gs" "release_end t" "rest p = dotted_tail gs @ t" "release_ok (p_release p)"
  shows "\<exists>r. parse_rest_of_release p = Ok ((advance (length (dotted_tail gs)) p)\<lparr>p_release := r\<rparr>)
    \<and> release_ok r \<and> as_slice r = as_slice (p_release p) @ map number_of gs"
  using assms
proof (induction gs arbitrary: p)
  case Nil
  show ?case
  proof (cases "\<exists>cs. t = CHR ''.'' # cs")
    case True
    then obtain cs where t: "rest p = CHR ''.'' # cs" "\<not> digit_start cs" using Nil by (auto simp: release_end_def)
    then have "parse_number (advance 1 p) = Ok (None, advance 1 p)" by (simp add: parse_number_none)
    then show ?thesis using t Nil
      by (subst parse_rest_of_release.simps) (auto simp: bump_if_single unbump_def intro!: exI [of _ "p_release p"])
  next
    case False
    then have "bump_if ''.'' p = (False, p)" using Nil by (cases t) (auto simp: bump_if_single)
    then show ?thesis using Nil
      by (subst parse_rest_of_release.simps) (auto intro!: exI [of _ "p_release p"])
  qed
next
  case (Cons g gs)
  have g: "number_text g" "list_all number_text gs" using Cons.prems by auto
  let ?p1 = "advance 1 p" and ?p2 = "advance (1 + length g) p"
  have b: "bump_if ''.'' p = (True, ?p1)" using Cons.prems by (simp add: bump_if_single)
  have n: "parse_number ?p1 = Ok (Some (number_of g), ?p2)"
    using parse_number_text [OF g(1) digit_start_dotted_tail [OF Cons.prems(2)], of ?p1 gs] Cons.prems(3)
    by (simp add: add.assoc)
  obtain r where r: "release_numbers_push (number_of g) (p_release p) = Some r" "release_ok r"
    "as_slice r = as_slice (p_release p) @ [number_of g]"
    using release_numbers_push_ok [OF Cons.prems(4)] by blast
  let ?p3 = "?p2\<lparr>p_release := r\<rparr>"
  have "rest ?p3 = dotted_tail gs @ t" using Cons.prems(3) by simp
  then obtain r' where "parse_rest_of_release ?p3 = Ok ((advance (length (dotted_tail gs)) ?p3)\<lparr>p_release := r'\<rparr>)"
    "release_ok r'" "as_slice r' = as_slice r @ map number_of gs"
    using Cons.IH [OF g(2) Cons.prems(2), of ?p3] r by auto
  then show ?case using b n r
    by (subst parse_rest_of_release.simps) (auto simp: push_release_number_def add.assoc)
qed

definition epoch_text :: "string option \<Rightarrow> string" where
  "epoch_text e = (case e of None \<Rightarrow> [] | Some e \<Rightarrow> e @ ''!'')"

lemma parse_initial_text:
  assumes "number_text g" "\<forall>e. eo = Some e \<longrightarrow> number_text e" "rest p = epoch_text eo @ g @ t"
    "\<not> digit_start t" "\<forall>cs. t \<noteq> CHR ''!'' # cs" "release_ok (p_release p)" "p_epoch p = 0"
  shows "\<exists>r. parse_epoch_and_initial_release p =
      Ok ((advance (length (epoch_text eo @ g)) p)\<lparr>p_epoch := (case eo of None \<Rightarrow> 0 | Some e \<Rightarrow> number_of e), p_release := r\<rparr>)
    \<and> release_ok r \<and> as_slice r = as_slice (p_release p) @ [number_of g]"
proof -
  obtain r where r: "release_numbers_push (number_of g) (p_release p) = Some r" "release_ok r"
    "as_slice r = as_slice (p_release p) @ [number_of g]"
    using release_numbers_push_ok [OF assms(6)] by blast
  show ?thesis
  proof (cases eo)
    case None
    have n: "parse_number p = Ok (Some (number_of g), advance (length g) p)"
      using assms None by (intro parse_number_text) (auto simp: epoch_text_def)
    have "bump_if ''!'' (advance (length g) p) = (False, advance (length g) p)"
      using assms(3,5) None by (cases t) (auto simp: bump_if_single epoch_text_def)
    moreover have "p\<lparr>p_epoch := 0\<rparr> = p" using assms(7) by (cases p) simp
    ultimately show ?thesis using n r None assms(7)
      by (auto simp: parse_epoch_and_initial_release_def push_release_number_def epoch_text_def intro!: exI [of _ r])
  next
    case (Some e)
    have ds: "\<not> digit_start (CHR ''!'' # u)" for u by (simp add: digit_start_def)
    have n: "parse_number p = Ok (Some (number_of e), advance (length e) p)"
      using assms Some by (intro parse_number_text [where t = "CHR ''!'' # g @ t"]) (auto simp: epoch_text_def digit_start_def)
    let ?q = "advance (length e) p"
    have b: "bump_if ''!'' ?q = (True, advance 1 ?q)"
      using assms(3) Some by (simp add: bump_if_single epoch_text_def)
    let ?q1 = "(advance 1 ?q)\<lparr>p_epoch := number_of e\<rparr>"
    have n2: "parse_number ?q1 = Ok (Some (number_of g), advance (length g) ?q1)"
      using assms Some by (intro parse_number_text [where t = t]) (auto simp: epoch_text_def)
    show ?thesis using n b n2 r Some
      by (auto simp: parse_epoch_and_initial_release_def push_release_number_def epoch_text_def Let_def add.assoc
          intro!: exI [of _ r])
  qed
qed

section \<open>The fast path agrees with the general parser\<close>

definition small_text :: "string \<Rightarrow> bool" where
  "small_text g \<longleftrightarrow> g \<noteq> [] \<and> list_all is_ascii_digit g \<and> digits_from 0 g < 256"

lemma byte_u8_unat: "unat (byte_u8 c) = byte_of c"
proof -
  have "byte_of c < 256" unfolding byte_of_def by simp
  then show ?thesis by (simp add: byte_u8_def unsigned_of_nat take_bit_nat_eq_self)
qed

lemma fast_digit:
  assumes "checked_sub_u8 (byte_u8 c) 48 = Some d" "\<not> d > 9"
  shows "is_ascii_digit c \<and> unat d = digit c"
proof -
  have "48 \<le> byte_of c" "d = byte_u8 c - 48"
    using assms(1) by (auto simp: checked_sub_u8_def word_le_nat_alt byte_u8_unat split: if_splits)
  moreover from this have "unat d = digit c"
    by (simp add: digit_def unat_sub word_le_nat_alt byte_u8_unat)
  ultimately show ?thesis using assms(2) by (simp add: is_ascii_digit_def digit_def word_less_nat_alt)
qed

lemma fast_step:
  assumes "checked_mul_u8 cur 10 = Some m" "checked_add_u8 m d = Some cur'"
  shows "unat cur' = unat cur * 10 + unat d \<and> unat cur * 10 + unat d < 256"
proof -
  have m: "unat cur * 10 < 256" "m = cur * 10" using assms(1) by (auto simp: checked_mul_u8_def split: if_splits)
  then have um: "unat m = unat cur * 10" by (simp add: unat_word_ariths)
  have a: "unat m + unat d < 256" "cur' = m + d" using assms(2) by (auto simp: checked_add_u8_def split: if_splits)
  then have "unat cur' = unat m + unat d" by (simp add: unat_word_ariths)
  with um a show ?thesis by simp
qed

lemma parse_fast_loop_text:
  assumes "parse_fast_loop prev cur rel len s = Some vp" "length rel = 4"
  shows "\<exists>ds gs. s = ds @ dotted_tail gs \<and> list_all is_ascii_digit ds \<and> (prev \<or> ds \<noteq> []) \<and> digits_from (unat cur) ds < 256
    \<and> list_all small_text gs \<and> unat len + length gs < 4
    \<and> vp = from_fast_release (take (unat len) rel @ of_nat (digits_from (unat cur) ds) # map (\<lambda>g. of_nat (digits_from 0 g)) gs
              @ drop (unat len + 1 + length gs) rel) (len + of_nat (1 + length gs))"
  using assms
proof (induction prev cur rel len s rule: parse_fast_loop.induct)
  case (1 prev cur rel len)
  then have "unat len < 4" "prev" "vp = from_fast_release (rel[unat len := cur]) (len + 1)" by (auto split: if_splits)
  moreover have "unat cur < 256" using unsigned_less [of cur] by simp
  ultimately show ?case using 1(2)
    by (intro exI [of _ "[]"]) (simp add: upd_conv_take_nth_drop)
next
  case (2 prev cur rel len b bs)
  show ?case
  proof (cases "b = CHR ''.''")
    case True
    then have c: "prev" "unat len < 4" "parse_fast_loop False 0 (rel[unat len := cur]) (len + 1) bs = Some vp"
      using 2 by (auto split: if_splits)
    have l1: "unat (len + 1) = unat len + 1" using c(2) by (simp add: unat_word_ariths)
    from c 2(1) [OF True] 2(4) obtain ds gs where ih: "bs = ds @ dotted_tail gs" "list_all is_ascii_digit ds" "ds \<noteq> []"
      "digits_from 0 ds < 256" "list_all small_text gs" "unat len + 1 + length gs < 4"
      "vp = from_fast_release (take (unat len + 1) (rel[unat len := cur]) @ of_nat (digits_from 0 ds)
         # map (\<lambda>g. of_nat (digits_from 0 g)) gs @ drop (unat len + 1 + 1 + length gs) (rel[unat len := cur]))
         (len + 1 + of_nat (1 + length gs))"
      by (auto simp: l1)
    have "take (unat len + 1) (rel[unat len := cur]) = take (unat len) rel @ [cur]"
      using c(2) 2(4) by (simp add: take_Suc_conv_app_nth)
    moreover have "unat cur < 256" using unsigned_less [of cur] by simp
    moreover have "drop (Suc (Suc (unat len + length gs))) (rel[unat len := cur]) = drop (Suc (Suc (unat len + length gs))) rel"
      by simp
    ultimately show ?thesis using ih True c(1)
      by (intro exI [of _ "[] :: string"] exI [of _ "ds # gs"]) (simp add: small_text_def [of ds] add.assoc)
  next
    case False
    then obtain d m cur' where c: "checked_sub_u8 (byte_u8 b) 48 = Some d" "\<not> d > 9" "checked_mul_u8 cur 10 = Some m"
      "checked_add_u8 m d = Some cur'" "parse_fast_loop True cur' rel len bs = Some vp"
      using 2(3) by (auto split: option.splits if_splits)
    note d = fast_digit [OF c(1,2)] and st = fast_step [OF c(3,4)]
    from 2(2) [OF False c(1) _ c(3,4)] c(2,5) 2(4) obtain ds gs where ih: "bs = ds @ dotted_tail gs" "list_all is_ascii_digit ds"
      "digits_from (unat cur') ds < 256" "list_all small_text gs" "unat len + length gs < 4"
      "vp = from_fast_release (take (unat len) rel @ of_nat (digits_from (unat cur') ds) # map (\<lambda>g. of_nat (digits_from 0 g)) gs
              @ drop (unat len + 1 + length gs) rel) (len + of_nat (1 + length gs))"
      by auto
    then show ?thesis using d st by (intro exI [of _ "b # ds"] exI [of _ gs]) simp
  qed
qed

lemma parse_fast_text:
  assumes "parse_fast p = Some vp"
  shows "\<exists>g gs. p_v p = g @ dotted_tail gs \<and> list_all small_text (g # gs) \<and> length gs < 4
    \<and> vp = from_fast_release (map (\<lambda>g. of_nat (digits_from 0 g)) (g # gs) @ replicate (4 - length (g # gs)) 0)
             (of_nat (length (g # gs)))"
proof (cases "parse_fast_triple (p_v p)")
  case None
  with assms have "parse_fast_loop False 0 [0, 0, 0, 0] 0 (p_v p) = Some vp" by (simp add: parse_fast_def)
  from parse_fast_loop_text [OF this] obtain ds gs where "p_v p = ds @ dotted_tail gs" "list_all is_ascii_digit ds" "ds \<noteq> []"
    "digits_from 0 ds < 256" "list_all small_text gs" "length gs < 4"
    "vp = from_fast_release (of_nat (digits_from 0 ds) # map (\<lambda>g. of_nat (digits_from 0 g)) gs
              @ drop (1 + length gs) [0, 0, 0, 0]) (of_nat (1 + length gs))"
    by auto
  moreover have "drop k [0, 0, 0, 0 :: u8] = replicate (4 - k) 0" for k
  proof -
    have "[0, 0, 0, 0 :: u8] = replicate 4 0" by (simp add: numeral_eq_Suc)
    then show ?thesis by simp
  qed
  ultimately show ?thesis by (intro exI [of _ ds] exI [of _ gs]) (simp add: small_text_def)
next
  case (Some v)
  then obtain a b c where t: "p_v p = [a, CHR ''.'', b, CHR ''.'', c]" "byte_u8 a - 48 \<le> 9" "byte_u8 b - 48 \<le> 9"
    "byte_u8 c - 48 \<le> 9" "v = from_fast_release [byte_u8 a - 48, byte_u8 b - 48, byte_u8 c - 48, 0] 3"
    unfolding parse_fast_triple_def by (auto split: list.splits if_splits)
  have dg: "small_text [x]" "of_nat (digits_from 0 [x]) = byte_u8 x - 48" if "byte_u8 x - 48 \<le> 9" for x
  proof -
    have u: "unat (byte_u8 x - 48) \<le> 9" using that by (simp add: word_le_nat_alt)
    have "byte_of x < 256" unfolding byte_of_def by simp
    then have "48 \<le> byte_of x"
      using u by (auto simp: unat_sub_if' byte_u8_unat split: if_splits)
    then have "unat (byte_u8 x - 48) = digit x"
      by (simp add: digit_def unat_sub word_le_nat_alt byte_u8_unat)
    then show "of_nat (digits_from 0 [x]) = byte_u8 x - 48" by (simp flip: \<open>unat (byte_u8 x - 48) = digit x\<close>)
    show "small_text [x]" using \<open>48 \<le> byte_of x\<close> u \<open>unat (byte_u8 x - 48) = digit x\<close>
      by (simp add: small_text_def is_ascii_digit_def digit_def)
  qed
  show ?thesis using t(1) dg(1) [OF t(2)] dg(1) [OF t(3)] dg(1) [OF t(4)]
      dg(2) [OF t(2)] dg(2) [OF t(3)] dg(2) [OF t(4)] assms Some t(5)
    by (intro exI [of _ "[a]"] exI [of _ "[[b], [c]]"]) (simp add: parse_fast_def)
qed


text \<open>At the end of the input the optional parts do nothing.\<close>

lemma parts_at_end:
  assumes "rest p = []" "p_i p \<le> length (p_v p)"
  shows "parse_pre p = Ok p" "parse_post p = Ok p" "parse_dev p = Ok p" "parse_local p = Ok p"
proof -
  have b: "bump_if_byte_set SEPARATOR p = (None, p)"
    using assms(1) by (simp add: bump_if_byte_set_def byte_set_starts_with_def)
  have s: "bump_if_string_set ss p = (None, p)" for ss
    using assms(1) by (simp add: bump_if_string_set_def string_set_starts_with_def byte_set_starts_with_def)
  have i: "bump_if w p = (False, p)" for w using assms(1) by (simp add: bump_if_def is_done_rest)
  have r: "reset (p_i p) p = Ok p" using assms(2) by (simp add: reset_def)
  show "parse_pre p = Ok p" "parse_post p = Ok p" "parse_dev p = Ok p" "parse_local p = Ok p"
    by (simp_all add: parse_pre_def parse_post_def parse_post_spelled_def parse_dev_def parse_local_def b s i r Let_def)
qed

lemma small_text_number: "small_text g \<Longrightarrow> number_text g \<and> number_of g = ucast (of_nat (digits_from 0 g) :: u8)"
  by (auto simp: small_text_def number_text_def number_of_def word_unat_eq_iff unsigned_of_nat unsigned_ucast_eq
      take_bit_nat_eq_self)

lemma parse_fast_slow:
  assumes "parse_fast (parser_new s) = Some vp"
  shows "parse_slow (parser_new s) = Ok vp"
proof -
  let ?p = "parser_new s"
  from parse_fast_text [OF assms] obtain g gs where t: "s = g @ dotted_tail gs" "list_all small_text (g # gs)" "length gs < 4"
    "vp = from_fast_release (map (\<lambda>g. of_nat (digits_from 0 g)) (g # gs) @ replicate (4 - length (g # gs)) 0)
             (of_nat (length (g # gs)))"
    by (auto simp: parser_new_def)
  have nt: "number_text g" "list_all number_text gs" using t(2) small_text_number by (auto simp: list_all_iff)
  then obtain c cs where g: "g = c # cs" "is_ascii_digit c" by (cases g) (auto simp: number_text_def)
  have r: "rest ?p = g @ dotted_tail gs" using t(1) by (simp add: rest_def parser_new_def)
  have ws: "takeWhile is_ascii_whitespace (rest ?p) = []"
    using r g by (auto simp: is_ascii_whitespace_def is_ascii_digit_def)
  have "\<not> eq_ignore_ascii_case CHR ''v'' c"
  proof
    assume "eq_ignore_ascii_case CHR ''v'' c"
    then have "to_ascii_lowercase c = CHR ''v''"
      by (simp add: eq_ignore_ascii_case_def to_ascii_lowercase_def is_ascii_uppercase_def byte_of_def)
    moreover have "to_ascii_lowercase c = c" using g(2) by (simp add: to_ascii_lowercase_def is_ascii_digit_def is_ascii_uppercase_def)
    ultimately show False using g(2) by (simp add: is_ascii_digit_def byte_of_def)
  qed
  then have v: "bump_if ''v'' ?p = (False, ?p)" using r g by (simp add: bump_if_single)
  have re: "release_end (dotted_tail [])" by (simp add: release_end_def digit_start_def)
  have ok: "release_ok (p_release ?p)" "as_slice (p_release ?p) = []" "p_epoch ?p = 0"
    by (simp_all add: parser_new_def release_numbers_new_def release_ok_def)
  obtain r1 where i: "parse_epoch_and_initial_release ?p = Ok ((advance (length g) ?p)\<lparr>p_epoch := 0, p_release := r1\<rparr>)"
    "release_ok r1" "as_slice r1 = [number_of g]"
    using parse_initial_text [of g None ?p "dotted_tail gs"] nt r ok
    by (cases gs) (auto simp: epoch_text_def digit_start_def)
  let ?q = "(advance (length g) ?p)\<lparr>p_epoch := 0, p_release := r1\<rparr>"
  obtain r2 where q: "parse_rest_of_release ?q = Ok ((advance (length (dotted_tail gs)) ?q)\<lparr>p_release := r2\<rparr>)"
    "release_ok r2" "as_slice r2 = number_of g # map number_of gs"
    using parse_rest_of_release_text [of gs "[]" ?q] nt(2) r i(2,3) by (auto simp: release_end_def digit_start_def)
  define w where "w = (advance (length (dotted_tail gs)) ?q)\<lparr>p_release := r2\<rparr>"
  have rw: "rest w = []" using t(1) by (simp add: w_def rest_def parser_new_def)
  then have d: "is_done w" by (simp add: is_done_rest)
  have pw: "parse_wildcard w = Ok (False, w)" using d by (simp add: parse_wildcard_def bump_if_def)
  have ps: "parse_pre w = Ok w" "parse_post w = Ok w" "parse_dev w = Ok w" "parse_local w = Ok w"
    using rw t(1) parts_at_end [of w] by (simp_all add: w_def parser_new_def)
  have sn: "number_of h = ucast (of_nat (digits_from 0 h) :: u8)" if "h \<in> set (g # gs)" for h
    using t(2) small_text_number that by (auto simp: list_all_iff)
  have ip: "into_pattern w = Ok vp"
    unfolding t(4)
    using from_fast_release_eq [of "map (\<lambda>g. of_nat (digits_from 0 g)) (g # gs)" w] t(3) q(3) sn
    by (auto simp: w_def parser_new_def)
  have "parse_suffixes w = Ok vp" using ps d rw ip by (simp add: parse_suffixes_def Let_def)
  then show ?thesis using ws v i(1) q(1) pw unfolding parse_slow_def w_def by (simp add: Let_def)
qed

end
