(* ===== verification/Version_Roundtrip.thy ===== *)
theory Version_Roundtrip
  imports Version_Parser_Facts
begin

text \<open>
  The parser run over printed text: string sets, suffixes and local versions, the round trip
  between \<open>Display\<close> and \<open>FromStr\<close> of \<open>Version\<close>, and the properties of the parser as a whole.
\<close>

section \<open>String sets\<close>

text \<open>The first-byte filter of a string set does not change its answer.\<close>

fun first_prefix :: "string list \<Rightarrow> nat \<Rightarrow> string \<Rightarrow> nat option" where
  "first_prefix [] i h = None"
| "first_prefix (s # ss) i h = (if starts_with_ignore_ascii_case s h then Some i else first_prefix ss (Suc i) h)"

lemma eq_ignore_in_set:
  assumes "eq_ignore_ascii_case b c"
  shows "c = to_ascii_uppercase b \<or> c = to_ascii_lowercase b"
proof (cases "is_ascii_uppercase c")
  case True
  then have "byte_of (to_ascii_lowercase c) = byte_of c + 32"
    by (simp add: to_ascii_lowercase_def is_ascii_uppercase_def)
  then have l: "byte_of (to_ascii_lowercase b) = byte_of c + 32" using assms by (simp add: eq_ignore_ascii_case_def)
  show ?thesis
  proof (cases "is_ascii_uppercase b")
    case True
    then have "byte_of b = byte_of c" using l by (simp add: to_ascii_lowercase_def is_ascii_uppercase_def)
    then show ?thesis using True by (auto simp: to_ascii_uppercase_def is_ascii_uppercase_def is_ascii_lowercase_def)
  next
    case False
    then have "byte_of b = byte_of c + 32" using l by (simp add: to_ascii_lowercase_def)
    then have "byte_of (to_ascii_uppercase b) = byte_of c" using \<open>is_ascii_uppercase c\<close>
      by (simp add: to_ascii_uppercase_def is_ascii_lowercase_def is_ascii_uppercase_def)
    then show ?thesis by simp
  qed
next
  case False
  then show ?thesis using assms by (simp add: eq_ignore_ascii_case_def to_ascii_lowercase_def [of c])
qed

lemma string_set_find_first_prefix:
  "string_set_find c (c # h) i ss = first_prefix ss i (c # h)" if "list_all (\<lambda>s. s \<noteq> []) ss"
  using that by (induction ss arbitrary: i) (auto simp: starts_with_Cons neq_Nil_conv)

lemma first_prefix_None:
  "(\<forall>s \<in> set ss. \<not> starts_with_ignore_ascii_case s h) \<longleftrightarrow> first_prefix ss i h = None"
  by (induction ss arbitrary: i) auto

lemma string_set_starts_with_eq:
  assumes "length ss \<le> 20" "list_all (\<lambda>s. s \<noteq> []) ss"
  shows "string_set_starts_with (the (string_set_new ss)) h = first_prefix ss 0 h"
proof (cases h)
  case Nil
  have "first_prefix ss 0 [] = None" using assms(2)
    by (subst first_prefix_None [symmetric]) (auto simp: list_all_iff starts_with_ignore_ascii_case_def)
  then show ?thesis using Nil by (simp add: string_set_starts_with_def byte_set_starts_with_def)
next
  case (Cons c cs)
  let ?set = "first_byte (the (string_set_new ss))"
  show ?thesis
  proof (cases "?set c")
    case True
    then show ?thesis using Cons assms string_set_find_first_prefix [OF assms(2)]
      by (simp add: string_set_starts_with_def byte_set_starts_with_def string_set_new_def)
  next
    case False
    have "\<not> starts_with_ignore_ascii_case s h" if "s \<in> set ss" for s
    proof
      assume a: "starts_with_ignore_ascii_case s h"
      have "s \<noteq> []" using that assms(2) unfolding list_all_iff by blast
      then obtain b bs where s: "s = b # bs" by (cases s) simp
      have eq: "eq_ignore_ascii_case b c" using a unfolding s Cons by (simp add: starts_with_Cons)
      have "b \<in> set (map hd ss)" using that s by force
      then have "byte_set_new (map hd ss @ replicate (20 - length ss) (char_of (0::nat))) c"
        using eq_ignore_in_set [OF eq] unfolding byte_set_new_def list_ex_iff by (intro bexI [of _ b]) auto
      then have "?set c" using assms by (simp add: string_set_new_def)
      with False show False by simp
    qed
    then have "first_prefix ss 0 h = None" using first_prefix_None by blast
    then show ?thesis using Cons False by (simp add: string_set_starts_with_def byte_set_starts_with_def)
  qed
qed

lemma spellings_sets:
  "string_set_starts_with (the (string_set_new PRE_SPELLINGS)) h = first_prefix PRE_SPELLINGS 0 h"
  "string_set_starts_with (the (string_set_new POST_SPELLINGS)) h = first_prefix POST_SPELLINGS 0 h"
  by (simp_all add: string_set_starts_with_eq PRE_SPELLINGS_def POST_SPELLINGS_def)

lemma strings_new: "strings (the (string_set_new PRE_SPELLINGS)) = PRE_SPELLINGS"
  "strings (the (string_set_new POST_SPELLINGS)) = POST_SPELLINGS"
  by (simp_all add: string_set_new_def PRE_SPELLINGS_def POST_SPELLINGS_def)

lemma bump_spellings:
  "bump_if_string_set (the (string_set_new PRE_SPELLINGS)) p =
    (case first_prefix PRE_SPELLINGS 0 (rest p) of None \<Rightarrow> (None, p)
     | Some j \<Rightarrow> (Some j, advance (length (PRE_SPELLINGS ! j)) p))"
  "bump_if_string_set (the (string_set_new POST_SPELLINGS)) p =
    (case first_prefix POST_SPELLINGS 0 (rest p) of None \<Rightarrow> (None, p)
     | Some j \<Rightarrow> (Some j, advance (length (POST_SPELLINGS ! j)) p))"
  by (simp_all add: bump_if_string_set_def spellings_sets strings_new split: option.split)

lemma SEPARATOR_iff: "SEPARATOR c \<longleftrightarrow> c = CHR ''.'' \<or> c = CHR ''_'' \<or> c = CHR ''-''"
  by (auto simp: SEPARATOR_def byte_set_new_def to_ascii_uppercase_def to_ascii_lowercase_def
      is_ascii_lowercase_def is_ascii_uppercase_def byte_of_def)

lemma bump_separator:
  "bump_if_byte_set SEPARATOR p = (case rest p of [] \<Rightarrow> (None, p)
     | c # _ \<Rightarrow> if c = CHR ''.'' \<or> c = CHR ''_'' \<or> c = CHR ''-'' then (Some c, advance 1 p) else (None, p))"
  by (auto simp: bump_if_byte_set_def byte_set_starts_with_def SEPARATOR_iff split: list.splits)

section \<open>Reading the suffixes\<close>

lemma eq_ignore_digit: "is_ascii_digit d \<Longrightarrow> eq_ignore_ascii_case c d \<longleftrightarrow> c = d"
proof -
  assume d: "is_ascii_digit d"
  then have l: "to_ascii_lowercase d = d" by (simp add: to_ascii_lowercase_def is_ascii_digit_def is_ascii_uppercase_def)
  have "byte_of (to_ascii_lowercase c) = byte_of c \<or> \<not> is_ascii_digit (to_ascii_lowercase c)"
    by (auto simp: to_ascii_lowercase_def is_ascii_digit_def is_ascii_uppercase_def)
  with d l show ?thesis by (auto simp: eq_ignore_ascii_case_def)
qed

lemma lower_letters [simp]:
  "eq_ignore_ascii_case CHR ''a'' CHR ''b'' = False" "eq_ignore_ascii_case CHR ''a'' CHR ''r'' = False"
  "eq_ignore_ascii_case CHR ''b'' CHR ''a'' = False" "eq_ignore_ascii_case CHR ''b'' CHR ''r'' = False"
  "eq_ignore_ascii_case CHR ''c'' CHR ''p'' = False" "eq_ignore_ascii_case CHR ''p'' CHR ''r'' = False"
  "eq_ignore_ascii_case CHR ''a'' CHR ''p'' = False" "eq_ignore_ascii_case CHR ''b'' CHR ''p'' = False"
  "eq_ignore_ascii_case CHR ''r'' CHR ''p'' = False" "eq_ignore_ascii_case CHR ''r'' CHR ''o'' = False"
  "eq_ignore_ascii_case CHR ''a'' CHR ''d'' = False" "eq_ignore_ascii_case CHR ''b'' CHR ''d'' = False"
  "eq_ignore_ascii_case CHR ''c'' CHR ''d'' = False" "eq_ignore_ascii_case CHR ''p'' CHR ''d'' = False"
  "eq_ignore_ascii_case CHR ''r'' CHR ''d'' = False" "eq_ignore_ascii_case CHR ''p'' CHR ''b'' = False"
  "eq_ignore_ascii_case CHR ''p'' CHR ''a'' = False" "eq_ignore_ascii_case CHR ''r'' CHR ''a'' = False"
  "eq_ignore_ascii_case CHR ''r'' CHR ''b'' = False" "eq_ignore_ascii_case CHR ''v'' CHR ''d'' = False"
  "eq_ignore_ascii_case CHR ''a'' CHR ''+'' = False" "eq_ignore_ascii_case CHR ''b'' CHR ''+'' = False"
  "eq_ignore_ascii_case CHR ''c'' CHR ''+'' = False" "eq_ignore_ascii_case CHR ''p'' CHR ''+'' = False"
  "eq_ignore_ascii_case CHR ''r'' CHR ''+'' = False" "eq_ignore_ascii_case CHR ''d'' CHR ''+'' = False"
  by code_simp+

lemma digit_neq [simp]:
  assumes "is_ascii_digit c"
  shows "c \<noteq> CHR ''.''" "c \<noteq> CHR ''_''" "c \<noteq> CHR ''-''" "CHR ''l'' \<noteq> c" "CHR ''e'' \<noteq> c" "CHR ''c'' \<noteq> c"
  using assms by (auto simp: is_ascii_digit_def byte_of_def)

lemma first_spellings [simp]:
  "is_ascii_digit c \<Longrightarrow> first_prefix PRE_SPELLINGS 0 (CHR ''a'' # c # t) = Some 5"
  "is_ascii_digit c \<Longrightarrow> first_prefix PRE_SPELLINGS 0 (CHR ''b'' # c # t) = Some 6"
  "first_prefix PRE_SPELLINGS 0 (CHR ''r'' # CHR ''c'' # t) = Some 4"
  "first_prefix PRE_SPELLINGS 0 (CHR ''p'' # CHR ''o'' # t) = None"
  "first_prefix PRE_SPELLINGS 0 (CHR ''d'' # t) = None"
  "first_prefix PRE_SPELLINGS 0 (CHR ''+'' # t) = None"
  "first_prefix POST_SPELLINGS 0 (CHR ''p'' # CHR ''o'' # CHR ''s'' # CHR ''t'' # t) = Some 0"
  "first_prefix POST_SPELLINGS 0 (CHR ''d'' # t) = None"
  "first_prefix POST_SPELLINGS 0 (CHR ''+'' # t) = None"
  by (simp_all add: PRE_SPELLINGS_def POST_SPELLINGS_def starts_with_Cons eq_ignore_digit)

lemma spellings_nth [simp]:
  "length (PRE_SPELLINGS ! 5) = 1" "length (PRE_SPELLINGS ! 6) = 1" "length (PRE_SPELLINGS ! 4) = 2"
  "length (POST_SPELLINGS ! 0) = 4" "PRE_MAP ! 5 = Alpha" "PRE_MAP ! 6 = Beta" "PRE_MAP ! 4 = Rc"
  by (simp_all add: PRE_SPELLINGS_def POST_SPELLINGS_def PRE_MAP_def)

lemma number_text_start: "number_text g \<Longrightarrow> \<exists>c cs. g = c # cs \<and> is_ascii_digit c"
  by (cases g) (auto simp: number_text_def)

text \<open>Separator and number after a spelling.\<close>

lemma separator_number_text:
  assumes "number_text g" "\<not> digit_start t" "rest p = g @ t"
  shows "parse_number (snd (bump_if_byte_set SEPARATOR p)) = Ok (Some (number_of g), advance (length g) p)"
proof -
  obtain c cs where "g = c # cs" "is_ascii_digit c" using number_text_start [OF assms(1)] by blast
  then have "bump_if_byte_set SEPARATOR p = (None, p)" using assms(3) by (simp add: bump_separator)
  then show ?thesis using parse_number_text [OF assms] by simp
qed

fun pre_text :: "(prerelease_kind \<times> string) option \<Rightarrow> string" where
  "pre_text None = []"
| "pre_text (Some (k, g)) = show_prerelease_kind k @ g"

lemma parse_pre_text:
  assumes "number_text g" "\<not> digit_start t" "rest p = show_prerelease_kind k @ g @ t"
  shows "parse_pre p = Ok ((advance (length (show_prerelease_kind k @ g)) p)\<lparr>p_pre := Some (Prerelease k (number_of g))\<rparr>)"
proof -
  obtain c cs where g: "g = c # cs" "is_ascii_digit c" using number_text_start [OF assms(1)] by blast
  have b: "bump_if_byte_set SEPARATOR p = (None, p)" using assms(3) by (cases k) (simp_all add: bump_separator)
  obtain j where s: "bump_if_string_set (the (string_set_new PRE_SPELLINGS)) p = (Some j, advance (length (show_prerelease_kind k)) p)"
    and j: "PRE_MAP ! j = k"
    using assms(3) g
    by (cases k) (simp_all add: bump_spellings)
  have n: "parse_number (snd (bump_if_byte_set SEPARATOR (advance (length (show_prerelease_kind k)) p)))
      = Ok (Some (number_of g), advance (length g) (advance (length (show_prerelease_kind k)) p))"
    using assms by (intro separator_number_text [where t = t]) simp_all
  show ?thesis using b s n j by (simp add: parse_pre_def Let_def add.assoc)
qed

lemma parse_post_text:
  assumes "number_text g" "\<not> digit_start t" "rest p = ''.post'' @ g @ t"
  shows "parse_post p = Ok ((advance (length (''.post'' @ g)) p)\<lparr>p_post := Some (number_of g)\<rparr>)"
proof -
  have m: "bump_if ''-'' p = (False, p)" using assms(3) by (simp add: bump_if_single)
  have b: "bump_if_byte_set SEPARATOR p = (Some CHR ''.'', advance 1 p)" using assms(3) by (simp add: bump_separator)
  have s: "bump_if_string_set (the (string_set_new POST_SPELLINGS)) (advance 1 p) = (Some 0, advance 5 p)"
    using assms(3) by (simp add: bump_spellings)
  have n: "parse_number (snd (bump_if_byte_set SEPARATOR (advance 5 p))) = Ok (Some (number_of g), advance (length g) (advance 5 p))"
    using assms by (intro separator_number_text [where t = t]) simp_all
  show ?thesis using m b s n by (simp add: parse_post_def parse_post_spelled_def Let_def add.assoc)
qed

lemma parse_dev_text:
  assumes "number_text g" "\<not> digit_start t" "rest p = ''.dev'' @ g @ t"
  shows "parse_dev p = Ok ((advance (length (''.dev'' @ g)) p)\<lparr>p_dev := Some (number_of g)\<rparr>)"
proof -
  have b: "bump_if_byte_set SEPARATOR p = (Some CHR ''.'', advance 1 p)" using assms(3) by (simp add: bump_separator)
  have s: "bump_if ''dev'' (advance 1 p) = (True, advance 4 p)" using assms(3) by (simp add: bump_if_eq starts_with_Cons)
  have n: "parse_number (snd (bump_if_byte_set SEPARATOR (advance 4 p))) = Ok (Some (number_of g), advance (length g) (advance 4 p))"
    using assms by (intro separator_number_text [where t = t]) simp_all
  show ?thesis using b s n by (simp add: parse_dev_def Let_def add.assoc)
qed

text \<open>A part that is absent is skipped: the cursor goes back to where the part would start.\<close>

definition after_separator :: "string \<Rightarrow> string" where
  "after_separator s = (case s of [] \<Rightarrow> [] | c # cs \<Rightarrow> if c = CHR ''.'' \<or> c = CHR ''_'' \<or> c = CHR ''-'' then cs else s)"

lemma bump_separator_advance:
  "\<exists>k. snd (bump_if_byte_set SEPARATOR p) = advance k p
     \<and> rest (snd (bump_if_byte_set SEPARATOR p)) = after_separator (rest p)"
proof (cases "\<exists>c cs. rest p = c # cs \<and> (c = CHR ''.'' \<or> c = CHR ''_'' \<or> c = CHR ''-'')")
  case True
  then show ?thesis by (intro exI [of _ 1]) (auto simp: bump_separator after_separator_def)
next
  case False
  then show ?thesis by (intro exI [of _ 0]) (auto simp: bump_separator after_separator_def split: list.split)
qed

lemma reset_advance: "p_i p \<le> length (p_v p) \<Longrightarrow> reset (p_i p) (advance k p) = Ok p"
  by (simp add: reset_def)

lemma skip_pre:
  assumes "p_i p \<le> length (p_v p)" "first_prefix PRE_SPELLINGS 0 (after_separator (rest p)) = None"
  shows "parse_pre p = Ok p"
  using bump_separator_advance [of p] assms
  by (auto simp: parse_pre_def bump_spellings reset_advance)

lemma skip_post:
  assumes "p_i p \<le> length (p_v p)" "first_prefix POST_SPELLINGS 0 (after_separator (rest p)) = None"
    "\<forall>cs. rest p \<noteq> CHR ''-'' # cs"
  shows "parse_post p = Ok p"
proof -
  have "bump_if ''-'' p = (False, p)" using assms(3) by (cases "rest p") (auto simp: bump_if_single)
  then show ?thesis using bump_separator_advance [of p] assms(1,2)
    by (auto simp: parse_post_def parse_post_spelled_def bump_spellings reset_advance)
qed

lemma skip_dev:
  assumes "p_i p \<le> length (p_v p)" "\<not> starts_with_ignore_ascii_case ''dev'' (after_separator (rest p))"
  shows "parse_dev p = Ok p"
  using bump_separator_advance [of p] assms
  by (auto simp: parse_dev_def bump_if_eq reset_advance)

section \<open>Reading a local version\<close>

lemma show_u64_number: "n \<noteq> u64_max \<Longrightarrow> number_text (show_u64 n) \<and> number_of (show_u64 n) = n"
proof -
  assume "n \<noteq> u64_max"
  then have "unat n \<noteq> 18446744073709551615" by (simp add: word_unat_eq_iff unat_u64_max)
  moreover have "unat n < 18446744073709551616" by simp
  ultimately have "unat n < 18446744073709551615" by linarith
  then show ?thesis using show_u64_facts [of n] by (simp add: number_text_def number_of_def list_all_iff)
qed

lemma lower_digit_same: "is_ascii_digit c \<or> is_ascii_lowercase c \<Longrightarrow> to_ascii_lowercase c = c"
  by (auto simp: to_ascii_lowercase_def is_ascii_digit_def is_ascii_lowercase_def is_ascii_uppercase_def)

lemma local_segment_of_show:
  assumes "parsed_segment l"
  shows "local_segment_of (show_local_segment l) = l" "show_local_segment l \<noteq> []"
    "list_all is_ascii_alphanumeric (show_local_segment l)"
proof -
  show "local_segment_of (show_local_segment l) = l"
  proof (cases l)
    case (LString s)
    then have "map to_ascii_lowercase s = s" using assms by (auto simp: list_all_iff lower_digit_same intro!: map_idI)
    then show ?thesis using LString assms by (auto simp: local_segment_of_def split: outcome.splits)
  qed (simp add: local_segment_of_def)
  show "show_local_segment l \<noteq> []" "list_all is_ascii_alphanumeric (show_local_segment l)"
    using assms show_u64_facts by (cases l; auto simp: list_all_iff is_ascii_alphanumeric_def)+
qed

lemma takeWhile_alnum:
  assumes "list_all is_ascii_alphanumeric w" "t = [] \<or> (\<exists>u. t = CHR ''.'' # u)"
  shows "takeWhile is_ascii_alphanumeric (w @ t) = w"
  using assms by (auto simp: list_all_iff takeWhile_append is_ascii_alphanumeric_def is_ascii_digit_def
      is_ascii_uppercase_def is_ascii_lowercase_def byte_of_def)

lemma parse_local_loop_text:
  assumes "list_all parsed_segment (l # ls)" "rest p = show_local_segment l @ dotted_tail (map show_local_segment ls)"
  shows "parse_local_loop c p = Ok ((advance (length (rest p)) p)\<lparr>p_local := p_local p @ l # ls\<rparr>)"
  using assms
proof (induction ls arbitrary: l p c)
  case Nil
  let ?w = "show_local_segment l"
  note l = local_segment_of_show [of l]
  have w: "takeWhile is_ascii_alphanumeric (rest p) = ?w" using Nil l takeWhile_alnum [of ?w "[]"] by simp
  then have wb: "bump_while is_ascii_alphanumeric p = (?w, advance (length ?w) p)" by simp
  have "bump_if_byte_set SEPARATOR ((advance (length ?w) p)\<lparr>p_local := p_local p @ [l]\<rparr>)
     = (None, (advance (length ?w) p)\<lparr>p_local := p_local p @ [l]\<rparr>)"
    using Nil by (simp add: bump_separator)
  then show ?case using Nil l wb
    by (subst parse_local_loop.simps) (simp add: Let_def del: bump_while_eq)
next
  case (Cons k ks)
  let ?w = "show_local_segment l" and ?t = "dotted_tail (map show_local_segment (k # ks))"
  note l = local_segment_of_show [of l]
  have w: "takeWhile is_ascii_alphanumeric (rest p) = ?w" using Cons.prems l takeWhile_alnum [of ?w ?t] by simp
  then have wb: "bump_while is_ascii_alphanumeric p = (?w, advance (length ?w) p)" by simp
  let ?p = "(advance (length ?w) p)\<lparr>p_local := p_local p @ [l]\<rparr>"
  have b: "bump_if_byte_set SEPARATOR ?p = (Some CHR ''.'', advance 1 ?p)"
    using Cons.prems by (simp add: bump_separator)
  have r: "rest (advance 1 ?p) = show_local_segment k @ dotted_tail (map show_local_segment ks)"
  proof -
    have "rest (advance 1 ?p) = drop (Suc (length ?w)) (rest p)" by (simp add: rest_def add.commute)
    then show ?thesis using Cons.prems by simp
  qed
  have "parse_local_loop CHR ''.'' (advance 1 ?p)
      = Ok ((advance (length (rest (advance 1 ?p))) (advance 1 ?p))\<lparr>p_local := p_local ?p @ k # ks\<rparr>)"
    using Cons.IH [OF _ r, of "CHR ''.''"] Cons.prems by simp
  then show ?case using Cons.prems l wb b r
    by (subst parse_local_loop.simps) (simp add: Let_def add.assoc del: bump_while_eq)
qed

lemma show_dotted_tail: "show_dotted f (x # xs) = f x @ dotted_tail (map f xs)"
  by (simp add: dotted_tail_def o_def)

lemma parse_local_text:
  assumes "list_all parsed_segment ls" "ls \<noteq> []" "rest p = ''+'' @ show_dotted show_local_segment ls" "p_local p = []"
  shows "parse_local p = Ok ((advance (length (rest p)) p)\<lparr>p_local := ls\<rparr>)"
proof -
  obtain k ks where ls: "ls = k # ks" using assms(2) by (cases ls) auto
  have b: "bump_if ''+'' p = (True, advance 1 p)" using assms(3) by (simp add: bump_if_single)
  have "rest (advance 1 p) = show_local_segment k @ dotted_tail (map show_local_segment ks)"
    using assms(3) ls by (simp add: show_dotted_tail del: show_dotted.simps)
  from parse_local_loop_text [OF _ this, of "CHR ''+''"] assms ls
  have "parse_local_loop CHR ''+'' (advance 1 p)
      = Ok ((advance (length (rest (advance 1 p))) (advance 1 p))\<lparr>p_local := ls\<rparr>)" by simp
  then show ?thesis using b assms(3) by (simp add: parse_local_def add.assoc)
qed


section \<open>Printing and parsing a version\<close>

text \<open>The printed suffixes, and the parser's run over them.\<close>

definition post_string :: "u64 option \<Rightarrow> string" where
  "post_string post = (case post of None \<Rightarrow> [] | Some n \<Rightarrow> ''.post'' @ show_u64 n)"

definition dev_string :: "u64 option \<Rightarrow> string" where
  "dev_string dev = (case dev of None \<Rightarrow> [] | Some n \<Rightarrow> ''.dev'' @ show_u64 n)"

definition pre_string :: "prerelease option \<Rightarrow> string" where
  "pre_string pre = (case pre of None \<Rightarrow> [] | Some p \<Rightarrow> show_prerelease p)"

definition local_string :: "local_segment list \<Rightarrow> string" where
  "local_string ls = (if ls = [] then [] else ''+'' @ show_dotted show_local_segment ls)"

lemmas suffix_strings = post_string_def dev_string_def pre_string_def local_string_def

lemma suffix_starts:
  "local_string ls = [] \<or> (\<exists>u. local_string ls = CHR ''+'' # u)"
  "dev_string d = [] \<or> (\<exists>u. dev_string d = CHR ''.'' # CHR ''d'' # u)"
  "post_string x = [] \<or> (\<exists>u. post_string x = CHR ''.'' # CHR ''p'' # CHR ''o'' # u)"
  "pre_string y = [] \<or> (\<exists>u. pre_string y = CHR ''a'' # u) \<or> (\<exists>u. pre_string y = CHR ''b'' # u) \<or> (\<exists>u. pre_string y = CHR ''r'' # u)"
proof -
  show "pre_string y = [] \<or> (\<exists>u. pre_string y = CHR ''a'' # u) \<or> (\<exists>u. pre_string y = CHR ''b'' # u) \<or> (\<exists>u. pre_string y = CHR ''r'' # u)"
  proof (cases y)
    case (Some p)
    obtain k n where "p = Prerelease k n" by (cases p)
    then show ?thesis using Some by (cases k) (simp_all add: pre_string_def)
  qed (simp add: pre_string_def)
qed (auto simp: suffix_strings split: option.split)

lemma suffixes_no_digit:
  "\<not> digit_start (local_string ls)" "\<not> digit_start (dev_string d @ local_string ls)"
  "\<not> digit_start (post_string x @ dev_string d @ local_string ls)"
  "release_end (pre_string y @ post_string x @ dev_string d @ local_string ls)"
  using suffix_starts(1) [of ls] suffix_starts(2) [of d] suffix_starts(3) [of x] suffix_starts(4) [of y]
  by (auto simp: digit_start_def release_end_def is_ascii_digit_def byte_of_def)

lemma suffixes_skip:
  "first_prefix PRE_SPELLINGS 0 (after_separator (post_string x @ dev_string d @ local_string ls)) = None"
  "first_prefix POST_SPELLINGS 0 (after_separator (dev_string d @ local_string ls)) = None"
  "\<not> starts_with_ignore_ascii_case ''dev'' (after_separator (local_string ls))"
  using suffix_starts(1) [of ls] suffix_starts(2) [of d] suffix_starts(3) [of x]
  by (auto simp: after_separator_def starts_with_Cons) (simp_all add: PRE_SPELLINGS_def POST_SPELLINGS_def starts_with_Cons)

lemma parse_suffixes_text:
  assumes "rest p = pre_string pre @ post_string post @ dev_string dev @ local_string ls"
    "p_i p \<le> length (p_v p)" "case pre of None \<Rightarrow> True | Some y \<Rightarrow> pre_number y \<noteq> u64_max" "post \<noteq> Some u64_max" "dev \<noteq> Some u64_max"
    "list_all parsed_segment ls" "p_pre p = None" "p_post p = None" "p_dev p = None" "p_local p = []"
  shows "parse_suffixes p = into_pattern ((advance (length (rest p)) p)\<lparr>p_pre := pre, p_post := post, p_dev := dev, p_local := ls\<rparr>)"
proof -
  have len: "p_i p + length (rest p) = length (p_v p)" using assms(2) by (simp add: rest_def)
  let ?a = "length (pre_string pre)" and ?b = "length (post_string post)" and ?c = "length (dev_string dev)"
  define p1 where "p1 = (advance ?a p)\<lparr>p_pre := pre\<rparr>"
  define p2 where "p2 = (advance ?b p1)\<lparr>p_post := post\<rparr>"
  define p3 where "p3 = (advance ?c p2)\<lparr>p_dev := dev\<rparr>"
  define p4 where "p4 = (advance (length (rest p3)) p3)\<lparr>p_local := ls\<rparr>"
  have r1: "rest p1 = post_string post @ dev_string dev @ local_string ls" using assms(1) by (simp add: p1_def)
  have r2: "rest p2 = dev_string dev @ local_string ls" using r1 by (simp add: p2_def)
  have r3: "rest p3 = local_string ls" using r2 by (simp add: p3_def)
  have i: "p_i p1 \<le> length (p_v p1)" "p_i p2 \<le> length (p_v p2)" "p_i p3 \<le> length (p_v p3)"
    using len assms(1) by (simp_all add: p1_def p2_def p3_def)
  have s1: "parse_pre p = Ok p1"
  proof (cases pre)
    case None
    then have "p1 = p" using assms(7) by (simp add: p1_def pre_string_def)
    then show ?thesis using skip_pre [OF assms(2)] suffixes_skip(1) assms(1) None by (simp add: pre_string_def)
  next
    case (Some y)
    obtain k n where y: "y = Prerelease k n" by (cases y)
    then have "number_text (show_u64 n)" "number_of (show_u64 n) = n" using assms(3) Some show_u64_number by auto
    then show ?thesis
      using parse_pre_text [of "show_u64 n" "post_string post @ dev_string dev @ local_string ls" p k] assms(1) Some y suffixes_no_digit
      by (simp add: p1_def pre_string_def)
  qed
  have s2: "parse_post p1 = Ok p2"
  proof (cases post)
    case None
    then have "p2 = p1" using assms(8) by (simp add: p1_def p2_def post_string_def)
    moreover have "\<forall>cs. rest p1 \<noteq> CHR ''-'' # cs" using r1 None suffix_starts(1) [of ls] suffix_starts(2) [of dev]
      by (auto simp: post_string_def)
    ultimately show ?thesis using skip_post [OF i(1)] suffixes_skip(2) r1 None by (simp add: post_string_def)
  next
    case (Some n)
    then have "number_text (show_u64 n)" "number_of (show_u64 n) = n" using assms(4) show_u64_number by auto
    then show ?thesis
      using parse_post_text [of "show_u64 n" "dev_string dev @ local_string ls" p1] r1 Some suffixes_no_digit
      by (simp add: p2_def post_string_def)
  qed
  have s3: "parse_dev p2 = Ok p3"
  proof (cases dev)
    case None
    then have "p3 = p2" using assms(9) by (simp add: p1_def p2_def p3_def dev_string_def)
    then show ?thesis using skip_dev [OF i(2)] suffixes_skip(3) r2 None by (simp add: dev_string_def)
  next
    case (Some n)
    then have "number_text (show_u64 n)" "number_of (show_u64 n) = n" using assms(5) show_u64_number by auto
    then show ?thesis
      using parse_dev_text [of "show_u64 n" "local_string ls" p2] r2 Some suffixes_no_digit
      by (simp add: p3_def dev_string_def)
  qed
  have s4: "parse_local p3 = Ok p4"
  proof (cases "ls = []")
    case True
    then have "p4 = p3" using assms(10) r3 by (simp add: p1_def p2_def p3_def p4_def local_string_def)
    then show ?thesis using parts_at_end(4) [of p3] r3 i(3) True by (simp add: local_string_def)
  next
    case False
    then show ?thesis using parse_local_text [of ls p3] assms(6,10) r3
      by (simp add: local_string_def p1_def p2_def p3_def p4_def)
  qed
  have "rest p4 = []" by (simp add: p4_def)
  then have "parse_suffixes p = into_pattern p4"
    using s1 s2 s3 s4 by (simp add: parse_suffixes_def is_done_rest Let_def)
  moreover have "p4 = (advance (length (rest p)) p)\<lparr>p_pre := pre, p_post := post, p_dev := dev, p_local := ls\<rparr>"
    using r3 assms(1) by (simp add: p1_def p2_def p3_def p4_def add.assoc)
  ultimately show ?thesis by simp
qed

lemma parse_pattern_slow: "parse_pattern (parser_new s) = parse_slow (parser_new s)"
  by (auto simp: parse_pattern_def parse_fast_slow split: option.split)

lemma parse_slow_release:
  assumes "number_text g" "list_all number_text gs" "\<forall>e. eo = Some e \<longrightarrow> number_text e"
    "s = epoch_text eo @ g @ dotted_tail gs @ suf" "release_end suf" "\<forall>cs. suf \<noteq> CHR ''!'' # cs"
  obtains r where
    "parse_slow (parser_new s) = and_then (parse_wildcard ((parser_new s)\<lparr>p_i := length (epoch_text eo @ g @ dotted_tail gs),
       p_epoch := (case eo of None \<Rightarrow> 0 | Some e \<Rightarrow> number_of e), p_release := r\<rparr>))
       (\<lambda>(wildcard, p). if wildcard then into_pattern p else parse_suffixes p)"
    "as_slice r = map number_of (g # gs)"
proof -
  let ?p = "parser_new s"
  define t where "t = dotted_tail gs @ suf"
  have r: "rest ?p = epoch_text eo @ g @ t" using assms(4) by (simp add: rest_def parser_new_def t_def)
  obtain c cs where start: "rest ?p = c # cs" "is_ascii_digit c"
  proof (cases eo)
    case None
    then show ?thesis using that r number_text_start [OF assms(1)] by (auto simp: epoch_text_def)
  next
    case (Some e)
    then show ?thesis using that r number_text_start [of e] assms(3) by (auto simp: epoch_text_def)
  qed
  have ws: "takeWhile is_ascii_whitespace (rest ?p) = []"
    using start by (auto simp: is_ascii_whitespace_def is_ascii_digit_def)
  have v: "bump_if ''v'' ?p = (False, ?p)"
    using start by (auto simp: bump_if_single eq_ignore_digit is_ascii_digit_def byte_of_def)
  have ok: "release_ok (p_release ?p)" "as_slice (p_release ?p) = []" "p_epoch ?p = 0"
    by (simp_all add: parser_new_def release_numbers_new_def release_ok_def)
  have nt: "\<not> digit_start t" unfolding t_def using assms(5) by (rule digit_start_dotted_tail)
  have nb: "\<forall>cs. t \<noteq> CHR ''!'' # cs" unfolding t_def using assms(6) by (cases gs) auto
  let ?e = "case eo of None \<Rightarrow> 0 | Some e \<Rightarrow> number_of e"
  obtain r1 where i: "parse_epoch_and_initial_release ?p
       = Ok ((advance (length (epoch_text eo @ g)) ?p)\<lparr>p_epoch := ?e, p_release := r1\<rparr>)"
    "release_ok r1" "as_slice r1 = [number_of g]"
    using parse_initial_text [OF assms(1,3) r nt nb ok(1,3)] ok(2) by auto
  define q where "q = (advance (length (epoch_text eo @ g)) ?p)\<lparr>p_epoch := ?e, p_release := r1\<rparr>"
  have rq: "rest q = dotted_tail gs @ suf" using assms(4) by (simp add: q_def t_def rest_def parser_new_def)
  obtain r2 where rr: "parse_rest_of_release q = Ok ((advance (length (dotted_tail gs)) q)\<lparr>p_release := r2\<rparr>)"
    "as_slice r2 = number_of g # map number_of gs"
    using parse_rest_of_release_text [OF assms(2,5) rq] i(2,3) by (auto simp: q_def)
  define w where "w = (advance (length (dotted_tail gs)) q)\<lparr>p_release := r2\<rparr>"
  have "w = ?p\<lparr>p_i := length (epoch_text eo @ g @ dotted_tail gs), p_epoch := ?e, p_release := r2\<rparr>"
    by (simp add: w_def q_def parser_new_def)
  moreover have "parse_slow ?p = and_then (parse_wildcard w) (\<lambda>(wildcard, p). if wildcard then into_pattern p else parse_suffixes p)"
  proof -
    have "parse_epoch_and_initial_release ?p = Ok q" by (simp only: i(1) q_def)
    moreover have "parse_rest_of_release q = Ok w" by (simp only: rr(1) w_def)
    ultimately show ?thesis unfolding parse_slow_def using ws v by (simp add: Let_def)
  qed
  ultimately show ?thesis using that [of r2] rr(2) by simp
qed

lemma parse_slow_text:
  assumes "number_text g" "list_all number_text gs" "\<forall>e. eo = Some e \<longrightarrow> number_text e"
    "s = epoch_text eo @ g @ dotted_tail gs @ pre_string pre @ post_string post @ dev_string dev @ local_string ls"
    "case pre of None \<Rightarrow> True | Some y \<Rightarrow> pre_number y \<noteq> u64_max" "post \<noteq> Some u64_max" "dev \<noteq> Some u64_max"
    "list_all parsed_segment ls"
  shows "\<exists>r i. parse_slow (parser_new s) = into_pattern ((parser_new s)\<lparr>p_i := i,
       p_epoch := (case eo of None \<Rightarrow> 0 | Some e \<Rightarrow> number_of e), p_release := r, p_pre := pre, p_post := post,
       p_dev := dev, p_local := ls\<rparr>) \<and> as_slice r = map number_of (g # gs)"
proof -
  let ?p = "parser_new s"
  define suf where "suf = pre_string pre @ post_string post @ dev_string dev @ local_string ls"
  note starts = suffix_starts(1) [of ls] suffix_starts(2) [of dev] suffix_starts(3) [of post] suffix_starts(4) [of pre]
  have s: "s = epoch_text eo @ g @ dotted_tail gs @ suf" using assms(4) by (simp add: suf_def)
  have re: "release_end suf" unfolding suf_def by (rule suffixes_no_digit)
  have nb: "\<forall>cs. suf \<noteq> CHR ''!'' # cs" unfolding suf_def using starts by auto
  let ?e = "case eo of None \<Rightarrow> 0 | Some e \<Rightarrow> number_of e"
  let ?n = "length (epoch_text eo @ g @ dotted_tail gs)"
  obtain r where r: "parse_slow ?p = and_then (parse_wildcard (?p\<lparr>p_i := ?n, p_epoch := ?e, p_release := r\<rparr>))
       (\<lambda>(wildcard, p). if wildcard then into_pattern p else parse_suffixes p)" "as_slice r = map number_of (g # gs)"
    by (rule parse_slow_release [OF assms(1-3) s re nb])
  define w where "w = ?p\<lparr>p_i := ?n, p_epoch := ?e, p_release := r\<rparr>"
  have rw: "rest w = suf" using s by (simp add: w_def rest_def parser_new_def)
  have "\<not> starts_with_ignore_ascii_case ''.*'' suf"
    unfolding suf_def using starts by (auto simp: starts_with_Cons split: list.splits)
  then have pw: "parse_wildcard w = Ok (False, w)" using rw by (simp add: parse_wildcard_def bump_if_eq)
  have "p_i w \<le> length (p_v w)" using s by (simp add: w_def parser_new_def)
  moreover have "p_pre w = None" "p_post w = None" "p_dev w = None" "p_local w = []"
    by (simp_all add: w_def parser_new_def)
  ultimately have "parse_suffixes w = into_pattern ((advance (length (rest w)) w)\<lparr>p_pre := pre, p_post := post, p_dev := dev, p_local := ls\<rparr>)"
    using parse_suffixes_text [OF _ _ assms(5-8)] rw unfolding suf_def by blast
  moreover have "(advance (length (rest w)) w)\<lparr>p_pre := pre, p_post := post, p_dev := dev, p_local := ls\<rparr>
     = ?p\<lparr>p_i := p_i w + length (rest w), p_epoch := ?e, p_release := r, p_pre := pre, p_post := post, p_dev := dev, p_local := ls\<rparr>"
    by (simp add: w_def)
  moreover have "parse_slow ?p = parse_suffixes w" using r(1) pw unfolding w_def by simp
  ultimately show ?thesis using r(2) by metis
qed

lemma version_from_str_to_string:
  assumes "parsed_version v"
  shows "\<exists>w. version_from_str (version_to_string v) = Ok w \<and> wf_version w \<and> make_full w = make_full v"
proof -
  have v: "pep440 v" using assms by (simp add: parsed_version_def)
  obtain ls where ls: "version_local v = Segments ls" "list_all parsed_segment ls"
    using assms by (cases "version_local v") (auto simp: parsed_version_def)
  obtain x xs where rel: "version_release v = x # xs" using v by (cases "version_release v") (auto simp: pep440_def)
  define eo where "eo = (if version_epoch v = 0 then None else Some (show_u64 (version_epoch v)))"
  have n: "number_text (show_u64 y)" "number_of (show_u64 y) = y" if "y = version_epoch v \<or> y \<in> set (version_release v)" for y
    using that v show_u64_number [of y] by (auto simp: pep440_def)
  have s: "version_to_string v = epoch_text eo @ show_u64 x @ dotted_tail (map show_u64 xs) @ pre_string (version_pre v)
      @ post_string (version_post v) @ dev_string (version_dev v) @ local_string ls"
    using rel ls(1)
    by (simp add: version_to_string_def epoch_text_def eo_def suffix_strings show_dotted_tail
        del: show_dotted.simps split: option.split)
  have "\<forall>e. eo = Some e \<longrightarrow> number_text e" using n by (simp add: eo_def)
  moreover have "list_all number_text (map show_u64 xs)" "number_text (show_u64 x)" using n rel by (auto simp: list_all_iff)
  ultimately obtain r i where p: "parse_slow (parser_new (version_to_string v)) = into_pattern ((parser_new (version_to_string v))\<lparr>p_i := i,
       p_epoch := (case eo of None \<Rightarrow> 0 | Some e \<Rightarrow> number_of e), p_release := r, p_pre := version_pre v, p_post := version_post v,
       p_dev := version_dev v, p_local := ls\<rparr>)" "as_slice r = map number_of (show_u64 x # map show_u64 xs)"
    using parse_slow_text [OF _ _ _ s] v ls(2) by (auto simp: pep440_def split: option.splits)
  have r: "as_slice r = version_release v" using p(2) rel n by (auto intro!: map_idI simp: o_def)
  have e: "(case eo of None \<Rightarrow> 0 | Some e \<Rightarrow> number_of e) = version_epoch v" using n by (simp add: eo_def)
  let ?q = "(parser_new (version_to_string v))\<lparr>p_i := i,
       p_epoch := (case eo of None \<Rightarrow> 0 | Some e \<Rightarrow> number_of e), p_release := r, p_pre := version_pre v, p_post := version_post v,
       p_dev := version_dev v, p_local := ls\<rparr>"
  obtain w where w: "into_pattern ?q = Ok \<lparr>vp_version = w, vp_wildcard = p_wildcard ?q\<rparr>" "wf_version w"
    "make_full w = \<lparr>f_epoch = p_epoch ?q, f_release = as_slice (p_release ?q), f_pre = p_pre ?q, f_post = p_post ?q,
       f_dev = p_dev ?q, f_local = Segments (p_local ?q), f_min = None, f_max = None\<rparr>"
    by (rule into_pattern_eq [of ?q]) (use r rel in auto)
  have "make_full w = make_full v"
    using w(3) r e ls(1) v by (simp add: accessors_make_full pep440_def)
  moreover have "\<not> p_wildcard ?q" by (simp add: parser_new_def)
  then have "version_from_str (version_to_string v) = Ok w"
    using w(1) p(1) by (simp add: version_from_str_def parse_version_def parse_pattern_slow)
  ultimately show ?thesis using w(2) by blast
qed

lemma version_pattern_star_text:
  assumes "parsed_version v" "version_pre v = None" "version_post v = None" "version_dev v = None" "version_local v = Segments []"
  shows "\<exists>w. version_pattern_from_str (version_to_string v @ ''.*'') = Ok \<lparr>vp_version = w, vp_wildcard = True\<rparr>
    \<and> wf_version w \<and> make_full w = make_full v"
proof -
  have v: "pep440 v" using assms by (simp add: parsed_version_def)
  obtain x xs where rel: "version_release v = x # xs" using v by (cases "version_release v") (auto simp: pep440_def)
  define eo where "eo = (if version_epoch v = 0 then None else Some (show_u64 (version_epoch v)))"
  have n: "number_text (show_u64 y)" "number_of (show_u64 y) = y" if "y = version_epoch v \<or> y \<in> set (version_release v)" for y
    using that v show_u64_number [of y] by (auto simp: pep440_def)
  let ?s = "version_to_string v @ ''.*''" and ?t = "epoch_text eo @ show_u64 x @ dotted_tail (map show_u64 xs)"
  have s: "?s = epoch_text eo @ show_u64 x @ dotted_tail (map show_u64 xs) @ ''.*''"
    using rel assms
    by (simp add: version_to_string_def epoch_text_def eo_def show_dotted_tail del: show_dotted.simps split: option.split)
  have e: "\<forall>e. eo = Some e \<longrightarrow> number_text e" using n by (simp add: eo_def)
  have t: "number_text (show_u64 x)" "list_all number_text (map show_u64 xs)" using n rel by (auto simp: list_all_iff)
  have re: "release_end ''.*''" by (simp add: release_end_def digit_start_def is_ascii_digit_def byte_of_def)
  let ?e = "case eo of None \<Rightarrow> 0 | Some e \<Rightarrow> number_of e"
  obtain r where r: "parse_slow (parser_new ?s) = and_then (parse_wildcard ((parser_new ?s)\<lparr>p_i := length ?t, p_epoch := ?e, p_release := r\<rparr>))
       (\<lambda>(wildcard, p). if wildcard then into_pattern p else parse_suffixes p)" "as_slice r = map number_of (show_u64 x # map show_u64 xs)"
    by (rule parse_slow_release [OF t e s re]) simp_all
  define w where "w = (parser_new ?s)\<lparr>p_i := length ?t, p_epoch := ?e, p_release := r\<rparr>"
  have "rest w = ''.*''" using s by (simp add: w_def rest_def parser_new_def)
  then have b: "bump_if ''.*'' w = (True, advance 2 w)" "rest (advance 2 w) = []"
    using rest_advance [of w 2] by (simp_all add: bump_if_eq starts_with_Cons)
  define q where "q = (advance 2 w)\<lparr>p_wildcard := True\<rparr>"
  have "parse_wildcard w = Ok (True, q)" using b by (simp add: parse_wildcard_def is_done_rest q_def)
  then have p: "parse_slow (parser_new ?s) = into_pattern q" using r(1) unfolding w_def by simp
  have rr: "as_slice r = version_release v" using r(2) rel n by (auto intro!: map_idI simp: o_def)
  have ee: "?e = version_epoch v" using n by (simp add: eo_def)
  obtain u where u: "into_pattern q = Ok \<lparr>vp_version = u, vp_wildcard = p_wildcard q\<rparr>" "wf_version u"
    "make_full u = \<lparr>f_epoch = p_epoch q, f_release = as_slice (p_release q), f_pre = p_pre q, f_post = p_post q,
       f_dev = p_dev q, f_local = Segments (p_local q), f_min = None, f_max = None\<rparr>"
    by (rule into_pattern_eq [of q]) (use rr rel in \<open>auto simp: q_def w_def\<close>)
  have "make_full u = make_full v"
    using u(3) rr ee v assms(2-5) by (simp add: accessors_make_full pep440_def q_def w_def parser_new_def)
  moreover have "version_pattern_from_str ?s = into_pattern q" using p by (simp add: version_pattern_from_str_def parse_pattern_slow)
  ultimately show ?thesis using u(1,2) by (auto simp: q_def)
qed


lemma version_pattern_from_str_safe: "safe parsed_pattern (version_pattern_from_str s)"
  by (simp add: version_pattern_from_str_def parse_pattern_slow parse_slow_safe)

lemma version_from_str_safe: "safe parsed_version (version_from_str s)"
proof (cases "parse_pattern (parser_new s)")
  case (Ok vp)
  then have "parsed_pattern vp" using version_pattern_from_str_safe [of s] by (simp add: version_pattern_from_str_def)
  then show ?thesis using Ok by (simp add: version_from_str_def parse_version_def parsed_pattern_def)
next
  case (Err e)
  then show ?thesis by (cases e) (simp_all add: version_from_str_def parse_version_def)
next
  case Panic
  then show ?thesis using version_pattern_from_str_safe [of s] by (simp add: version_pattern_from_str_def)
qed

lemma parse_u64_Ok_iff:
  "parse_u64 s = Ok n \<longleftrightarrow> list_all is_ascii_digit s \<and> digits_from 0 s < 2 ^ 64 \<and> unat n = digits_from 0 s"
proof (cases "\<forall>c \<in> set s. is_ascii_digit c")
  case True
  then show ?thesis
    by (auto simp: parse_u64_digits list_all_iff word_unat_eq_iff unsigned_of_nat take_bit_nat_eq_self)
next
  case False
  then have "parse_u64 s \<noteq> Ok n" using parse_u64_loop_Ok [of s 0 s n] by (auto simp: parse_u64_def)
  then show ?thesis using False by (auto simp: list_all_iff)
qed

lemma version_key_cong: "make_full w = make_full v \<Longrightarrow> version_key w = version_key v"
  using sortable_tuple_cong [of w v] by (simp add: version_key_def accessors_make_full)

section \<open>Properties\<close>




text \<open>
  C9: the numeric fast path is an optimisation only: parsing a pattern gives what the general
  parser alone gives, down to the packed representation.
\<close>

theorem fast_path_agrees: "version_pattern_from_str s = parse_slow (parser_new s)"
  by (simp add: version_pattern_from_str_def parse_pattern_slow)

text \<open>
  C8: a version the parser can produce is read back from its printed form, component for component.
\<close>

theorem version_print_parse:
  assumes "parsed_version v"
  shows "\<exists>w. version_from_str (version_to_string v) = Ok w \<and> wf_version w \<and> make_full w = make_full v"
  using assms by (rule version_from_str_to_string)

theorem version_print_parse_witness:
  "parsed_version sample_local
   \<and> (\<exists>w. version_from_str (version_to_string sample_local) = Ok w \<and> wf_version w \<and> make_full w = make_full sample_local)"
proof -
  have w: "parsed_version sample_local" by code_simp
  then show ?thesis using version_print_parse [OF w] by simp
qed




text \<open>
  C35: searching a string set with its first-byte filter finds the first string that is a
  case-insensitive prefix of the input, as a plain search does.
\<close>

theorem string_set_filter_exact:
  assumes "string_set_new ss = Some sset"
  shows "string_set_starts_with sset h = first_prefix ss 0 h"
  using assms string_set_starts_with_eq [of ss h] by (auto simp: string_set_new_def split: if_splits)

theorem string_set_filter_exact_witness:
  "\<exists>sset. string_set_new [''post'', ''rev'', ''r''] = Some sset \<and> string_set_starts_with sset ''REV2'' = Some 1"
proof -
  obtain sset where s: "string_set_new [''post'', ''rev'', ''r''] = Some sset" by (simp add: string_set_new_def)
  have "first_prefix [''post'', ''rev'', ''r''] 0 ''REV2'' = Some 1" by code_simp
  then show ?thesis using string_set_filter_exact [OF s] s by auto
qed

end
