(* ===== verification/Ranges.thy ===== *)
theory Ranges
  imports Uv_Prelude
begin

text \<open>
  The \<open>Ranges\<close> type of the \<open>version_ranges\<close> crate, a parameter of the model: a type \<open>'r\<close> of
  sets of values \<open>'v\<close> with the operations the code calls, in a record. The locale
  \<open>range_laws\<close> states what the crate documents about membership; lists of segments are an
  executable implementation that satisfies the laws.
\<close>

section \<open>Bounds and operations\<close>

datatype 'a bound = Included 'a | Excluded 'a | Unbounded

type_synonym 'v segment = "'v bound \<times> 'v bound"

record ('r, 'v) ranges =
  r_full :: 'r
  r_empty :: 'r
  r_singleton :: "'v \<Rightarrow> 'r"
  r_between :: "'v \<Rightarrow> 'v \<Rightarrow> 'r"
  r_higher_than :: "'v \<Rightarrow> 'r"
  r_strictly_higher_than :: "'v \<Rightarrow> 'r"
  r_lower_than :: "'v \<Rightarrow> 'r"
  r_strictly_lower_than :: "'v \<Rightarrow> 'r"
  r_from_range_bounds :: "'v bound \<Rightarrow> 'v bound \<Rightarrow> 'r"
  r_complement :: "'r \<Rightarrow> 'r"
  r_intersection :: "'r \<Rightarrow> 'r \<Rightarrow> 'r"
  r_union :: "'r \<Rightarrow> 'r \<Rightarrow> 'r"
  r_is_empty :: "'r \<Rightarrow> bool"
  r_is_disjoint :: "'r \<Rightarrow> 'r \<Rightarrow> bool"
  r_bounding_range :: "'r \<Rightarrow> 'v segment option"
  r_iter :: "'r \<Rightarrow> 'v segment list"
  r_collect :: "'v segment list \<Rightarrow> 'r"
  r_contains :: "'r \<Rightarrow> 'v \<Rightarrow> bool"

section \<open>Membership\<close>

text \<open>Values are compared by a key; the bounds of a segment admit the values on their side.\<close>

fun above_lower :: "('v \<Rightarrow> 'k::linorder) \<Rightarrow> 'v bound \<Rightarrow> 'v \<Rightarrow> bool" where
  "above_lower key (Included x) v \<longleftrightarrow> key x \<le> key v"
| "above_lower key (Excluded x) v \<longleftrightarrow> key x < key v"
| "above_lower key Unbounded v \<longleftrightarrow> True"

fun below_upper :: "('v \<Rightarrow> 'k::linorder) \<Rightarrow> 'v bound \<Rightarrow> 'v \<Rightarrow> bool" where
  "below_upper key (Included x) v \<longleftrightarrow> key v \<le> key x"
| "below_upper key (Excluded x) v \<longleftrightarrow> key v < key x"
| "below_upper key Unbounded v \<longleftrightarrow> True"

definition within :: "('v \<Rightarrow> 'k::linorder) \<Rightarrow> 'v \<Rightarrow> 'v segment \<Rightarrow> bool" where
  "within key v s \<longleftrightarrow> above_lower key (fst s) v \<and> below_upper key (snd s) v"

fun wf_bound :: "('v \<Rightarrow> bool) \<Rightarrow> 'v bound \<Rightarrow> bool" where
  "wf_bound P (Included x) \<longleftrightarrow> P x"
| "wf_bound P (Excluded x) \<longleftrightarrow> P x"
| "wf_bound P Unbounded \<longleftrightarrow> True"

definition wf_segment :: "('v \<Rightarrow> bool) \<Rightarrow> 'v segment \<Rightarrow> bool" where
  "wf_segment P s \<longleftrightarrow> wf_bound P (fst s) \<and> wf_bound P (snd s)"

section \<open>Laws\<close>

text \<open>
  The constructors are the intervals their names say, \<open>complement\<close>, \<open>intersection\<close> and \<open>union\<close>
  are those of sets, a range is the union of the segments it iterates over, and collecting segments
  gives their union. An empty range has no member and disjoint ranges have no common member (the
  converse holds for dense orders only). A segment of a range is itself a range with one segment.
\<close>

locale range_laws =
  fixes R :: "('r, 'v, 'm) ranges_scheme" and ok :: "'v \<Rightarrow> bool" and key :: "'v \<Rightarrow> 'k::linorder"
  assumes full_law: "ok v \<Longrightarrow> r_contains R (r_full R) v"
    and empty_law: "ok v \<Longrightarrow> \<not> r_contains R (r_empty R) v"
    and singleton_law: "ok a \<Longrightarrow> ok v \<Longrightarrow> r_contains R (r_singleton R a) v \<longleftrightarrow> key v = key a"
    and between_law: "ok a \<Longrightarrow> ok b \<Longrightarrow> ok v \<Longrightarrow> r_contains R (r_between R a b) v \<longleftrightarrow> key a \<le> key v \<and> key v < key b"
    and higher_than_law: "ok a \<Longrightarrow> ok v \<Longrightarrow> r_contains R (r_higher_than R a) v \<longleftrightarrow> key a \<le> key v"
    and strictly_higher_than_law: "ok a \<Longrightarrow> ok v \<Longrightarrow> r_contains R (r_strictly_higher_than R a) v \<longleftrightarrow> key a < key v"
    and lower_than_law: "ok a \<Longrightarrow> ok v \<Longrightarrow> r_contains R (r_lower_than R a) v \<longleftrightarrow> key v \<le> key a"
    and strictly_lower_than_law: "ok a \<Longrightarrow> ok v \<Longrightarrow> r_contains R (r_strictly_lower_than R a) v \<longleftrightarrow> key v < key a"
    and from_range_bounds_law: "wf_bound ok l \<Longrightarrow> wf_bound ok u \<Longrightarrow> ok v \<Longrightarrow>
      r_contains R (r_from_range_bounds R l u) v \<longleftrightarrow> within key v (l, u)"
    and complement_law: "ok v \<Longrightarrow> r_contains R (r_complement R r) v \<longleftrightarrow> \<not> r_contains R r v"
    and intersection_law: "ok v \<Longrightarrow> r_contains R (r_intersection R r s) v \<longleftrightarrow> r_contains R r v \<and> r_contains R s v"
    and union_law: "ok v \<Longrightarrow> r_contains R (r_union R r s) v \<longleftrightarrow> r_contains R r v \<or> r_contains R s v"
    and is_empty_law: "ok v \<Longrightarrow> r_is_empty R r \<Longrightarrow> \<not> r_contains R r v"
    and is_disjoint_law: "ok v \<Longrightarrow> r_is_disjoint R r s \<Longrightarrow> \<not> (r_contains R r v \<and> r_contains R s v)"
    and iter_law: "ok v \<Longrightarrow> r_contains R r v \<longleftrightarrow> list_ex (within key v) (r_iter R r)"
    and iter_wf: "list_all (wf_segment ok) (r_iter R r)"
    and iter_segment: "(l, u) \<in> set (r_iter R r) \<Longrightarrow> r_iter R (r_from_range_bounds R l u) = [(l, u)]"
    and iter_ascending: "sorted_wrt (\<lambda>s t. \<forall>v w. ok v \<longrightarrow> ok w \<longrightarrow> within key v s \<longrightarrow> within key w t \<longrightarrow> key v < key w) (r_iter R r)"
    and bounding_range_law: "r_bounding_range R r =
      (if r_iter R r = [] then None else Some (fst (hd (r_iter R r)), snd (last (r_iter R r))))"
    and collect_law: "ok v \<Longrightarrow> list_all (wf_segment ok) xs \<Longrightarrow>
      r_contains R (r_collect R xs) v \<longleftrightarrow> list_ex (within key v) xs"

section \<open>Lists of segments\<close>

text \<open>
  An executable implementation: a range is a list of segments and contains the values of any of
  them. Segments with an invalid bound or whose bounds cross are ignored; the iteration order is the
  ascending one, with overlaps removed.
\<close>

fun bound_key :: "('v \<Rightarrow> 'k::linorder) \<Rightarrow> 'v bound \<Rightarrow> ('k \<times> bool) option" where
  "bound_key key Unbounded = None"
| "bound_key key (Included x) = Some (key x, False)"
| "bound_key key (Excluded x) = Some (key x, True)"

fun crossing :: "('v \<Rightarrow> 'k::linorder) \<Rightarrow> 'v bound \<Rightarrow> 'v bound \<Rightarrow> bool" where
  "crossing key (Included x) (Included y) \<longleftrightarrow> key y < key x"
| "crossing key (Included x) (Excluded y) \<longleftrightarrow> key y \<le> key x"
| "crossing key (Excluded x) (Included y) \<longleftrightarrow> key y \<le> key x"
| "crossing key (Excluded x) (Excluded y) \<longleftrightarrow> key y \<le> key x"
| "crossing key _ _ \<longleftrightarrow> False"

definition proper :: "('v \<Rightarrow> bool) \<Rightarrow> ('v \<Rightarrow> 'k::linorder) \<Rightarrow> 'v segment \<Rightarrow> bool" where
  "proper ok key s \<longleftrightarrow> wf_segment ok s \<and> \<not> crossing key (fst s) (snd s)"

definition higher_lower :: "('v \<Rightarrow> 'k::linorder) \<Rightarrow> 'v bound \<Rightarrow> 'v bound \<Rightarrow> 'v bound" where
  "higher_lower key a b = (if bound_key key a \<le> bound_key key b then b else a)"

fun lower_upper :: "('v \<Rightarrow> 'k::linorder) \<Rightarrow> 'v bound \<Rightarrow> 'v bound \<Rightarrow> 'v bound" where
  "lower_upper key Unbounded b = b"
| "lower_upper key a Unbounded = a"
| "lower_upper key (Included x) (Included y) = (if key x \<le> key y then Included x else Included y)"
| "lower_upper key (Included x) (Excluded y) = (if key x < key y then Included x else Excluded y)"
| "lower_upper key (Excluded x) (Included y) = (if key x \<le> key y then Excluded x else Included y)"
| "lower_upper key (Excluded x) (Excluded y) = (if key x \<le> key y then Excluded x else Excluded y)"

definition meet_segment :: "('v \<Rightarrow> 'k::linorder) \<Rightarrow> 'v segment \<Rightarrow> 'v segment \<Rightarrow> 'v segment" where
  "meet_segment key s t = (higher_lower key (fst s) (fst t), lower_upper key (snd s) (snd t))"

definition meet_segments :: "('v \<Rightarrow> bool) \<Rightarrow> ('v \<Rightarrow> 'k::linorder) \<Rightarrow> 'v segment list \<Rightarrow> 'v segment list \<Rightarrow> 'v segment list" where
  "meet_segments ok key r s = filter (proper ok key) (concat (map (\<lambda>x. map (meet_segment key x) s) r))"

definition outside :: "'v segment \<Rightarrow> 'v segment list" where
  "outside s =
    (case fst s of Included x \<Rightarrow> [(Unbounded, Excluded x)] | Excluded x \<Rightarrow> [(Unbounded, Included x)] | Unbounded \<Rightarrow> [])
    @ (case snd s of Included x \<Rightarrow> [(Excluded x, Unbounded)] | Excluded x \<Rightarrow> [(Included x, Unbounded)] | Unbounded \<Rightarrow> [])"

fun separate :: "('v \<Rightarrow> bool) \<Rightarrow> ('v \<Rightarrow> 'k::linorder) \<Rightarrow> 'v segment list \<Rightarrow> 'v segment list" where
  "separate ok key [] = []"
| "separate ok key (s # r) = s # meet_segments ok key (outside s) (separate ok key r)"

definition segments_iter :: "('v \<Rightarrow> bool) \<Rightarrow> ('v \<Rightarrow> 'k::linorder) \<Rightarrow> 'v segment list \<Rightarrow> 'v segment list" where
  "segments_iter ok key r = sort_key (bound_key key \<circ> fst) (separate ok key (filter (proper ok key) r))"

definition segments_contains :: "('v \<Rightarrow> bool) \<Rightarrow> ('v \<Rightarrow> 'k::linorder) \<Rightarrow> 'v segment list \<Rightarrow> 'v \<Rightarrow> bool" where
  "segments_contains ok key r v = list_ex (within key v) (filter (proper ok key) r)"

definition segments_complement :: "('v \<Rightarrow> bool) \<Rightarrow> ('v \<Rightarrow> 'k::linorder) \<Rightarrow> 'v segment list \<Rightarrow> 'v segment list" where
  "segments_complement ok key r =
    foldr (\<lambda>s acc. meet_segments ok key (outside s) acc) (filter (proper ok key) r) [(Unbounded, Unbounded)]"

definition segments_bounding :: "('v \<Rightarrow> bool) \<Rightarrow> ('v \<Rightarrow> 'k::linorder) \<Rightarrow> 'v segment list \<Rightarrow> 'v segment option" where
  "segments_bounding ok key r =
    (case segments_iter ok key r of [] \<Rightarrow> None | s # ss \<Rightarrow> Some (fst s, snd (last (s # ss))))"

definition segment_ranges_of :: "('v \<Rightarrow> bool) \<Rightarrow> ('v \<Rightarrow> 'k::linorder) \<Rightarrow> ('v segment list, 'v) ranges" where
  "segment_ranges_of ok key = \<lparr>r_full = [(Unbounded, Unbounded)], r_empty = [],
     r_singleton = \<lambda>a. [(Included a, Included a)],
     r_between = \<lambda>a b. [(Included a, Excluded b)], r_higher_than = \<lambda>a. [(Included a, Unbounded)],
     r_strictly_higher_than = \<lambda>a. [(Excluded a, Unbounded)], r_lower_than = \<lambda>a. [(Unbounded, Included a)],
     r_strictly_lower_than = \<lambda>a. [(Unbounded, Excluded a)], r_from_range_bounds = \<lambda>l u. [(l, u)],
     r_complement = segments_complement ok key, r_intersection = (\<lambda>r s. meet_segments ok key (filter (proper ok key) r) (filter (proper ok key) s)),
     r_union = (\<lambda>r s. segments_iter ok key (r @ s)), r_is_empty = (\<lambda>r. filter (proper ok key) r = []),
     r_is_disjoint = (\<lambda>r s. meet_segments ok key (filter (proper ok key) r) (filter (proper ok key) s) = []),
     r_bounding_range = segments_bounding ok key,
     r_iter = segments_iter ok key, r_collect = \<lambda>xs. xs, r_contains = segments_contains ok key\<rparr>"

lemma bound_key_above: "above_lower key b v \<longleftrightarrow> bound_key key b \<le> Some (key v, False)"
  by (cases b) (auto simp: less_eq_option_Some)

lemma crossing_empty: "crossing key l u \<Longrightarrow> \<not> (above_lower key l v \<and> below_upper key u v)"
  by (cases l; cases u) auto

lemma higher_lower_above: "above_lower key (higher_lower key a b) v \<longleftrightarrow> above_lower key a v \<and> above_lower key b v"
  unfolding higher_lower_def bound_key_above by auto

lemma higher_lower_wf: "wf_bound ok a \<Longrightarrow> wf_bound ok b \<Longrightarrow> wf_bound ok (higher_lower key a b)"
  by (simp add: higher_lower_def)

lemma lower_upper_below: "below_upper key (lower_upper key a b) v \<longleftrightarrow> below_upper key a v \<and> below_upper key b v"
  by (cases a; cases b) auto

lemma lower_upper_wf: "wf_bound ok a \<Longrightarrow> wf_bound ok b \<Longrightarrow> wf_bound ok (lower_upper key a b)"
  by (cases a; cases b) auto

lemma meet_segment_within: "within key v (meet_segment key s t) \<longleftrightarrow> within key v s \<and> within key v t"
  by (auto simp: within_def meet_segment_def higher_lower_above lower_upper_below)

lemma meet_segment_wf: "wf_segment ok s \<Longrightarrow> wf_segment ok t \<Longrightarrow> wf_segment ok (meet_segment key s t)"
  by (simp add: wf_segment_def meet_segment_def higher_lower_wf lower_upper_wf)

lemma within_proper: "wf_segment ok s \<Longrightarrow> within key v s \<Longrightarrow> proper ok key s"
  using crossing_empty by (fastforce simp: proper_def within_def)

lemma meet_segments_within:
  assumes "list_all (wf_segment ok) r" "list_all (wf_segment ok) s"
  shows "list_ex (within key v) (meet_segments ok key r s) \<longleftrightarrow> list_ex (within key v) r \<and> list_ex (within key v) s"
proof
  assume "list_ex (within key v) r \<and> list_ex (within key v) s"
  then obtain x y where xy: "x \<in> set r" "y \<in> set s" "within key v x" "within key v y" by (auto simp: list_ex_iff)
  then have "within key v (meet_segment key x y)" by (simp add: meet_segment_within)
  moreover have "proper ok key (meet_segment key x y)"
    using within_proper [OF meet_segment_wf calculation] assms xy by (auto simp: list_all_iff)
  then have "meet_segment key x y \<in> set (meet_segments ok key r s)"
    using xy(1,2) by (simp add: meet_segments_def) (rule bexI, rule imageI)
  ultimately show "list_ex (within key v) (meet_segments ok key r s)" unfolding list_ex_iff by (rule bexI)
next
  assume "list_ex (within key v) (meet_segments ok key r s)"
  then obtain x y where "x \<in> set r" "y \<in> set s" "within key v (meet_segment key x y)"
    unfolding list_ex_iff meet_segments_def by auto
  then show "list_ex (within key v) r \<and> list_ex (within key v) s" unfolding meet_segment_within list_ex_iff by blast
qed

lemma meet_segments_proper: "list_all (proper ok key) (meet_segments ok key r s)"
  by (simp add: meet_segments_def list_all_iff)

lemma proper_wf: "list_all (proper ok key) r \<Longrightarrow> list_all (wf_segment ok) r"
  by (auto simp: list_all_iff proper_def)

lemma outside_within: "list_ex (within key v) (outside s) \<longleftrightarrow> \<not> within key v s"
  by (cases "fst s"; cases "snd s") (auto simp: outside_def within_def)

lemma outside_wf: "wf_segment ok s \<Longrightarrow> list_all (wf_segment ok) (outside s)"
  by (cases "fst s"; cases "snd s") (auto simp: outside_def wf_segment_def)

lemma separate_proper: "list_all (proper ok key) r \<Longrightarrow> list_all (proper ok key) (separate ok key r)"
  by (induction r) (auto simp: meet_segments_proper)

lemma separate_within:
  "list_all (proper ok key) r \<Longrightarrow> list_ex (within key v) (separate ok key r) \<longleftrightarrow> list_ex (within key v) r"
proof (induction r)
  case (Cons s r)
  then have "list_all (wf_segment ok) (outside s)" "list_all (wf_segment ok) (separate ok key r)"
    using outside_wf [of ok s] proper_wf [OF separate_proper [of ok key r]] by (auto simp: proper_def [of ok key s])
  then show ?case using Cons by (auto simp: meet_segments_within outside_within)
qed simp

text \<open>Pairwise disjoint lists of segments stay so under the intersection with disjoint segments.\<close>

definition apart :: "('v \<Rightarrow> 'k::linorder) \<Rightarrow> 'v segment \<Rightarrow> 'v segment \<Rightarrow> bool" where
  "apart key s t \<longleftrightarrow> (\<forall>v. \<not> (within key v s \<and> within key v t))"

lemma sorted_wrt_concat:
  "sorted_wrt (\<lambda>xs ys. \<forall>x\<in>set xs. \<forall>y\<in>set ys. P x y) xss \<Longrightarrow> (\<And>xs. xs \<in> set xss \<Longrightarrow> sorted_wrt P xs) \<Longrightarrow> sorted_wrt P (concat xss)"
  by (induction xss) (auto simp: sorted_wrt_append)

lemma outside_apart:
  assumes "\<not> crossing key (fst s) (snd s)"
  shows "sorted_wrt (apart key) (outside s)"
  using assms by (cases "fst s"; cases "snd s") (auto simp: outside_def apart_def within_def)

lemma meet_segments_apart:
  assumes "sorted_wrt (apart key) r" "sorted_wrt (apart key) s"
  shows "sorted_wrt (apart key) (meet_segments ok key r s)"
  unfolding meet_segments_def
proof (intro sorted_wrt_filter sorted_wrt_concat)
  have "sorted_wrt (\<lambda>x y. \<forall>a\<in>set (map (meet_segment key x) s). \<forall>b\<in>set (map (meet_segment key y) s). apart key a b) r"
    by (rule sorted_wrt_mono_rel [OF _ assms(1)]) (auto simp: apart_def meet_segment_within)
  then show "sorted_wrt (\<lambda>xs ys. \<forall>x\<in>set xs. \<forall>y\<in>set ys. apart key x y) (map (\<lambda>x. map (meet_segment key x) s) r)"
    by (simp add: sorted_wrt_map)
  show "sorted_wrt (apart key) xs" if xs: "xs \<in> set (map (\<lambda>x. map (meet_segment key x) s) r)" for xs
  proof -
    obtain x where "xs = map (meet_segment key x) s" using xs by auto
    moreover have "sorted_wrt (\<lambda>a b. apart key (meet_segment key x a) (meet_segment key x b)) s"
      by (rule sorted_wrt_mono_rel [OF _ assms(2)]) (auto simp: apart_def meet_segment_within)
    ultimately show ?thesis by (simp add: sorted_wrt_map)
  qed
qed

lemma separate_apart: "list_all (proper ok key) r \<Longrightarrow> sorted_wrt (apart key) (separate ok key r)"
proof (induction r)
  case (Cons s r)
  have "apart key s t" if t: "t \<in> set (meet_segments ok key (outside s) (separate ok key r))" for t
  proof -
    obtain x y where "x \<in> set (outside s)" "t = meet_segment key x y"
      using t by (auto simp: meet_segments_def)
    then show ?thesis using outside_within [of key _ s] by (auto simp: apart_def meet_segment_within list_ex_iff)
  qed
  then show ?case using Cons by (simp add: meet_segments_apart outside_apart proper_def)
qed simp

lemma segments_iter_set: "set (segments_iter ok key r) = set (separate ok key (filter (proper ok key) r))"
  by (simp add: segments_iter_def)

lemma segments_iter_proper: "list_all (proper ok key) (segments_iter ok key r)"
  using separate_proper [of ok key "filter (proper ok key) r"] by (simp add: list_all_iff segments_iter_set)

lemma segments_iter_within: "list_ex (within key v) (segments_iter ok key r) \<longleftrightarrow> segments_contains ok key r v"
  using separate_within [of ok key "filter (proper ok key) r" v]
  by (simp add: list_ex_iff segments_iter_set segments_contains_def list_all_iff)

lemma segments_contains_wf:
  assumes "list_all (wf_segment ok) r"
  shows "segments_contains ok key r v \<longleftrightarrow> list_ex (within key v) r"
  using assms within_proper by (fastforce simp: segments_contains_def list_ex_iff list_all_iff)

lemma segments_contains_single:
  "segments_contains ok key [s] v \<longleftrightarrow> wf_segment ok s \<and> within key v s"
  using within_proper [of ok s key v] by (auto simp: segments_contains_def proper_def)

lemma segments_iter_single: "proper ok key s \<Longrightarrow> segments_iter ok key [s] = [s]"
  by (simp add: segments_iter_def meet_segments_def map_replicate_const)

lemma segments_complement_contains: "segments_contains ok key (segments_complement ok key r) v \<longleftrightarrow> \<not> segments_contains ok key r v"
proof -
  let ?f = "\<lambda>xs. foldr (\<lambda>s acc. meet_segments ok key (outside s) acc) xs [(Unbounded, Unbounded)]"
  have wf: "list_all (wf_segment ok) (?f xs)" for xs
    by (cases xs) (auto simp: wf_segment_def intro: proper_wf [OF meet_segments_proper])
  have "list_ex (within key v) (?f xs) \<longleftrightarrow> \<not> list_ex (within key v) xs" if "list_all (proper ok key) xs" for xs
    using that by (induction xs)
      (auto simp: meet_segments_within outside_wf outside_within wf proper_def, simp add: within_def)
  from this [of "filter (proper ok key) r"] show ?thesis
    unfolding segments_complement_def segments_contains_wf [OF wf] segments_contains_def [of ok key r v]
    by (simp add: list_all_iff)
qed

lemma meet_segments_contains:
  "segments_contains ok key (meet_segments ok key (filter (proper ok key) r) (filter (proper ok key) s)) v
   \<longleftrightarrow> segments_contains ok key r v \<and> segments_contains ok key s v"
proof -
  have "list_all (wf_segment ok) (filter (proper ok key) x)" for x by (auto simp: list_all_iff proper_def)
  then show ?thesis
    by (simp add: segments_contains_wf [OF proper_wf [OF meet_segments_proper]] meet_segments_within
      segments_contains_def [of ok key r] segments_contains_def [of ok key s])
qed

text \<open>Disjoint segments in the order of their lower bounds are in ascending order.\<close>

lemma apart_sorted_ascending:
  assumes "apart key s t" "bound_key key (fst s) \<le> bound_key key (fst t)" "within key v s" "within key w t"
  shows "key v < key w"
proof (rule ccontr)
  assume "\<not> key v < key w"
  then have "below_upper key (snd s) w" using assms(3) by (cases "snd s") (auto simp: within_def)
  moreover have "above_lower key (fst s) w"
    using assms(2,4) by (auto simp: within_def bound_key_above)
  ultimately show False using assms(1,4) by (auto simp: apart_def within_def)
qed

lemma sorted_wrt_insort:
  assumes "\<And>x y. P x y \<longleftrightarrow> P y x" "sorted_wrt P xs" "\<forall>y\<in>set xs. P x y"
  shows "sorted_wrt P (insort_key f x xs)"
  using assms by (induction xs) (auto simp: set_insort_key)

lemma sorted_wrt_sort_key:
  assumes "\<And>x y. P x y \<longleftrightarrow> P y x" "sorted_wrt P xs"
  shows "sorted_wrt P (sort_key f xs)"
  using assms(2) by (induction xs) (auto simp: sort_key_def intro!: sorted_wrt_insort [where P = P] assms(1) simp flip: sort_key_def)

lemma segments_iter_ascending:
  "sorted_wrt (\<lambda>s t. \<forall>v w. within key v s \<longrightarrow> within key w t \<longrightarrow> key v < key w) (segments_iter ok key r)"
proof -
  have "sorted_wrt (apart key) (segments_iter ok key r)"
    unfolding segments_iter_def
    by (rule sorted_wrt_sort_key [OF _ separate_apart]) (auto simp: apart_def list_all_iff)
  moreover have "sorted_wrt (\<lambda>s t. bound_key key (fst s) \<le> bound_key key (fst t)) (segments_iter ok key r)"
    using sorted_sort_key [of "bound_key key \<circ> fst" "separate ok key (filter (proper ok key) r)"]
    by (simp add: segments_iter_def sorted_map)
  ultimately show ?thesis
    unfolding sorted_wrt_iff_nth_less using apart_sorted_ascending by metis
qed

lemma segments_union_contains:
  "segments_contains ok key (segments_iter ok key (r @ s)) v \<longleftrightarrow> segments_contains ok key r v \<or> segments_contains ok key s v"
  unfolding segments_contains_wf [OF proper_wf [OF segments_iter_proper]] segments_iter_within
  by (simp add: segments_contains_def)

lemmas segment_ranges_of_simps = segment_ranges_of_def segments_contains_single wf_segment_def within_def

lemma segment_ranges_lawful: "range_laws (segment_ranges_of ok key) ok key"
proof
  show "sorted_wrt (\<lambda>s t. \<forall>v w. ok v \<longrightarrow> ok w \<longrightarrow> within key v s \<longrightarrow> within key w t \<longrightarrow> key v < key w) (r_iter (segment_ranges_of ok key) r)" for r
    unfolding segment_ranges_of_def ranges.simps
    by (rule sorted_wrt_mono_rel [OF _ segments_iter_ascending]) blast
  show "r_contains (segment_ranges_of ok key) (r_union (segment_ranges_of ok key) r s) v
     \<longleftrightarrow> r_contains (segment_ranges_of ok key) r v \<or> r_contains (segment_ranges_of ok key) s v" for r s v
    by (simp add: segment_ranges_of_def segments_union_contains)
  show "\<not> (r_contains (segment_ranges_of ok key) r v \<and> r_contains (segment_ranges_of ok key) s v)"
    if "r_is_disjoint (segment_ranges_of ok key) r s" for r s v
    using that meet_segments_contains [of ok key r s v] by (simp add: segment_ranges_of_def segments_contains_def [of _ _ "[]"])
  show "r_bounding_range (segment_ranges_of ok key) r = (if r_iter (segment_ranges_of ok key) r = [] then None
      else Some (fst (hd (r_iter (segment_ranges_of ok key) r)), snd (last (r_iter (segment_ranges_of ok key) r))))" for r
    by (cases "segments_iter ok key r") (simp_all add: segment_ranges_of_def segments_bounding_def)
  show "r_iter (segment_ranges_of ok key) (r_from_range_bounds (segment_ranges_of ok key) l u) = [(l, u)]"
    if "(l, u) \<in> set (r_iter (segment_ranges_of ok key) r)" for l u r
    using that segments_iter_proper [of ok key r] by (simp add: segment_ranges_of_def list_all_iff segments_iter_single)
  show "list_all (wf_segment ok) (r_iter (segment_ranges_of ok key) r)" for r
    by (simp add: segment_ranges_of_def proper_wf [OF segments_iter_proper])
  show "r_contains (segment_ranges_of ok key) (r_collect (segment_ranges_of ok key) xs) v \<longleftrightarrow> list_ex (within key v) xs"
    if "list_all (wf_segment ok) xs" for xs v
    using that by (simp add: segment_ranges_of_def segments_contains_wf)
  show "\<not> r_contains (segment_ranges_of ok key) r v" if "r_is_empty (segment_ranges_of ok key) r" for r v
    using that by (simp add: segment_ranges_of_def segments_contains_def)
  show "r_contains (segment_ranges_of ok key) r v \<longleftrightarrow> list_ex (within key v) (r_iter (segment_ranges_of ok key) r)" for r v
    by (simp add: segment_ranges_of_def segments_iter_within)
  show "\<not> r_contains (segment_ranges_of ok key) (r_empty (segment_ranges_of ok key)) v" for v
    by (simp add: segment_ranges_of_def segments_contains_def)
  show "r_contains (segment_ranges_of ok key) (r_singleton (segment_ranges_of ok key) a) v \<longleftrightarrow> key v = key a" if "ok a" for a v
    using that by (auto simp: segment_ranges_of_simps)
qed (simp_all add: segment_ranges_of_simps segments_complement_contains meet_segments_contains)

interpretation segments: range_laws "segment_ranges_of ok key" ok key for ok key
  by (rule segment_ranges_lawful)

end
