(* ===== verification/Version_Specifier.thy ===== *)
theory Version_Specifier
  imports Version_Roundtrip Ranges
begin

text \<open>
  Operators and version specifiers: \<open>Operator\<close> of \<open>crates/uv-pep440/src/version.rs\<close> and
  \<open>VersionSpecifier\<close>, \<open>VersionSpecifiers\<close> and \<open>TildeVersionSpecifier\<close> of
  \<open>crates/uv-pep440/src/version_specifier.rs\<close>. An \<open>unwrap\<close>, \<open>expect\<close> or \<open>assert!\<close> that fails is
  \<open>None\<close> (or \<open>Panic\<close> in the parsers). The text scanner of the \<open>unscanny\<close> package is a parameter:
  \<open>eat P s\<close> splits the remaining input \<open>s\<close> at the end of its longest prefix of characters that
  satisfy \<open>P\<close>. Input to the specifier parsers is ASCII text.
\<close>

section \<open>Operators\<close>

datatype operator =
    OpEqual | OpEqualStar | OpExactEqual | OpNotEqual | OpNotEqualStar
  | OpTildeEqual | OpLessThan | OpLessThanEqual | OpGreaterThan | OpGreaterThanEqual

fun operator_rank :: "operator \<Rightarrow> nat" where
  "operator_rank OpEqual = 0"
| "operator_rank OpEqualStar = 1"
| "operator_rank OpExactEqual = 2"
| "operator_rank OpNotEqual = 3"
| "operator_rank OpNotEqualStar = 4"
| "operator_rank OpTildeEqual = 5"
| "operator_rank OpLessThan = 6"
| "operator_rank OpLessThanEqual = 7"
| "operator_rank OpGreaterThan = 8"
| "operator_rank OpGreaterThanEqual = 9"

lemma operator_rank_inj: "operator_rank a = operator_rank b \<longleftrightarrow> a = b"
  by (cases a; cases b) simp_all

instantiation operator :: linorder
begin

definition less_eq_operator :: "operator \<Rightarrow> operator \<Rightarrow> bool" where
  "less_eq_operator a b \<longleftrightarrow> operator_rank a \<le> operator_rank b"

definition less_operator :: "operator \<Rightarrow> operator \<Rightarrow> bool" where
  "less_operator a b \<longleftrightarrow> operator_rank a < operator_rank b"

instance
  by standard (auto simp: less_eq_operator_def less_operator_def operator_rank_inj [symmetric])

end

fun negate :: "operator \<Rightarrow> operator option" where
  "negate OpEqual = Some OpNotEqual"
| "negate OpEqualStar = Some OpNotEqualStar"
| "negate OpExactEqual = Some OpNotEqual"
| "negate OpNotEqual = Some OpEqual"
| "negate OpNotEqualStar = Some OpEqualStar"
| "negate OpTildeEqual = None"
| "negate OpLessThan = Some OpGreaterThanEqual"
| "negate OpLessThanEqual = Some OpGreaterThan"
| "negate OpGreaterThan = Some OpLessThanEqual"
| "negate OpGreaterThanEqual = Some OpLessThan"

definition is_local_compatible :: "operator \<Rightarrow> bool" where
  "is_local_compatible op \<longleftrightarrow>
     op \<notin> {OpGreaterThan, OpGreaterThanEqual, OpLessThan, OpLessThanEqual, OpTildeEqual, OpEqualStar, OpNotEqualStar}"

fun to_star :: "operator \<Rightarrow> operator option" where
  "to_star OpEqual = Some OpEqualStar"
| "to_star OpNotEqual = Some OpNotEqualStar"
| "to_star _ = None"

definition is_star :: "operator \<Rightarrow> bool" where
  "is_star op \<longleftrightarrow> op = OpEqualStar \<or> op = OpNotEqualStar"

fun operator_as_str :: "operator \<Rightarrow> string" where
  "operator_as_str OpEqual = ''==''"
| "operator_as_str OpEqualStar = ''==''"
| "operator_as_str OpExactEqual = ''===''"
| "operator_as_str OpNotEqual = ''!=''"
| "operator_as_str OpNotEqualStar = ''!=''"
| "operator_as_str OpTildeEqual = ''~=''"
| "operator_as_str OpLessThan = ''<''"
| "operator_as_str OpLessThanEqual = ''<=''"
| "operator_as_str OpGreaterThan = ''>''"
| "operator_as_str OpGreaterThanEqual = ''>=''"

text \<open>\<open>Err\<close> carries the text of \<open>OperatorParseError\<close>.\<close>

definition operator_from_str :: "string \<Rightarrow> (operator, string) outcome" where
  "operator_from_str s =
    (if s = ''=='' then Ok OpEqual
     else if s = ''==='' then Ok OpExactEqual
     else if s = ''!='' then Ok OpNotEqual
     else if s = ''~='' then Ok OpTildeEqual
     else if s = ''<'' then Ok OpLessThan
     else if s = ''<='' then Ok OpLessThanEqual
     else if s = ''>'' then Ok OpGreaterThan
     else if s = ''>='' then Ok OpGreaterThanEqual
     else Err s)"

section \<open>Specifiers\<close>

record version_specifier =
  sp_operator :: operator
  sp_version :: version

definition specifier_eq :: "version_specifier \<Rightarrow> version_specifier \<Rightarrow> bool" where
  "specifier_eq a b =
    (if sp_operator a \<noteq> sp_operator b then False
     else if sp_operator a = OpTildeEqual
             \<and> length (version_release (sp_version a)) \<noteq> length (version_release (sp_version b)) then False
     else version_eq (sp_version a) (sp_version b))"

definition specifier_hash :: "version_specifier \<Rightarrow> hash_item list" where
  "specifier_hash s =
    HashDiscriminant (operator_rank (sp_operator s))
    # (if sp_operator s = OpTildeEqual then [HashLen (length (version_release (sp_version s)))] else [])
    @ version_hash (sp_version s)"

definition specifier_cmp :: "version_specifier \<Rightarrow> version_specifier \<Rightarrow> ordering" where
  "specifier_cmp a b =
    then_with (cmp (sp_operator a) (sp_operator b))
      (then_with (version_cmp (sp_version a) (sp_version b))
        (if sp_operator a = OpTildeEqual
         then cmp (length (version_release (sp_version a))) (length (version_release (sp_version b)))
         else Equal))"

datatype build_error_kind =
    OperatorLocalCombo operator version
  | OperatorWithStar operator
  | CompatibleRelease

definition from_version :: "operator \<Rightarrow> version \<Rightarrow> (version_specifier, build_error_kind) outcome" where
  "from_version op v =
    (if is_local v \<and> \<not> is_local_compatible op then Err (OperatorLocalCombo op v)
     else if op = OpTildeEqual \<and> length (version_release v) < 2 then Err CompatibleRelease
     else Ok \<lparr>sp_operator = op, sp_version = v\<rparr>)"

definition from_pattern :: "operator \<Rightarrow> version_pattern \<Rightarrow> (version_specifier, build_error_kind) outcome" where
  "from_pattern op vpat =
    (if vp_wildcard vpat
     then case to_star op of
            Some starop \<Rightarrow> from_version starop (vp_version vpat)
          | None \<Rightarrow> Err (OperatorWithStar op)
     else from_version op (vp_version vpat))"

definition specifier_only_release :: "version_specifier \<Rightarrow> version_specifier option" where
  "specifier_only_release s = map_option (\<lambda>v. s\<lparr>sp_version := v\<rparr>) (only_release (sp_version s))"

definition specifier_only_minor_release :: "version_specifier \<Rightarrow> version_specifier option" where
  "specifier_only_minor_release s = map_option (\<lambda>v. s\<lparr>sp_version := v\<rparr>) (only_minor_release (sp_version s))"

abbreviation spec :: "operator \<Rightarrow> version \<Rightarrow> version_specifier" where
  "spec op v \<equiv> \<lparr>sp_operator = op, sp_version = v\<rparr>"

definition equals_version :: "version \<Rightarrow> version_specifier" where
  [simp]: "equals_version version = spec OpEqual version"

definition equals_star_version :: "version \<Rightarrow> version_specifier" where
  [simp]: "equals_star_version version = spec OpEqualStar version"

definition not_equals_star_version :: "version \<Rightarrow> version_specifier" where
  [simp]: "not_equals_star_version version = spec OpNotEqualStar version"

definition not_equals_version :: "version \<Rightarrow> version_specifier" where
  [simp]: "not_equals_version version = spec OpNotEqual version"

definition greater_than_equal_version :: "version \<Rightarrow> version_specifier" where
  [simp]: "greater_than_equal_version version = spec OpGreaterThanEqual version"

definition greater_than_version :: "version \<Rightarrow> version_specifier" where
  [simp]: "greater_than_version version = spec OpGreaterThan version"

definition less_than_equal_version :: "version \<Rightarrow> version_specifier" where
  [simp]: "less_than_equal_version version = spec OpLessThanEqual version"

definition less_than_version :: "version \<Rightarrow> version_specifier" where
  [simp]: "less_than_version version = spec OpLessThan version"

definition specifier_any_prerelease :: "version_specifier \<Rightarrow> bool" where
  "specifier_any_prerelease s = any_prerelease (sp_version s)"

text \<open>
  The comparison of a release prefix: the candidate's release is continued with zeros
  (\<open>chain(repeat(&0))\<close>), and \<open>zip\<close> stops at the end of the prefix.
\<close>

definition release_prefix :: "u64 list \<Rightarrow> u64 list \<Rightarrow> bool" where
  "release_prefix this other =
     list_all (\<lambda>(a, b). a = b) (zip this (other @ replicate (length this) 0))"

text \<open>\<open>contains\<close>; \<open>None\<close> is the failed \<open>assert!\<close> of the \<open>~=\<close> arm.\<close>

definition contains_greater_than :: "version \<Rightarrow> version \<Rightarrow> bool" where
  "contains_greater_than this other =
    (if version_epoch other > version_epoch this then True
     else if compare_release (version_release this) (version_release other) = Equal
             \<and> (\<not> is_post this \<and> is_post other \<or> is_local other) then False
     else version_lt this other)"

definition contains_less_than :: "version \<Rightarrow> version \<Rightarrow> bool" where
  "contains_less_than this other =
    (if version_epoch other < version_epoch this then True
     else if \<not> any_prerelease this \<and> any_prerelease other \<and> version_le (with_dev (Some 0) this) other then False
     else version_lt other this)"

definition contains_tilde :: "version \<Rightarrow> version \<Rightarrow> bool option" where
  "contains_tilde this other =
    (if \<not> length (version_release this) > 1 then None
     else if version_epoch this \<noteq> version_epoch other then Some False
     else if \<not> list_all (\<lambda>(a, b). a = b)
                 (zip (take (length (version_release this) - 1) (version_release this)) (version_release other))
     then Some False
     else Some (version_le this other))"

definition contains :: "version_specifier \<Rightarrow> version \<Rightarrow> bool option" where
  "contains s v =
    (let this = sp_version s;
         other = (if local_is_empty (version_local this) \<and> \<not> local_is_empty (version_local v)
                  then without_local v else v)
     in case sp_operator s of
          OpEqual \<Rightarrow> Some (version_eq other this)
        | OpEqualStar \<Rightarrow> Some (version_epoch this = version_epoch other
                             \<and> release_prefix (version_release this) (version_release other))
        | OpExactEqual \<Rightarrow> Some (version_to_string this = version_to_string v)
        | OpNotEqual \<Rightarrow> Some (\<not> version_eq this other)
        | OpNotEqualStar \<Rightarrow> Some (version_epoch this \<noteq> version_epoch other
                             \<or> \<not> release_prefix (version_release this) (version_release other))
        | OpTildeEqual \<Rightarrow> contains_tilde this other
        | OpGreaterThan \<Rightarrow> Some (contains_greater_than this other)
        | OpGreaterThanEqual \<Rightarrow> Some (version_le this other)
        | OpLessThan \<Rightarrow> Some (contains_less_than this other)
        | OpLessThanEqual \<Rightarrow> Some (version_le other this))"

definition has_lower_bound :: "version_specifier \<Rightarrow> bool" where
  "has_lower_bound s =
    (case sp_operator s of
       OpEqual \<Rightarrow> True | OpEqualStar \<Rightarrow> True | OpExactEqual \<Rightarrow> True | OpTildeEqual \<Rightarrow> True
     | OpGreaterThan \<Rightarrow> True | OpGreaterThanEqual \<Rightarrow> True
     | OpLessThanEqual \<Rightarrow> False | OpLessThan \<Rightarrow> False | OpNotEqualStar \<Rightarrow> False | OpNotEqual \<Rightarrow> False)"

section \<open>Lists of specifiers\<close>

fun specifiers_contains :: "version_specifier list \<Rightarrow> version \<Rightarrow> bool option" where
  "specifiers_contains [] v = Some True"
| "specifiers_contains (s # ss) v =
    (case contains s v of
       None \<Rightarrow> None
     | Some False \<Rightarrow> Some False
     | Some True \<Rightarrow> specifiers_contains ss v)"

definition unsorted_cmp :: "version_specifier \<Rightarrow> version_specifier \<Rightarrow> ordering" where
  "unsorted_cmp a b =
     then_with (version_cmp (sp_version a) (sp_version b)) (cmp (sp_operator a) (sp_operator b))"

definition from_unsorted :: "version_specifier list \<Rightarrow> version_specifier list" where
  "from_unsorted specifiers = sort_by unsorted_cmp specifiers"

definition unwrap :: "('a, 'e) outcome \<Rightarrow> 'a option" where
  "unwrap r = (case r of Ok x \<Rightarrow> Some x | _ \<Rightarrow> None)"

definition from_lower_bound :: "version bound \<Rightarrow> version_specifier list option" where
  "from_lower_bound b =
    (case b of
       Included v \<Rightarrow> map_option (\<lambda>s. [s]) (unwrap (from_version OpGreaterThanEqual v))
     | Excluded v \<Rightarrow> map_option (\<lambda>s. [s]) (unwrap (from_version OpGreaterThan v))
     | Unbounded \<Rightarrow> Some [])"

definition from_upper_bound :: "version bound \<Rightarrow> version_specifier list option" where
  "from_upper_bound b =
    (case b of
       Included v \<Rightarrow> map_option (\<lambda>s. [s]) (unwrap (from_version OpLessThanEqual v))
     | Excluded v \<Rightarrow> map_option (\<lambda>s. [s]) (unwrap (from_version OpLessThan v))
     | Unbounded \<Rightarrow> Some [])"

definition both_bounds :: "version bound \<Rightarrow> version bound \<Rightarrow> version_specifier list option" where
  "both_bounds lower upper =
    (case from_lower_bound lower of
       None \<Rightarrow> None
     | Some l \<Rightarrow> map_option (\<lambda>u. l @ u) (from_upper_bound upper))"

text \<open>
  \<open>VersionSpecifier::from_release_only_bounds\<close>. The increment \<open>minor + 1\<close> wraps around in a
  release build.
\<close>

definition star_bounds :: "version \<Rightarrow> version \<Rightarrow> version_specifier list option" where
  "star_bounds v1 v2 =
    (case only_release_trimmed v1 of
       None \<Rightarrow> None
     | Some t1 \<Rightarrow>
        (case version_release t1 of
           [major] \<Rightarrow>
             (case only_release_trimmed v2 of
                None \<Rightarrow> None
              | Some t2 \<Rightarrow>
                  if version_release t2 = [major, 1]
                  then map_option (\<lambda>v. [equals_star_version v]) (version_new [major, 0])
                  else both_bounds (Included v1) (Excluded v2))
         | [major, minor] \<Rightarrow>
             (case only_release_trimmed v2 of
                None \<Rightarrow> None
              | Some t2 \<Rightarrow>
                  if version_release t2 = [major, minor + 1]
                  then map_option (\<lambda>v. [equals_star_version v]) (version_new [major, minor])
                  else both_bounds (Included v1) (Excluded v2))
         | _ \<Rightarrow> both_bounds (Included v1) (Excluded v2)))"

definition from_release_only_bounds :: "version bound \<times> version bound \<Rightarrow> version_specifier list option" where
  "from_release_only_bounds bounds =
    (case bounds of
       (Included v1, Included v2) \<Rightarrow>
         if version_eq v1 v2 then Some [equals_version v1] else both_bounds (Included v1) (Included v2)
     | (Included v1, Excluded v2) \<Rightarrow> star_bounds v1 v2
     | (lower, upper) \<Rightarrow> both_bounds lower upper)"

text \<open>
  \<open>VersionSpecifiers::from_release_only_bounds\<close>: the specifiers for one hole between two
  neighbouring ranges, the loop over the ranges, and the bounding range.
\<close>

definition stars_between :: "u64 \<Rightarrow> u64 \<Rightarrow> u64 \<Rightarrow> version_specifier list option" where
  "stars_between major lo hi =
     those (map (\<lambda>minor. map_option not_equals_star_version (version_new [major, of_nat minor]))
       [unat lo..<unat hi])"

definition gap_specifiers :: "version bound \<Rightarrow> version bound \<Rightarrow> version_specifier list option" where
  "gap_specifiers prev_end lower =
    (case (prev_end, lower) of
       (Excluded prev, Excluded lower) \<Rightarrow>
         if version_eq prev lower then Some [not_equals_version prev] else Some []
     | (Excluded prev, Included lower) \<Rightarrow>
         (case (only_release_trimmed prev, only_release_trimmed lower) of
            (Some prev, Some lower) \<Rightarrow>
              (case (version_release prev, version_release lower) of
                 ([major], [lower_major, lower_minor]) \<Rightarrow>
                   if major = lower_major then stars_between major 0 lower_minor else Some []
               | ([major, minor], [lower_major, lower_minor]) \<Rightarrow>
                   if major = lower_major \<and> minor < lower_minor
                   then stars_between major minor lower_minor else Some []
               | _ \<Rightarrow> Some [])
          | _ \<Rightarrow> None)
     | _ \<Rightarrow> Some [])"

fun gaps_loop :: "version bound \<Rightarrow> (version bound \<times> version bound) list \<Rightarrow>
    (version_specifier list \<times> version bound) option" where
  "gaps_loop prev_end [] = Some ([], prev_end)"
| "gaps_loop prev_end ((lower, upper) # bounds) =
    (case gap_specifiers prev_end lower of
       None \<Rightarrow> None
     | Some gap \<Rightarrow> map_option (\<lambda>(specifiers, end_bound). (gap @ specifiers, end_bound)) (gaps_loop upper bounds))"

definition specifiers_from_release_only_bounds ::
  "(version bound \<times> version bound) list \<Rightarrow> version_specifier list option" where
  "specifiers_from_release_only_bounds bounds =
    (case bounds of
       [] \<Rightarrow> Some []
     | (start, prev_end) # bounds \<Rightarrow>
         (case gaps_loop prev_end bounds of
            None \<Rightarrow> None
          | Some (specifiers, end_bound) \<Rightarrow>
              map_option (\<lambda>bounding. from_unsorted (specifiers @ bounding))
                (from_release_only_bounds (start, end_bound))))"

section \<open>Parsing and printing specifiers\<close>

type_synonym scanner = "(char \<Rightarrow> bool) \<Rightarrow> string \<Rightarrow> string \<times> string"

text \<open>The ASCII part of \<open>char::is_whitespace\<close>, and the characters of operators.\<close>

definition is_whitespace :: "char \<Rightarrow> bool" where
  "is_whitespace c \<longleftrightarrow> 9 \<le> byte_of c \<and> byte_of c \<le> 13 \<or> byte_of c = 32"

definition is_operator_char :: "char \<Rightarrow> bool" where
  "is_operator_char c \<longleftrightarrow> c \<in> {CHR ''='', CHR ''!'', CHR ''~'', CHR ''<'', CHR ''>''}"

datatype parse_error_kind =
    InvalidOperator string
  | InvalidVersion pattern_error_kind
  | InvalidSpecifier build_error_kind
  | MissingOperator "version_pattern option"
  | MissingVersion
  | InvalidTrailing string

definition map_err :: "('e \<Rightarrow> 'f) \<Rightarrow> ('a, 'e) outcome \<Rightarrow> ('a, 'f) outcome" where
  "map_err f r = (case r of Ok x \<Rightarrow> Ok x | Err e \<Rightarrow> Err (f e) | Panic \<Rightarrow> Panic)"

definition specifier_from_str :: "scanner \<Rightarrow> string \<Rightarrow> (version_specifier, parse_error_kind) outcome" where
  "specifier_from_str eat text =
    (let s = snd (eat is_whitespace text);
         (operator, s) = eat is_operator_char s
     in if operator = []
        then let s = snd (eat is_whitespace s);
                 (version, s) = eat (\<lambda>c. \<not> is_whitespace c) s
             in (case version_pattern_from_str version of
                   Ok vpat \<Rightarrow> Err (MissingOperator (Some vpat))
                 | Err e \<Rightarrow> Err (MissingOperator None)
                 | Panic \<Rightarrow> Panic)
        else and_then (map_err InvalidOperator (operator_from_str operator)) (\<lambda>operator.
             let s = snd (eat is_whitespace s);
                 (version, s) = eat (\<lambda>c. \<not> is_whitespace c) s
             in if version = [] then Err MissingVersion
                else and_then (map_err InvalidVersion (version_pattern_from_str version)) (\<lambda>vpat.
                     and_then (map_err InvalidSpecifier (from_pattern operator vpat)) (\<lambda>version_specifier.
                       let s = snd (eat is_whitespace s)
                       in if s \<noteq> [] then Err (InvalidTrailing s) else Ok version_specifier))))"

definition specifier_to_string :: "version_specifier \<Rightarrow> string" where
  "specifier_to_string s =
    (if sp_operator s = OpEqualStar \<or> sp_operator s = OpNotEqualStar
     then operator_as_str (sp_operator s) @ version_to_string (sp_version s) @ ''.*''
     else operator_as_str (sp_operator s) @ version_to_string (sp_version s))"

record specifiers_parse_error =
  spe_err :: parse_error_kind
  spe_line :: string
  spe_start :: nat
  spe_end :: nat

text \<open>\<open>str::split\<close> at a one-character separator.\<close>

fun split_at :: "char \<Rightarrow> string \<Rightarrow> string list" where
  "split_at sep [] = [[]]"
| "split_at sep (c # cs) =
    (if c = sep then [] # split_at sep cs
     else case split_at sep cs of [] \<Rightarrow> [[c]] | w # ws \<Rightarrow> (c # w) # ws)"

fun parse_specifiers_loop ::
  "scanner \<Rightarrow> string \<Rightarrow> nat \<Rightarrow> string list \<Rightarrow> (version_specifier list, specifiers_parse_error) outcome" where
  "parse_specifiers_loop eat line start [] = Ok []"
| "parse_specifiers_loop eat line start (text # texts) =
    (case specifier_from_str eat text of
       Err err \<Rightarrow> Err \<lparr>spe_err = err, spe_line = line, spe_start = start, spe_end = start + length text\<rparr>
     | Panic \<Rightarrow> Panic
     | Ok s \<Rightarrow> and_then (parse_specifiers_loop eat line (start + length text + 1) texts) (\<lambda>ss. Ok (s # ss)))"

definition parse_version_specifiers ::
  "scanner \<Rightarrow> string \<Rightarrow> (version_specifier list, specifiers_parse_error) outcome" where
  "parse_version_specifiers eat line = parse_specifiers_loop eat line 0 (split_at CHR '','' line)"

definition specifiers_from_str ::
  "scanner \<Rightarrow> string \<Rightarrow> (version_specifier list, specifiers_parse_error) outcome" where
  "specifiers_from_str eat s =
    (if length (filter (\<lambda>c. c = CHR '','') s) = 0
     then if s = [] then Ok []
          else map_err (\<lambda>err. \<lparr>spe_err = err, spe_line = s, spe_start = 0, spe_end = length s\<rparr>)
                 (and_then (specifier_from_str eat s) (\<lambda>specifier. Ok [specifier]))
     else and_then (parse_version_specifiers eat s) (\<lambda>specifiers. Ok (from_unsorted specifiers)))"

fun specifiers_to_string :: "version_specifier list \<Rightarrow> string" where
  "specifiers_to_string [] = []"
| "specifiers_to_string (s # ss) = specifier_to_string s @ concat (map (\<lambda>s. '', '' @ specifier_to_string s) ss)"

section \<open>Compatible-release specifiers\<close>

definition tilde_new :: "version_specifier \<Rightarrow> version_specifier option" where
  "tilde_new s =
    (if sp_operator s \<noteq> OpTildeEqual then None
     else if length (version_release (sp_version s)) < 2 \<or> length (version_release (sp_version s)) > 3 then None
     else if any_prerelease (sp_version s) \<or> is_local (sp_version s) \<or> is_post (sp_version s) then None
     else Some s)"

definition has_patch :: "version_specifier \<Rightarrow> bool" where
  "has_patch t \<longleftrightarrow> length (version_release (sp_version t)) = 3"

definition bounding_specifiers :: "version_specifier \<Rightarrow> (version_specifier \<times> version_specifier) option" where
  "bounding_specifiers t =
    (let release = version_release (sp_version t)
     in map_option (\<lambda>upper. (greater_than_equal_version (sp_version t), less_than_version upper))
          (if has_patch t then version_new [release ! 0, release ! 1 + 1] else version_new [release ! 0 + 1]))"

definition with_patch_version :: "u64 \<Rightarrow> version_specifier \<Rightarrow> version_specifier option" where
  "with_patch_version patch t =
    (let release = version_release (sp_version t);
         release = (if has_patch t then butlast release else release) @ [patch]
     in case version_new release of
          None \<Rightarrow> None
        | Some v \<Rightarrow> (case unwrap (from_version OpTildeEqual v) of None \<Rightarrow> None | Some s \<Rightarrow> tilde_new s))"

end
