(* ===== verification/Version_Specifier_Facts.thy ===== *)
theory Version_Specifier_Facts
  imports Version_Specifier
begin

text \<open>
  Version specifiers: the order, equality and hash agree; sets of specifiers are conjunctions and
  do not depend on the order they were given in; which versions the operators contain; the
  compatible-release operator and the specifiers made from bounds.
\<close>

section \<open>Order, equality and hash of specifiers\<close>

abbreviation specifier_wf :: "version_specifier \<Rightarrow> bool" where
  "specifier_wf s \<equiv> wf_version (sp_version s)"

definition specifier_key where
  "specifier_key s = (sp_operator s, version_key (sp_version s),
     if sp_operator s = OpTildeEqual then length (version_release (sp_version s)) else 0)"

lemma specifier_cmp_key:
  assumes "specifier_wf a" "specifier_wf b"
  shows "specifier_cmp a b = cmp (specifier_key a) (specifier_key b)"
proof (cases "sp_operator a = sp_operator b")
  case True
  then show ?thesis using assms by (simp add: specifier_cmp_def specifier_key_def version_cmp_key cmp_Pair)
next
  case False
  then have "then_with (cmp (sp_operator a) (sp_operator b)) x = cmp (sp_operator a) (sp_operator b)" for x
    by (intro then_with_neq) simp
  then show ?thesis unfolding specifier_cmp_def specifier_key_def cmp_Pair by simp
qed

interpretation specifier_ord: rust_ord specifier_wf specifier_cmp
  by (rule rust_ord_key [of _ _ specifier_key]) (rule specifier_cmp_key)

lemma specifier_eq_cmp:
  assumes "specifier_wf a" "specifier_wf b"
  shows "specifier_eq a b \<longleftrightarrow> specifier_cmp a b = Equal"
  using assms by (auto simp: specifier_cmp_key specifier_eq_def specifier_key_def version_order_key)

lemma specifier_eq_hash:
  assumes "pep440 (sp_version a)" "pep440 (sp_version b)" "specifier_eq a b"
  shows "specifier_hash a = specifier_hash b"
proof -
  have "version_eq (sp_version a) (sp_version b)" using assms(3) by (simp add: specifier_eq_def split: if_splits)
  then have "version_hash (sp_version a) = version_hash (sp_version b)" by (rule version_eq_hash [OF assms(1,2)])
  then show ?thesis using assms(3) by (simp add: specifier_eq_def specifier_hash_def split: if_splits)
qed

definition unsorted_key where
  "unsorted_key s = (version_key (sp_version s), sp_operator s)"

lemma unsorted_cmp_key:
  assumes "specifier_wf a" "specifier_wf b"
  shows "unsorted_cmp a b = cmp (unsorted_key a) (unsorted_key b)"
  using assms by (simp add: unsorted_cmp_def unsorted_key_def version_cmp_key cmp_Pair)

interpretation unsorted_ord: rust_ord specifier_wf unsorted_cmp
  by (rule rust_ord_key [of _ _ unsorted_key]) (rule unsorted_cmp_key)

lemma from_unsorted_mset [simp]: "mset (from_unsorted ss) = mset ss"
  by (simp add: from_unsorted_def)

lemma from_unsorted_sorted_key:
  assumes "\<forall>s \<in> set ss. specifier_wf s"
  shows "sorted (map unsorted_key (from_unsorted ss))"
proof -
  have "sorted_wrt (\<lambda>a b. unsorted_cmp a b \<noteq> Greater) (from_unsorted ss)"
    unfolding from_unsorted_def using assms by (rule unsorted_ord.sort_by_sorted)
  moreover have "\<forall>s \<in> set (from_unsorted ss). specifier_wf s"
    using assms by (metis from_unsorted_mset set_mset_mset)
  ultimately show ?thesis
    unfolding sorted_map by (elim sorted_wrt_mono_rel [rotated]) (simp add: unsorted_cmp_key)
qed

lemma from_unsorted_normal:
  assumes "\<forall>s \<in> set ss. specifier_wf s" "mset ss = mset ts"
  shows "map unsorted_key (from_unsorted ss) = map unsorted_key (from_unsorted ts)"
proof -
  have "\<forall>s \<in> set ts. specifier_wf s" using assms by (metis set_mset_mset)
  moreover have "mset (map unsorted_key (from_unsorted ss)) = mset (map unsorted_key (from_unsorted ts))"
    using assms(2) by simp
  ultimately have "sort (map unsorted_key (from_unsorted ss)) = map unsorted_key (from_unsorted ts)"
    by (intro properties_for_sort from_unsorted_sorted_key) simp_all
  then show ?thesis using from_unsorted_sorted_key [OF assms(1)] by (simp add: sorted_sort_id)
qed

section \<open>Sets of specifiers\<close>

lemma specifiers_contains_True:
  "specifiers_contains ss v = Some True \<longleftrightarrow> (\<forall>s \<in> set ss. contains s v = Some True)"
  by (induction ss) (auto split: option.splits bool.splits)

text \<open>A specifier that \<open>from_version\<close> accepts does not panic in \<open>contains\<close>.\<close>

definition valid_specifier :: "version_specifier \<Rightarrow> bool" where
  "valid_specifier s \<longleftrightarrow> from_version (sp_operator s) (sp_version s) = Ok s"

lemma contains_valid: "valid_specifier s \<Longrightarrow> contains s v \<noteq> None"
  by (cases s) (auto simp: valid_specifier_def from_version_def contains_def contains_tilde_def Let_def
      split: operator.splits if_splits)

lemma specifiers_contains_valid:
  assumes "\<forall>s \<in> set ss. valid_specifier s"
  shows "specifiers_contains ss v = Some (\<forall>s \<in> set ss. contains s v = Some True)"
  using assms by (induction ss) (auto dest: contains_valid [of _ v] split: option.splits bool.splits)

lemma specifiers_contains_unsorted:
  assumes "\<forall>s \<in> set ss. valid_specifier s"
  shows "specifiers_contains (from_unsorted ss) v = specifiers_contains ss v"
proof -
  have "set (from_unsorted ss) = set ss" by (metis from_unsorted_mset set_mset_mset)
  then show ?thesis using assms by (simp add: specifiers_contains_valid)
qed

section \<open>Releases as zero-padded sequences\<close>

lemma release_prefix_iff: "release_prefix this other \<longleftrightarrow> (\<forall>i < length this. get_or_zero other i = this ! i)"
proof -
  have "zip this (other @ replicate (length this) 0) ! i = (this ! i, get_or_zero other i)" if "i < length this" for i
    using that by (simp add: nth_append get_or_zero_def)
  then show ?thesis
    by (auto simp: release_prefix_def list_all_length)
qed

lemma trim_release_le_iff:
  "trim_release xs \<le> trim_release ys \<longleftrightarrow> \<not> (\<exists>i. (\<forall>j < i. get_or_zero ys j = get_or_zero xs j) \<and> get_or_zero ys i < get_or_zero xs i)"
  using trim_release_less_iff [of ys xs] by (simp add: linorder_not_less [symmetric])

text \<open>
  A release at least \<open>a\<close> and below the release that agrees with \<open>a\<close> up to a position, is one
  larger there and zero beyond, agrees with \<open>a\<close> up to and at that position.
\<close>

lemma release_squeeze:
  assumes b: "\<And>j. j < k \<Longrightarrow> get_or_zero b j = get_or_zero a j" "get_or_zero b k = get_or_zero a k + 1"
    "\<And>j. k < j \<Longrightarrow> get_or_zero b j = 0" and m: "get_or_zero a k \<noteq> u64_max"
  shows "trim_release a \<le> trim_release r \<and> trim_release r < trim_release b \<longleftrightarrow>
    trim_release a \<le> trim_release r \<and> (\<forall>j \<le> k. get_or_zero r j = get_or_zero a j)"
proof (intro conj_cong refl iffI)
  have lt: "get_or_zero a k < get_or_zero b k" "x \<le> get_or_zero a k" if "x < get_or_zero b k" for x
    using m that below_max_less by (auto simp: b(2) word_less_nat_alt word_le_nat_alt unat_plus_one)
  have up: "get_or_zero a k < get_or_zero b k" using m by (simp add: b(2) word_less_nat_alt unat_plus_one)
  assume ar: "trim_release a \<le> trim_release r"
  {
    assume rb: "trim_release r < trim_release b"
    then obtain i where i: "\<forall>j < i. get_or_zero r j = get_or_zero b j" "get_or_zero r i < get_or_zero b i"
      by (auto simp: trim_release_less_iff)
    have "i \<le> k" using i(2) b(3) by (metis not_le word_not_simps(1))
    have "i = k"
    proof (rule ccontr)
      assume "i \<noteq> k"
      then have "i < k" using \<open>i \<le> k\<close> by simp
      then have "(\<forall>j < i. get_or_zero r j = get_or_zero a j) \<and> get_or_zero r i < get_or_zero a i"
        using i b(1) by auto
      then show False using ar unfolding trim_release_le_iff by blast
    qed
    moreover have "get_or_zero r k = get_or_zero a k"
    proof (rule ccontr)
      assume "get_or_zero r k \<noteq> get_or_zero a k"
      then have "get_or_zero r k < get_or_zero a k" using i(2) lt(2) \<open>i = k\<close> by (metis order_le_less)
      then have "(\<forall>j < k. get_or_zero r j = get_or_zero a j) \<and> get_or_zero r k < get_or_zero a k"
        using i b(1) \<open>i = k\<close> by auto
      then show False using ar unfolding trim_release_le_iff by blast
    qed
    ultimately show "\<forall>j \<le> k. get_or_zero r j = get_or_zero a j"
      using i(1) b(1) by (metis order_le_less)
  }
  assume eq: "\<forall>j \<le> k. get_or_zero r j = get_or_zero a j"
  then show "trim_release r < trim_release b"
    unfolding trim_release_less_iff using up b(1) by (intro exI [of _ k]) auto
qed

lemma release_prefix_le:
  assumes "\<forall>j \<le> k. get_or_zero r j = get_or_zero a j" "\<And>j. k < j \<Longrightarrow> get_or_zero a j = 0"
  shows "trim_release a \<le> trim_release r"
  unfolding trim_release_le_iff
proof clarify
  fix i assume "get_or_zero r i < get_or_zero a i"
  then show False using assms by (cases "i \<le> k") auto
qed

section \<open>Matching a version\<close>

text \<open>What \<open>contains\<close> compares with: the candidate without its local version, unless the specifier has one.\<close>

definition candidate :: "version \<Rightarrow> version \<Rightarrow> version" where
  "candidate this v =
    (if local_is_empty (version_local this) \<and> \<not> local_is_empty (version_local v) then without_local v else v)"

lemma candidate_facts:
  assumes "pep440 v"
  shows "pep440 (candidate this v)" "version_epoch (candidate this v) = version_epoch v"
    "version_release (candidate this v) = version_release v" "version_pre (candidate this v) = version_pre v"
    "version_post (candidate this v) = version_post v" "version_dev (candidate this v) = version_dev v"
    "local_is_empty (version_local this) \<Longrightarrow> version_local (candidate this v) = Segments []"
proof -
  have w: "wf_version v" using assms by (simp add: pep440_def)
  have f: "make_full (without_local v) = (make_full v)\<lparr>f_local := Segments []\<rparr>" "wf_version (without_local v)"
    using w by (simp_all add: version_refine version_inv local_empty_def)
  show "pep440 (candidate this v)" "version_epoch (candidate this v) = version_epoch v"
    "version_release (candidate this v) = version_release v" "version_pre (candidate this v) = version_pre v"
    "version_post (candidate this v) = version_post v" "version_dev (candidate this v) = version_dev v"
    using assms f(2) by (simp_all add: candidate_def pep440_def accessors_make_full f(1))
  assume "local_is_empty (version_local this)"
  then show "version_local (candidate this v) = Segments []"
    by (cases "version_local v") (auto simp: candidate_def accessors_make_full f(1))
qed

lemma contains_candidate:
  "contains s v =
    (let this = sp_version s; other = candidate (sp_version s) v
     in case sp_operator s of
          OpEqual \<Rightarrow> Some (version_eq other this)
        | OpEqualStar \<Rightarrow> Some (version_epoch this = version_epoch other
                             \<and> release_prefix (version_release this) (version_release other))
        | OpExactEqual \<Rightarrow> Some (version_to_string this = version_to_string v)
        | OpNotEqual \<Rightarrow> Some (\<not> version_eq this other)
        | OpNotEqualStar \<Rightarrow> Some (version_epoch this \<noteq> version_epoch other
                             \<or> \<not> release_prefix (version_release this) (version_release other))
        | OpTildeEqual \<Rightarrow> contains_tilde this other
        | OpGreaterThan \<Rightarrow> Some (contains_greater_than this other)
        | OpGreaterThanEqual \<Rightarrow> Some (version_le this other)
        | OpLessThan \<Rightarrow> Some (contains_less_than this other)
        | OpLessThanEqual \<Rightarrow> Some (version_le other this))"
  by (simp add: contains_def candidate_def Let_def)

lemma version_le_cases:
  assumes "wf_version a" "wf_version b"
  shows "version_le a b \<longleftrightarrow> version_epoch a < version_epoch b \<or> version_epoch a = version_epoch b \<and>
    (trim_release (version_release a) < trim_release (version_release b)
     \<or> trim_release (version_release a) = trim_release (version_release b) \<and> sortable_tuple a \<le> sortable_tuple b)"
  and "version_lt a b \<longleftrightarrow> version_epoch a < version_epoch b \<or> version_epoch a = version_epoch b \<and>
    (trim_release (version_release a) < trim_release (version_release b)
     \<or> trim_release (version_release a) = trim_release (version_release b) \<and> sortable_tuple a < sortable_tuple b)"
  using assms by (auto simp: version_order_key version_key_def)

subsection \<open>Compatible release\<close>

lemma contains_tilde_eq:
  assumes "wf_version this" "wf_version other" "length (version_release this) > 1"
  shows "contains_tilde this other = Some (version_epoch this = version_epoch other \<and> version_le this other
    \<and> release_prefix (butlast (version_release this)) (version_release other))"
proof (cases "version_epoch this = version_epoch other \<and> version_le this other")
  case True
  let ?r = "version_release this" and ?o = "version_release other"
  let ?n = "length ?r - 1"
  have le: "trim_release ?r \<le> trim_release ?o"
    using True version_le_cases(1) [OF assms(1,2)] by auto
  have "list_all (\<lambda>(a, b). a = b) (zip (take ?n ?r) ?o) \<longleftrightarrow> release_prefix (butlast ?r) ?o"
  proof
    assume "release_prefix (butlast ?r) ?o"
    then show "list_all (\<lambda>(a, b). a = b) (zip (take ?n ?r) ?o)"
      by (auto simp: release_prefix_iff list_all_length nth_butlast get_or_zero_def split: if_splits)
  next
    assume z: "list_all (\<lambda>(a, b). a = b) (zip (take ?n ?r) ?o)"
    have "get_or_zero ?o i = get_or_zero ?r i" if "i < ?n" for i
      using that
    proof (induction i rule: less_induct)
      case (less i)
      show ?case
      proof (cases "i < length ?o")
        case True
        then show ?thesis using z less.prems by (auto simp: list_all_length get_or_zero_def)
      next
        case False
        then have "get_or_zero ?o i = 0" by (simp add: get_or_zero_def)
        moreover have "\<not> get_or_zero ?o i < get_or_zero ?r i"
          using le less by (auto simp: trim_release_le_iff)
        ultimately show ?thesis by (simp add: word_gt_0)
      qed
    qed
    then show "release_prefix (butlast ?r) ?o"
      by (auto simp: release_prefix_iff nth_butlast get_or_zero_def)
  qed
  then show ?thesis using True assms(3) by (simp add: contains_tilde_def)
next
  case False
  then show ?thesis using assms(3) by (auto simp: contains_tilde_def)
qed

subsection \<open>Release-only versions\<close>

text \<open>The versions Python interpreters have: a release, and nothing else.\<close>

definition release_only_version :: "version \<Rightarrow> bool" where
  "release_only_version v \<longleftrightarrow> wf_version v \<and> version_epoch v = 0 \<and> version_pre v = None \<and> version_post v = None
     \<and> version_dev v = None \<and> version_local v = Segments [] \<and> version_min v = None \<and> version_max v = None"

lemma release_only_tuple: "release_only_version v \<Longrightarrow> sortable_tuple v = (5, 0, None, 0, Segments [])"
  by (simp add: release_only_version_def sortable_tuple_real)

lemma release_only_order:
  assumes "release_only_version a" "release_only_version b"
  shows "version_le a b \<longleftrightarrow> trim_release (version_release a) \<le> trim_release (version_release b)"
    "version_lt a b \<longleftrightarrow> trim_release (version_release a) < trim_release (version_release b)"
    "version_eq a b \<longleftrightarrow> trim_release (version_release a) = trim_release (version_release b)"
proof -
  have "wf_version a" "wf_version b" "version_epoch a = 0" "version_epoch b = 0"
    using assms by (simp_all add: release_only_version_def)
  then show "version_le a b \<longleftrightarrow> trim_release (version_release a) \<le> trim_release (version_release b)"
    "version_lt a b \<longleftrightarrow> trim_release (version_release a) < trim_release (version_release b)"
    "version_eq a b \<longleftrightarrow> trim_release (version_release a) = trim_release (version_release b)"
    using release_only_tuple assms by (auto simp: version_order_key version_key_def)
qed

lemma version_new_release_only:
  assumes "ns \<noteq> []"
  obtains w where "version_new ns = Some w" "release_only_version w" "version_release w = ns"
proof -
  obtain w where w: "version_new ns = Some w" "wf_version w" "make_full w = release_only ns"
    using version_new_eq [OF assms(1)] by blast
  then show thesis using that [of w] assms
    by (simp add: release_only_version_def accessors_make_full release_only_def)
qed

lemma contains_release_only:
  assumes "release_only_version a" "release_only_version v"
  shows "contains (spec OpEqual a) v = Some (trim_release (version_release v) = trim_release (version_release a))"
    "contains (spec OpNotEqual a) v = Some (trim_release (version_release v) \<noteq> trim_release (version_release a))"
    "contains (spec OpEqualStar a) v = Some (release_prefix (version_release a) (version_release v))"
    "contains (spec OpNotEqualStar a) v = Some (\<not> release_prefix (version_release a) (version_release v))"
    "contains (spec OpLessThan a) v = Some (trim_release (version_release v) < trim_release (version_release a))"
    "contains (spec OpLessThanEqual a) v = Some (trim_release (version_release v) \<le> trim_release (version_release a))"
    "contains (spec OpGreaterThan a) v = Some (trim_release (version_release a) < trim_release (version_release v))"
    "contains (spec OpGreaterThanEqual a) v = Some (trim_release (version_release a) \<le> trim_release (version_release v))"
proof -
  have c: "candidate a v = v" using assms by (simp add: candidate_def release_only_version_def)
  have e: "version_epoch a = 0" "version_epoch v = 0" "\<not> any_prerelease v" "\<not> is_post v" "\<not> is_local v"
    using assms by (simp_all add: release_only_version_def any_prerelease_def is_pre_def is_dev_def is_post_def is_local_def)
  note o = release_only_order [OF assms] release_only_order [OF assms(2,1)]
  show "contains (spec OpEqual a) v = Some (trim_release (version_release v) = trim_release (version_release a))"
    "contains (spec OpNotEqual a) v = Some (trim_release (version_release v) \<noteq> trim_release (version_release a))"
    "contains (spec OpEqualStar a) v = Some (release_prefix (version_release a) (version_release v))"
    "contains (spec OpNotEqualStar a) v = Some (\<not> release_prefix (version_release a) (version_release v))"
    "contains (spec OpLessThan a) v = Some (trim_release (version_release v) < trim_release (version_release a))"
    "contains (spec OpLessThanEqual a) v = Some (trim_release (version_release v) \<le> trim_release (version_release a))"
    "contains (spec OpGreaterThan a) v = Some (trim_release (version_release a) < trim_release (version_release v))"
    "contains (spec OpGreaterThanEqual a) v = Some (trim_release (version_release a) \<le> trim_release (version_release v))"
    by (auto simp: contains_candidate c o e Let_def contains_less_than_def contains_greater_than_def)
qed

lemma contains_negate:
  assumes "release_only_version a" "release_only_version v" "negate op = Some nop" "op \<noteq> OpExactEqual"
  shows "contains (spec nop a) v = map_option Not (contains (spec op a) v)"
  using assms(3,4) by (cases op) (auto simp: contains_release_only [OF assms(1,2)])

subsection \<open>Bounds of a compatible-release specifier\<close>

lemma final_not_below_prerelease:
  assumes "pep440 other" "version_local other = Segments []" "sortable_tuple other < (5, 0, None, 0, Segments [])"
  shows "any_prerelease other \<and> (1, 0, None, 0, Segments []) \<le> sortable_tuple other"
proof -
  note t = sortable_tuple_real [of other]
  have n: "version_min other = None" "version_max other = None" using assms(1) by (simp_all add: pep440_def)
  show ?thesis
  proof (cases "version_pre other")
    case (Some p)
    then show ?thesis using n t
      by (cases "pre_kind p") (auto simp: any_prerelease_def is_pre_def less_eq_prod_def)
  next
    case None
    then show ?thesis using n t assms(2,3)
      by (cases "version_post other"; cases "version_dev other") (auto simp: any_prerelease_def is_dev_def less_prod_def less_eq_prod_def)
  qed
qed

lemma contains_less_than_release:
  assumes "release_only_version upper" "pep440 other" "version_local other = Segments []"
  shows "contains_less_than upper other \<longleftrightarrow>
    version_epoch other = 0 \<and> trim_release (version_release other) < trim_release (version_release upper)"
proof -
  have u: "wf_version upper" "version_epoch upper = 0" "\<not> any_prerelease upper" "wf_version other"
    using assms by (simp_all add: release_only_version_def pep440_def any_prerelease_def is_pre_def is_dev_def)
  define d where "d = with_dev (Some 0) upper"
  have d: "make_full d = (make_full upper)\<lparr>f_dev := Some 0\<rparr>" "wf_version d"
    using u(1) by (simp_all add: d_def version_refine version_inv)
  have dc: "version_epoch d = 0" "version_release d = version_release upper" "sortable_tuple d = (1, 0, None, 0, Segments [])"
    using assms(1) d u(2)
    by (simp_all add: accessors_make_full release_only_version_def sortable_tuple_real)
  note le = version_le_cases(1) [OF d(2) u(4)] and lt = version_le_cases(2) [OF u(4,1)]
  have t: "sortable_tuple upper = (5, 0, None, 0, Segments [])" using assms(1) by (rule release_only_tuple)
  show ?thesis
  proof (cases "trim_release (version_release other) = trim_release (version_release upper)")
    case True
    then show ?thesis using le lt u dc t final_not_below_prerelease [OF assms(2,3)]
      by (auto simp: contains_less_than_def d_def [symmetric])
  next
    case False
    then show ?thesis using le lt u dc t by (auto simp: contains_less_than_def d_def [symmetric])
  qed
qed

lemma specifiers_contains_pair:
  "contains a v = Some x \<Longrightarrow> contains b v = Some y \<Longrightarrow> specifiers_contains [a, b] v = Some (x \<and> y)"
  by (cases x; cases y) simp_all

lemma bounding_specifiers_eq:
  assumes "tilde_new s = Some t" "pep440 (sp_version s)" "version_epoch (sp_version s) = 0" "pep440 v"
  shows "\<exists>lower upper. bounding_specifiers t = Some (lower, upper)
    \<and> specifiers_contains [lower, upper] v = contains t v"
proof -
  let ?a = "sp_version s" and ?r = "version_release (sp_version s)"
  have t: "t = s" "sp_operator s = OpTildeEqual" "length ?r = 2 \<or> length ?r = 3" "\<not> any_prerelease ?a" "\<not> is_local ?a"
    "\<not> is_post ?a"
    using assms(1) by (auto simp: tilde_new_def split: if_splits)
  have le: "local_is_empty (version_local ?a)" using t(5) by (simp add: is_local_def)
  define k where "k = length ?r - 2"
  have k: "k < length ?r" "Suc (Suc k) = length ?r" "k = 0 \<or> k = 1" using t(3) by (auto simp: k_def)
  have max: "?r ! k \<noteq> u64_max" using assms(2) nth_mem [OF k(1)] by (auto simp: pep440_def)
  define ups where "ups = take k ?r @ [?r ! k + 1]"
  have ups: "ups = (if has_patch s then [?r ! 0, ?r ! 1 + 1] else [?r ! 0 + 1])"
    using t(3) by (auto simp: ups_def k_def has_patch_def take_Suc_conv_app_nth numeral_3_eq_3)
  obtain w where w: "version_new ups = Some w" "release_only_version w" "version_release w = ups"
    using version_new_release_only [of ups] by (auto simp: ups_def)
  let ?o = "candidate ?a v"
  note c = candidate_facts [OF assms(4), of ?a]
  have o: "pep440 ?o" "version_local ?o = Segments []" "wf_version ?o" "wf_version ?a"
    using c le assms(2) by (simp_all add: pep440_def)
  have cw: "candidate w v = ?o" using w(2) le by (simp add: candidate_def release_only_version_def)
  have b: "\<And>j. j < k \<Longrightarrow> get_or_zero ups j = get_or_zero ?r j" "get_or_zero ups k = get_or_zero ?r k + 1"
    "\<And>j. k < j \<Longrightarrow> get_or_zero ups j = 0" "get_or_zero ?r k \<noteq> u64_max"
    using k max by (auto simp: ups_def get_or_zero_def nth_append)
  note sq = release_squeeze [of k ups ?r "version_release ?o", OF b]
  have pre: "release_prefix (butlast ?r) (version_release ?o) \<longleftrightarrow> (\<forall>j \<le> k. get_or_zero (version_release ?o) j = get_or_zero ?r j)"
  proof -
    have "length (butlast ?r) = Suc k" using k(2) by simp
    moreover have "butlast ?r ! j = get_or_zero ?r j" if "j \<le> k" for j
      using that k(2) by (simp add: nth_butlast get_or_zero_def)
    ultimately show ?thesis by (simp add: release_prefix_iff less_Suc_eq_le)
  qed
  have tilde: "contains t v = Some (0 = version_epoch ?o \<and> version_le ?a ?o \<and> release_prefix (butlast ?r) (version_release ?o))"
    using t contains_tilde_eq [OF o(4,3)] k assms(3) by (simp add: contains_candidate)
  have lo: "contains (spec OpGreaterThanEqual ?a) v = Some (version_le ?a ?o)"
    and hi: "contains (spec OpLessThan w) v = Some (version_epoch ?o = 0 \<and> trim_release (version_release ?o) < trim_release ups)"
    using contains_less_than_release [OF w(2) o(1,2)] w(3) by (simp_all add: contains_candidate cw)
  have "version_epoch ?o = 0 \<Longrightarrow> version_le ?a ?o \<Longrightarrow> trim_release ?r \<le> trim_release (version_release ?o)"
    using version_le_cases(1) [OF o(4,3)] assms(3) by auto
  then have "version_le ?a ?o \<and> version_epoch ?o = 0 \<and> trim_release (version_release ?o) < trim_release ups \<longleftrightarrow>
      0 = version_epoch ?o \<and> version_le ?a ?o \<and> release_prefix (butlast ?r) (version_release ?o)"
    using sq unfolding pre by (metis (no_types))
  then have "specifiers_contains [spec OpGreaterThanEqual ?a, spec OpLessThan w] v = contains t v"
    unfolding specifiers_contains_pair [OF lo hi] tilde by simp
  moreover have "bounding_specifiers t = Some (spec OpGreaterThanEqual ?a, spec OpLessThan w)"
    using t(1) w(1) ups by (auto simp: bounding_specifiers_def Let_def)
  ultimately show ?thesis by blast
qed

subsection \<open>Specifiers for release-only bounds\<close>

fun in_lower :: "version bound \<Rightarrow> version \<Rightarrow> bool" where
  "in_lower (Included x) v = version_le x v"
| "in_lower (Excluded x) v = version_lt x v"
| "in_lower Unbounded v = True"

fun in_upper :: "version bound \<Rightarrow> version \<Rightarrow> bool" where
  "in_upper (Included x) v = version_le v x"
| "in_upper (Excluded x) v = version_lt v x"
| "in_upper Unbounded v = True"

fun release_only_bound :: "version bound \<Rightarrow> bool" where
  "release_only_bound (Included x) \<longleftrightarrow> release_only_version x \<and> version_release x \<noteq> []"
| "release_only_bound (Excluded x) \<longleftrightarrow> release_only_version x \<and> version_release x \<noteq> []"
| "release_only_bound Unbounded \<longleftrightarrow> True"

lemma from_version_release_only:
  "release_only_version x \<Longrightarrow> op \<noteq> OpTildeEqual \<Longrightarrow> from_version op x = Ok (spec op x)"
  by (simp add: from_version_def release_only_version_def is_local_def)

lemma both_bounds_contains:
  assumes "release_only_bound l" "release_only_bound u" "release_only_version v"
  shows "\<exists>ss. both_bounds l u = Some ss \<and> specifiers_contains ss v = Some (in_lower l v \<and> in_upper u v)"
  using assms
  by (cases l; cases u)
    (auto simp: both_bounds_def from_lower_bound_def from_upper_bound_def from_version_release_only unwrap_def
      contains_release_only release_only_order split: bool.split)

lemma trimmed_get:
  "get_or_zero (if trim_release xs = [] then [0] else trim_release xs) i = get_or_zero xs i"
proof -
  have "trim_release (trim_release xs) = trim_release xs" by (simp add: trim_release_def)
  moreover have "trim_release [0] = []" by (simp add: trim_release_def)
  ultimately have "trim_release (if trim_release xs = [] then [0] else trim_release xs) = trim_release xs" by simp
  then show ?thesis by (simp only: trim_release_eq_iff)
qed

lemma only_release_trimmed_get:
  assumes "release_only_version v" "version_release v \<noteq> []"
  obtains t where "only_release_trimmed v = Some t" "\<And>i. get_or_zero (version_release t) i = get_or_zero (version_release v) i"
    "last (version_release t) \<noteq> 0 \<or> version_release t = [0]" "version_release t \<noteq> []"
proof -
  let ?r = "version_release v"
  obtain t where t: "only_release_trimmed v = Some t" "wf_version t"
    "make_full t = release_only (if trim_release ?r = [] then [0] else trim_release ?r)"
    using assms only_release_trimmed_eq [of v] by (auto simp: release_only_version_def)
  then have rel: "version_release t = (if trim_release ?r = [] then [0] else trim_release ?r)"
    by (simp add: accessors_make_full release_only_def)
  have "trim_release ?r \<noteq> [] \<Longrightarrow> last (trim_release ?r) \<noteq> 0"
    unfolding trim_release_def last_rev rev_is_Nil_conv by (drule hd_dropWhile) simp
  then show thesis using that [OF t(1)] trimmed_get [of ?r] by (auto simp: rel)
qed

lemma star_contains:
  assumes "release_only_version v1" "release_only_version v2" "release_only_version v"
    "\<And>i. get_or_zero [major, minor] i = get_or_zero (version_release v1) i"
    "\<And>i. get_or_zero [major, minor + 1] i = get_or_zero (version_release v2) i" "minor \<noteq> u64_max"
  shows "\<exists>w. version_new [major, minor] = Some w \<and> specifiers_contains [spec OpEqualStar w] v
     = Some (version_le v1 v \<and> version_lt v v2)"
proof -
  obtain w where w: "version_new [major, minor] = Some w" "release_only_version w" "version_release w = [major, minor]"
    using version_new_release_only [of "[major, minor]"] by auto
  let ?g = "\<lambda>x i. get_or_zero (version_release x) i"
  have z: "get_or_zero [x, y] j = 0" if "1 < j" for x y j using that by (simp add: get_or_zero_def)
  have p: "release_prefix [major, minor] (version_release v) \<longleftrightarrow> (\<forall>j \<le> 1. ?g v j = ?g v1 j)"
    unfolding release_prefix_iff assms(4) [symmetric] by (auto simp: get_or_zero_def less_Suc_eq_le le_Suc_eq)
  have "?g v2 j = ?g v1 j" if "j < 1" for j
    using that unfolding assms(4,5) [symmetric] by (simp add: get_or_zero_def)
  moreover have "?g v2 1 = ?g v1 1 + 1" unfolding assms(4,5) [symmetric] by (simp add: get_or_zero_def)
  moreover have "?g v2 j = 0" if "1 < j" for j unfolding assms(5) [symmetric] using that by (rule z)
  moreover have "?g v1 1 \<noteq> u64_max" unfolding assms(4) [symmetric] using assms(6) by (simp add: get_or_zero_def)
  ultimately have sq: "trim_release (version_release v1) \<le> trim_release (version_release v)
      \<and> trim_release (version_release v) < trim_release (version_release v2) \<longleftrightarrow>
      trim_release (version_release v1) \<le> trim_release (version_release v) \<and> (\<forall>j \<le> 1. ?g v j = ?g v1 j)"
    by (rule release_squeeze)
  have "?g v1 j = 0" if "1 < j" for j unfolding assms(4) [symmetric] using that by (rule z)
  then have "trim_release (version_release v1) \<le> trim_release (version_release v)" if "\<forall>j \<le> 1. ?g v j = ?g v1 j"
    using that by (intro release_prefix_le [of 1]) auto
  then have "release_prefix [major, minor] (version_release v) \<longleftrightarrow> version_le v1 v \<and> version_lt v v2"
    unfolding p release_only_order(1) [OF assms(1,3)] release_only_order(2) [OF assms(3,2)] using sq by blast
  then have "contains (spec OpEqualStar w) v = Some (version_le v1 v \<and> version_lt v v2)"
    using contains_release_only(3) [OF w(2) assms(3)] w(3) by simp
  then show ?thesis using w(1) by (auto split: bool.split)
qed

lemma star_bounds_contains:
  assumes "release_only_bound (Included v1)" "release_only_bound (Excluded v2)" "release_only_version v"
  shows "\<exists>ss. star_bounds v1 v2 = Some ss \<and> specifiers_contains ss v = Some (version_le v1 v \<and> version_lt v v2)"
proof -
  note both = both_bounds_contains [OF assms, simplified in_lower.simps in_upper.simps]
  obtain t1 where t1: "only_release_trimmed v1 = Some t1" "\<And>i. get_or_zero (version_release t1) i = get_or_zero (version_release v1) i"
    using only_release_trimmed_get [of v1] assms(1) by (metis release_only_bound.simps(1))
  obtain t2 where t2: "only_release_trimmed v2 = Some t2" "\<And>i. get_or_zero (version_release t2) i = get_or_zero (version_release v2) i"
    "last (version_release t2) \<noteq> 0 \<or> version_release t2 = [0]"
    using only_release_trimmed_get [of v2] assms(2) by (metis release_only_bound.simps(2))
  consider (one) major where "version_release t1 = [major]" "version_release t2 = [major, 1]"
    | (two) major minor where "version_release t1 = [major, minor]" "version_release t2 = [major, minor + 1]"
    | (other) "star_bounds v1 v2 = both_bounds (Included v1) (Excluded v2)"
  proof -
    assume one: "\<And>major. version_release t1 = [major] \<Longrightarrow> version_release t2 = [major, 1] \<Longrightarrow> thesis"
      and two: "\<And>major minor. version_release t1 = [major, minor] \<Longrightarrow> version_release t2 = [major, minor + 1] \<Longrightarrow> thesis"
      and other: "star_bounds v1 v2 = both_bounds (Included v1) (Excluded v2) \<Longrightarrow> thesis"
    show thesis
    proof (rule ccontr)
      assume n: "\<not> thesis"
      with one two have "\<nexists>major. version_release t1 = [major] \<and> version_release t2 = [major, 1]"
        "\<nexists>major minor. version_release t1 = [major, minor] \<and> version_release t2 = [major, minor + 1]" by blast+
      then have "star_bounds v1 v2 = both_bounds (Included v1) (Excluded v2)"
        using t1(1) t2(1) by (simp add: star_bounds_def split: list.split)
      with n other show False by blast
    qed
  qed
  then show ?thesis
  proof cases
    case (one major)
    have "get_or_zero [major, 0] i = get_or_zero (version_release v1) i" for i
      unfolding t1(2) [symmetric] one by (simp add: get_or_zero_def nth_Cons split: nat.split)
    moreover have "get_or_zero [major, 0 + 1] i = get_or_zero (version_release v2) i" for i
      unfolding t2(2) [symmetric] one by simp
    ultimately obtain w where "version_new [major, 0] = Some w"
      "specifiers_contains [spec OpEqualStar w] v = Some (version_le v1 v \<and> version_lt v v2)"
      using star_contains [of v1 v2 v major 0] assms by auto
    then show ?thesis using t1(1) t2(1) one by (auto simp: star_bounds_def)
  next
    case (two major minor)
    have "minor \<noteq> u64_max" using t2(3) two by auto
    then obtain w where "version_new [major, minor] = Some w"
      "specifiers_contains [spec OpEqualStar w] v = Some (version_le v1 v \<and> version_lt v v2)"
      using star_contains [of v1 v2 v major minor] assms t1(2) t2(2) two by auto
    then show ?thesis using t1(1) t2(1) two by (auto simp: star_bounds_def)
  next
    case other
    then show ?thesis using both by simp
  qed
qed

lemma from_release_only_bounds_contains:
  assumes "release_only_bound l" "release_only_bound u" "release_only_version v"
  shows "\<exists>ss. from_release_only_bounds (l, u) = Some ss \<and> specifiers_contains ss v = Some (in_lower l v \<and> in_upper u v)"
proof -
  note both = both_bounds_contains [OF assms]
  show ?thesis
  proof (cases l)
    case l: (Included v1)
    show ?thesis
    proof (cases u)
      case (Included v2)
      show ?thesis
      proof (cases "version_eq v1 v2")
        case True
        then show ?thesis using l Included assms
          by (auto simp: from_release_only_bounds_def contains_release_only release_only_order split: bool.split)
      next
        case False
        then show ?thesis using l Included both by (simp add: from_release_only_bounds_def)
      qed
    next
      case (Excluded v2)
      then show ?thesis using l star_bounds_contains [of v1 v2 v] assms by (simp add: from_release_only_bounds_def)
    qed (use l both in \<open>simp add: from_release_only_bounds_def\<close>)
  qed (use both in \<open>simp_all add: from_release_only_bounds_def\<close>)
qed

section \<open>Properties\<close>

definition sample_two :: version where
  "sample_two = Full \<lparr>f_epoch = 0, f_release = [1, 2], f_pre = None, f_post = None, f_dev = None,
     f_local = Segments [], f_min = None, f_max = None\<rparr>"

definition sample_two_zero :: version where
  "sample_two_zero = Full \<lparr>f_epoch = 0, f_release = [1, 2, 0], f_pre = None, f_post = None, f_dev = None,
     f_local = Segments [], f_min = None, f_max = None\<rparr>"

definition sample_one :: version where
  "sample_one = Full \<lparr>f_epoch = 0, f_release = [1], f_pre = None, f_post = None, f_dev = None,
     f_local = Segments [], f_min = None, f_max = None\<rparr>"

text \<open>
  C27: the three trait implementations of a specifier agree: it is equal exactly when it compares as
  equal, equal specifiers hash alike, and the comparison is antisymmetric and transitive. A
  compatible-release specifier additionally compares its number of release segments.
\<close>

theorem specifier_order_contract:
  assumes "pep440 (sp_version a)" "pep440 (sp_version b)" "pep440 (sp_version c)"
  shows "(specifier_eq a b \<longleftrightarrow> specifier_cmp a b = Equal)
    \<and> (specifier_eq a b \<longrightarrow> specifier_hash a = specifier_hash b)
    \<and> specifier_cmp b a = reverse_ordering (specifier_cmp a b)
    \<and> (specifier_cmp a b \<noteq> Greater \<and> specifier_cmp b c \<noteq> Greater \<longrightarrow> specifier_cmp a c \<noteq> Greater)"
proof -
  have w: "specifier_wf a" "specifier_wf b" "specifier_wf c" using assms by (simp_all add: pep440_def)
  show ?thesis
    using specifier_eq_cmp [OF w(1,2)] specifier_eq_hash [OF assms(1,2)]
      specifier_ord.compare_swap [OF w(1,2)] specifier_ord.compare_le_trans [OF w] by blast
qed

theorem specifier_order_contract_witness:
  "specifier_eq (spec OpEqual sample_two) (spec OpEqual sample_two_zero)
   \<and> specifier_hash (spec OpEqual sample_two) = specifier_hash (spec OpEqual sample_two_zero)
   \<and> \<not> specifier_eq (spec OpTildeEqual sample_two) (spec OpTildeEqual sample_two_zero)"
proof -
  have w: "pep440 (sp_version (spec OpEqual sample_two))" "pep440 (sp_version (spec OpEqual sample_two_zero))"
    and e: "specifier_eq (spec OpEqual sample_two) (spec OpEqual sample_two_zero)"
    and n: "\<not> specifier_eq (spec OpTildeEqual sample_two) (spec OpTildeEqual sample_two_zero)"
    by code_simp+
  show ?thesis using specifier_order_contract [OF w w(1)] e n by blast
qed



text \<open>
  C23: the compatible-release operator is the pair of clauses PEP 440 defines it as: \<open>~=V.N\<close>
  contains a version exactly when \<open>>=V.N\<close> and \<open>==V.*\<close> both contain it.
\<close>

theorem tilde_equal_is_pair:
  assumes "pep440 a" "pep440 w" "pep440 v" "length (version_release a) > 1" "local_is_empty (version_local a)"
    "version_local w = version_local a" "version_epoch w = version_epoch a" "version_release w = butlast (version_release a)"
  shows "contains (spec OpTildeEqual a) v = specifiers_contains [spec OpGreaterThanEqual a, spec OpEqualStar w] v"
proof -
  have "local_is_empty (version_local w)" using assms(5,6) by simp
  then have "candidate w v = candidate a v" using assms(5) by (simp add: candidate_def)
  moreover have "wf_version a" "wf_version (candidate a v)"
    using assms(1) candidate_facts(1) [OF assms(3)] by (simp_all add: pep440_def)
  ultimately show ?thesis
    using contains_tilde_eq [of a "candidate a v"] assms(4,7,8) candidate_facts [OF assms(3)]
    by (simp add: contains_candidate split: bool.split)
qed

theorem tilde_equal_is_pair_witness:
  "contains (spec OpTildeEqual sample_two) sample_two_zero
     = specifiers_contains [spec OpGreaterThanEqual sample_two, spec OpEqualStar sample_one] sample_two_zero"
  by (rule tilde_equal_is_pair) code_simp+

text \<open>
  C25: \<open>TildeVersionSpecifier::bounding_specifiers\<close> gives two specifiers that contain exactly
  the versions the compatible-release specifier contains, for a version without an epoch.
\<close>

theorem bounding_specifiers_agree:
  assumes "tilde_new s = Some t" "pep440 (sp_version s)" "version_epoch (sp_version s) = 0" "pep440 v"
  shows "\<exists>lower upper. bounding_specifiers t = Some (lower, upper)
    \<and> specifiers_contains [lower, upper] v = contains t v"
  using assms by (rule bounding_specifiers_eq)

theorem bounding_specifiers_agree_witness:
  "\<exists>lower upper. bounding_specifiers (spec OpTildeEqual sample_two) = Some (lower, upper)
    \<and> specifiers_contains [lower, upper] sample_pre = contains (spec OpTildeEqual sample_two) sample_pre"
  by (rule bounding_specifiers_agree [of "spec OpTildeEqual sample_two"]) code_simp+

text \<open>
  C24: the specifiers made from a pair of bounds contain, among the versions that are a release only,
  exactly those between the bounds; in particular the short forms \<open>==V\<close> and \<open>==V.*\<close> are
  only chosen where they mean the same.
\<close>

theorem release_only_bounds_agree:
  assumes "release_only_bound l" "release_only_bound u" "release_only_version v"
  shows "\<exists>ss. from_release_only_bounds (l, u) = Some ss
    \<and> specifiers_contains ss v = Some (in_lower l v \<and> in_upper u v)"
  using assms by (rule from_release_only_bounds_contains)

theorem release_only_bounds_agree_witness:
  "\<exists>ss. from_release_only_bounds (Included sample_one, Excluded sample_two) = Some ss
    \<and> specifiers_contains ss sample_one = Some True"
proof -
  have w: "release_only_bound (Included sample_one)" "release_only_bound (Excluded sample_two)" "release_only_version sample_one"
    and b: "(in_lower (Included sample_one) sample_one \<and> in_upper (Excluded sample_two) sample_one) = True" by code_simp+
  show ?thesis using release_only_bounds_agree [OF w] unfolding b by blast
qed



end
