(* ===== verification/Version_Specifier_Parse.thy ===== *)
theory Version_Specifier_Parse
  imports Version_Specifier_Facts
begin

text \<open>
  Parsing and printing of version specifiers. The string scanner of the \<open>unscanny\<close> crate is a
  parameter \<open>eat\<close>: it splits a string after the longest prefix of characters that satisfy a
  predicate (\<open>scanner_ok\<close>). The parser returns only specifiers that can be tested
  without a panic, and what is printed is read back.
\<close>

section \<open>Parsing and printing\<close>

subsection \<open>The parser does not panic\<close>

text \<open>What the parser can return: a specifier the constructor accepts, on a parsed version, with a bare release after a wildcard.\<close>

definition parsed_specifier :: "version_specifier \<Rightarrow> bool" where
  "parsed_specifier s \<longleftrightarrow> valid_specifier s \<and> parsed_version (sp_version s)
     \<and> (is_star (sp_operator s) \<longrightarrow> version_pre (sp_version s) = None \<and> version_post (sp_version s) = None
          \<and> version_dev (sp_version s) = None \<and> version_local (sp_version s) = Segments [])"

lemma from_pattern_safe:
  assumes "parsed_pattern vp" "\<not> is_star op"
  shows "safe parsed_specifier (from_pattern op vp)"
  using assms
  by (cases op) (auto simp: from_pattern_def from_version_def parsed_specifier_def parsed_pattern_def valid_specifier_def
      is_star_def is_local_def is_local_compatible_def)

lemma operator_from_str_Ok: "operator_from_str s = Ok op \<Longrightarrow> \<not> is_star op"
  by (auto simp: operator_from_str_def is_star_def split: if_splits)

lemma operator_from_str_safe: "safe (\<lambda>op. \<not> is_star op) (map_err f (operator_from_str s))"
  using operator_from_str_Ok [of s] by (cases "operator_from_str s") (auto simp: map_err_def operator_from_str_def split: if_splits)

lemma safe_map_err [simp]: "safe P (map_err f r) \<longleftrightarrow> safe P r"
  by (cases r) (simp_all add: map_err_def)

lemma specifier_from_str_safe: "safe parsed_specifier (specifier_from_str eat text)"
proof -
  obtain s1 where s1: "snd (eat is_whitespace text) = s1" by simp
  obtain w s2 where w: "eat is_operator_char s1 = (w, s2)" by force
  obtain v s3 where v: "eat (\<lambda>c. \<not> is_whitespace c) (snd (eat is_whitespace s2)) = (v, s3)" by force
  show ?thesis
  proof (cases "w = []")
    case True
    then show ?thesis using s1 w v version_pattern_from_str_safe [of v]
      by (auto simp: specifier_from_str_def Let_def split: outcome.split)
  next
    case False
    have "safe parsed_specifier (and_then (map_err InvalidOperator (operator_from_str w)) (\<lambda>operator.
        if v = [] then Err MissingVersion
        else and_then (map_err InvalidVersion (version_pattern_from_str v)) (\<lambda>vpat.
             and_then (map_err InvalidSpecifier (from_pattern operator vpat)) (\<lambda>version_specifier.
               let s = snd (eat is_whitespace s3)
               in if s \<noteq> [] then Err (InvalidTrailing s) else Ok version_specifier))))"
      using operator_from_str_safe
    proof (rule safe_and_then)
      fix op assume op: "\<not> is_star op"
      have "safe parsed_pattern (map_err InvalidVersion (version_pattern_from_str v))"
        by (simp add: version_pattern_from_str_safe)
      then have "safe parsed_specifier (and_then (map_err InvalidVersion (version_pattern_from_str v)) (\<lambda>vpat.
             and_then (map_err InvalidSpecifier (from_pattern op vpat)) (\<lambda>version_specifier.
               let s = snd (eat is_whitespace s3)
               in if s \<noteq> [] then Err (InvalidTrailing s) else Ok version_specifier)))"
      proof (rule safe_and_then)
        fix vpat assume "parsed_pattern vpat"
        then have "safe parsed_specifier (map_err InvalidSpecifier (from_pattern op vpat))"
          using op by (simp add: from_pattern_safe)
        then show "safe parsed_specifier (and_then (map_err InvalidSpecifier (from_pattern op vpat)) (\<lambda>version_specifier.
               let s = snd (eat is_whitespace s3)
               in if s \<noteq> [] then Err (InvalidTrailing s) else Ok version_specifier))"
          by (rule safe_and_then) (simp add: Let_def)
      qed
      then show "safe parsed_specifier (if v = [] then Err MissingVersion
        else and_then (map_err InvalidVersion (version_pattern_from_str v)) (\<lambda>vpat.
             and_then (map_err InvalidSpecifier (from_pattern op vpat)) (\<lambda>version_specifier.
               let s = snd (eat is_whitespace s3)
               in if s \<noteq> [] then Err (InvalidTrailing s) else Ok version_specifier)))"
        by simp
    qed
    then show ?thesis using False s1 w v by (simp add: specifier_from_str_def Let_def)
  qed
qed

lemma parse_specifiers_loop_safe: "safe (list_all parsed_specifier) (parse_specifiers_loop eat line start texts)"
proof (induction texts arbitrary: start)
  case (Cons t ts)
  have t: "safe parsed_specifier (specifier_from_str eat t)" by (rule specifier_from_str_safe)
  show ?case
  proof (cases "specifier_from_str eat t")
    case (Ok s)
    have "safe (list_all parsed_specifier) (and_then (parse_specifiers_loop eat line (start + length t + 1) ts) (\<lambda>ss. Ok (s # ss)))"
      using Cons.IH by (rule safe_and_then) (use Ok t in simp)
    then show ?thesis using Ok by simp
  qed (use t in simp_all)
qed simp

lemma from_unsorted_list_all: "list_all P (from_unsorted ss) = list_all P ss"
  by (simp add: list_all_iff from_unsorted_def)

lemma specifiers_from_str_safe: "safe (list_all parsed_specifier) (specifiers_from_str eat s)"
proof -
  have "safe (list_all parsed_specifier) (and_then (specifier_from_str eat s) (\<lambda>specifier. Ok [specifier]))"
    using specifier_from_str_safe by (rule safe_and_then) simp
  moreover have "safe (list_all parsed_specifier) (and_then (parse_version_specifiers eat s) (\<lambda>specifiers. Ok (from_unsorted specifiers)))"
    using parse_specifiers_loop_safe unfolding parse_version_specifiers_def
    by (rule safe_and_then) (simp add: from_unsorted_list_all)
  ultimately show ?thesis by (simp add: specifiers_from_str_def)
qed

subsection \<open>Round trip\<close>

definition scanner_ok :: "scanner \<Rightarrow> bool" where
  "scanner_ok eat \<longleftrightarrow> (\<forall>P s. eat P s = (takeWhile P s, dropWhile P s))"

definition version_char :: "char \<Rightarrow> bool" where
  "version_char c \<longleftrightarrow> is_ascii_digit c \<or> is_ascii_lowercase c \<or> c = CHR ''.'' \<or> c = CHR ''!'' \<or> c = CHR ''+''"

lemma version_char_not_space: "version_char c \<Longrightarrow> \<not> is_whitespace c" "\<not> is_whitespace CHR ''*''"
  by (auto simp: version_char_def is_whitespace_def is_ascii_digit_def is_ascii_lowercase_def byte_of_def)

lemma show_u64_chars: "list_all version_char (show_u64 n)"
  using show_u64_facts [of n] by (simp add: list_all_iff version_char_def)

lemma show_dotted_chars: "(\<And>x. x \<in> set xs \<Longrightarrow> list_all version_char (f x)) \<Longrightarrow> list_all version_char (show_dotted f xs)"
  by (cases xs) (auto simp: list_all_iff version_char_def)

lemma version_to_string_chars:
  assumes "parsed_version v"
  shows "list_all version_char (version_to_string v)" "\<exists>c cs. version_to_string v = c # cs \<and> is_ascii_digit c"
proof -
  obtain ls where ls: "version_local v = Segments ls" "list_all parsed_segment ls"
    using assms by (cases "version_local v") (auto simp: parsed_version_def)
  have "list_all version_char (show_dotted show_u64 (version_release v))" by (rule show_dotted_chars) (rule show_u64_chars)
  moreover have "list_all version_char (show_dotted show_local_segment ls)"
  proof (rule show_dotted_chars)
    fix l assume "l \<in> set ls"
    then have "parsed_segment l" using ls(2) by (simp add: list_all_iff)
    then show "list_all version_char (show_local_segment l)"
      using show_u64_chars by (cases l) (auto simp: list_all_iff version_char_def)
  qed
  moreover have "list_all version_char (show_prerelease p)" for p
    using show_u64_chars by (cases p; cases "pre_kind p")
      (auto simp: list_all_iff version_char_def is_ascii_lowercase_def byte_of_def)
  moreover have "list_all version_char ''.post''" "list_all version_char ''.dev''" "list_all version_char ''!''" "list_all version_char ''+''"
    by (simp_all add: version_char_def is_ascii_lowercase_def byte_of_def)
  ultimately show "list_all version_char (version_to_string v)"
    using show_u64_chars ls(1)
    by (auto simp: version_to_string_def split: option.split)
  obtain x xs where rel: "version_release v = x # xs"
    using assms by (cases "version_release v") (auto simp: parsed_version_def pep440_def)
  have d: "\<exists>c cs. show_u64 n = c # cs \<and> is_ascii_digit c" for n
    using show_u64_facts(1,2) [of n] by (cases "show_u64 n") auto
  obtain c cs c' cs' where "show_u64 x = c # cs" "is_ascii_digit c" "show_u64 (version_epoch v) = c' # cs'" "is_ascii_digit c'"
    using d [of x] d [of "version_epoch v"] by blast
  then show "\<exists>c cs. version_to_string v = c # cs \<and> is_ascii_digit c"
    using rel by (simp add: version_to_string_def)
qed

definition same_specifier :: "version_specifier \<Rightarrow> version_specifier \<Rightarrow> bool" where
  "same_specifier s t \<longleftrightarrow> sp_operator s = sp_operator t \<and> wf_version (sp_version t)
     \<and> make_full (sp_version s) = make_full (sp_version t)"

lemma version_pattern_plain_text:
  assumes "parsed_version v"
  shows "\<exists>w. version_pattern_from_str (version_to_string v) = Ok \<lparr>vp_version = w, vp_wildcard = False\<rparr>
    \<and> wf_version w \<and> make_full w = make_full v"
proof -
  obtain w where w: "version_from_str (version_to_string v) = Ok w" "wf_version w" "make_full w = make_full v"
    using version_from_str_to_string [OF assms] by blast
  have "version_pattern_from_str (version_to_string v) = Ok \<lparr>vp_version = w, vp_wildcard = False\<rparr>"
    using w(1)
    by (cases "version_pattern_from_str (version_to_string v)")
      (auto simp: version_from_str_def parse_version_def version_pattern_from_str_def split: pattern_error_kind.splits if_splits)
  then show ?thesis using w(2,3) by blast
qed

definition base_operator :: "operator \<Rightarrow> operator" where
  "base_operator op = (if op = OpEqualStar then OpEqual else if op = OpNotEqualStar then OpNotEqual else op)"

lemma operator_text:
  "operator_from_str (operator_as_str op) = Ok (base_operator op)" "list_all is_operator_char (operator_as_str op)"
  "operator_as_str op \<noteq> []"
  by (cases op; simp add: operator_from_str_def base_operator_def is_operator_char_def)+

lemma takeWhile_run: "list_all P xs \<Longrightarrow> (\<forall>y ys. zs = y # ys \<longrightarrow> \<not> P y) \<Longrightarrow> takeWhile P (xs @ zs) = xs \<and> dropWhile P (xs @ zs) = zs"
  by (induction xs) (auto split: list.splits simp: takeWhile_eq_Nil_iff dropWhile_eq_self_iff neq_Nil_conv)

lemma eat_run:
  assumes "scanner_ok eat" "list_all P xs" "\<forall>y ys. zs = y # ys \<longrightarrow> \<not> P y"
  shows "eat P (xs @ zs) = (xs, zs)"
  using assms takeWhile_run [of P xs zs] by (simp add: scanner_ok_def)

lemma eat_nothing: "scanner_ok eat \<Longrightarrow> \<not> P c \<Longrightarrow> eat P (c # cs) = ([], c # cs)"
  by (simp add: scanner_ok_def)

lemma eat_all: "scanner_ok eat \<Longrightarrow> list_all P s \<Longrightarrow> eat P s = (s, [])"
  using takeWhile_run [of P s "[]"] by (simp add: scanner_ok_def)

text \<open>The text of an operator followed by the text of a version, after any white space.\<close>

lemma specifier_from_str_text:
  assumes eat: "scanner_ok eat" and ws: "list_all is_whitespace ws"
    and vt: "vt = c # cs" "is_ascii_digit c" "list_all (\<lambda>c. \<not> is_whitespace c) vt"
  shows "specifier_from_str eat (ws @ operator_as_str op @ vt)
    = and_then (map_err InvalidVersion (version_pattern_from_str vt)) (\<lambda>vpat. map_err InvalidSpecifier (from_pattern (base_operator op) vpat))"
proof -
  obtain o1 os where o: "operator_as_str op = o1 # os" using operator_text(3) [of op] by (cases "operator_as_str op") auto
  have o1: "is_operator_char o1" using operator_text(2) [of op] o by simp
  then have nw: "\<not> is_whitespace o1" by (auto simp: is_operator_char_def is_whitespace_def byte_of_def)
  have c: "\<not> is_operator_char c" "\<not> is_whitespace c"
    using vt(2) by (auto simp: is_operator_char_def is_whitespace_def is_ascii_digit_def byte_of_def)
  have 1: "eat is_whitespace (ws @ operator_as_str op @ vt) = (ws, operator_as_str op @ vt)"
    using eat ws by (rule eat_run) (use nw o in simp)
  have 2: "eat is_operator_char (operator_as_str op @ vt) = (operator_as_str op, vt)"
    using eat operator_text(2) by (rule eat_run) (use c vt in simp)
  have 3: "eat is_whitespace vt = ([], vt)" unfolding vt(1) using eat c(2) by (rule eat_nothing)
  have 4: "eat (\<lambda>c. \<not> is_whitespace c) vt = (vt, [])" using eat vt(3) by (rule eat_all)
  have 5: "eat is_whitespace [] = ([], [])" using eat by (simp add: scanner_ok_def)
  have op: "operator_as_str op = [] \<longleftrightarrow> False" using operator_text(3) by simp
  have vn: "vt = [] \<longleftrightarrow> False" using vt(1) by simp
  have id: "and_then r Ok = r" for r :: "(version_specifier, parse_error_kind) outcome" by (cases r) simp_all
  show ?thesis
    unfolding specifier_from_str_def 1 Let_def snd_conv 2 case_prod_conv op if_False operator_text(1) 3 4 vn
    using id 5 by (simp add: map_err_def [of _ "Ok _"])
qed

lemma specifier_from_str_to_string:
  assumes eat: "scanner_ok eat" and ws: "list_all is_whitespace ws" and s: "parsed_specifier s"
  shows "\<exists>t. specifier_from_str eat (ws @ specifier_to_string s) = Ok t \<and> same_specifier s t"
proof -
  let ?v = "sp_version s" and ?op = "sp_operator s"
  have v: "parsed_version ?v" using s by (simp add: parsed_specifier_def)
  obtain c cs where t: "version_to_string ?v = c # cs" "is_ascii_digit c" using version_to_string_chars(2) [OF v] by blast
  have p: "list_all (\<lambda>c. \<not> is_whitespace c) (version_to_string ?v)"
    using version_to_string_chars(1) [OF v] by (rule list.pred_mono_strong) (simp add: version_char_not_space)
  show ?thesis
  proof (cases "is_star ?op")
    case True
    then have bare: "version_pre ?v = None" "version_post ?v = None" "version_dev ?v = None" "version_local ?v = Segments []"
      using s by (simp_all add: parsed_specifier_def)
    from version_pattern_star_text [OF v bare] obtain w where
      w: "version_pattern_from_str (version_to_string ?v @ ''.*'') = Ok \<lparr>vp_version = w, vp_wildcard = True\<rparr>"
        "wf_version w" "make_full w = make_full ?v" by blast
    have printed: "specifier_to_string s = operator_as_str ?op @ version_to_string ?v @ ''.*''"
      using True by (cases ?op) (simp_all add: specifier_to_string_def is_star_def)
    have "list_all (\<lambda>c. \<not> is_whitespace c) (version_to_string ?v @ ''.*'')"
      using p by (simp add: is_whitespace_def byte_of_def)
    then have "specifier_from_str eat (ws @ specifier_to_string s) = map_err InvalidSpecifier (from_pattern (base_operator ?op) \<lparr>vp_version = w, vp_wildcard = True\<rparr>)"
      unfolding printed
      using specifier_from_str_text [OF eat ws _ t(2), of "version_to_string ?v @ ''.*''" "cs @ ''.*''" ?op] t(1) w(1)
      by (simp add: map_err_def)
    moreover have wl: "version_local w = Segments []" using bare(4) w(3) by (simp add: accessors_make_full)
    have "\<exists>t. from_pattern (base_operator ?op) \<lparr>vp_version = w, vp_wildcard = True\<rparr> = Ok t \<and> same_specifier s t"
      using True w(2,3) wl
      by (cases ?op) (auto simp: is_star_def base_operator_def from_pattern_def from_version_def same_specifier_def
          is_local_compatible_def is_local_def)
    ultimately show ?thesis by (auto simp: map_err_def)
  next
    case False
    obtain w where w: "version_pattern_from_str (version_to_string ?v) = Ok \<lparr>vp_version = w, vp_wildcard = False\<rparr>"
      "wf_version w" "make_full w = make_full ?v" using version_pattern_plain_text [OF v] by blast
    have printed: "specifier_to_string s = operator_as_str ?op @ version_to_string ?v" and b: "base_operator ?op = ?op"
      using False by (cases ?op; simp add: specifier_to_string_def is_star_def base_operator_def)+
    have "specifier_from_str eat (ws @ specifier_to_string s) = map_err InvalidSpecifier (from_pattern ?op \<lparr>vp_version = w, vp_wildcard = False\<rparr>)"
      unfolding printed using specifier_from_str_text [OF eat ws t(1,2) p, of ?op] w(1) b
      by (simp add: map_err_def)
    moreover have "from_pattern ?op \<lparr>vp_version = w, vp_wildcard = False\<rparr> = Ok \<lparr>sp_operator = ?op, sp_version = w\<rparr>"
      using False s w(3) unfolding parsed_specifier_def valid_specifier_def
      by (cases ?op) (auto simp: from_pattern_def from_version_def is_star_def is_local_compatible_def is_local_def accessors_make_full
          split: if_splits)
    ultimately show ?thesis using w(2,3) by (simp add: map_err_def same_specifier_def)
  qed
qed

subsection \<open>Lists of specifiers\<close>

lemma split_at_run: "sep \<notin> set w \<Longrightarrow> split_at sep w = [w]"
  by (induction w) auto

lemma split_at_append: "sep \<notin> set w \<Longrightarrow> split_at sep (w @ sep # cs) = w # split_at sep cs"
  by (induction w) auto

lemma specifier_to_string_no_comma: "parsed_specifier s \<Longrightarrow> CHR '','' \<notin> set (specifier_to_string s)"
proof -
  assume "parsed_specifier s"
  then have "list_all version_char (version_to_string (sp_version s))"
    by (simp add: parsed_specifier_def version_to_string_chars(1))
  moreover have "\<not> version_char CHR '',''"
    by (simp add: version_char_def is_ascii_digit_def is_ascii_lowercase_def byte_of_def)
  ultimately have "CHR '','' \<notin> set (version_to_string (sp_version s))" by (auto simp: list_all_iff)
  moreover have "CHR '','' \<notin> set (operator_as_str op)" for op by (cases op) simp_all
  ultimately show ?thesis by (simp add: specifier_to_string_def)
qed

lemma split_at_specifiers:
  assumes "list_all parsed_specifier (s # ss)" "CHR '','' \<notin> set ws"
  shows "split_at CHR '','' (ws @ specifiers_to_string (s # ss))
    = (ws @ specifier_to_string s) # map (\<lambda>s. '' '' @ specifier_to_string s) ss"
  using assms
proof (induction ss arbitrary: s ws)
  case Nil
  then show ?case using specifier_to_string_no_comma [of s] by (simp add: split_at_run)
next
  case (Cons t ss)
  have s: "CHR '','' \<notin> set (ws @ specifier_to_string s)" using Cons.prems specifier_to_string_no_comma by simp
  have "ws @ specifiers_to_string (s # t # ss)
      = (ws @ specifier_to_string s) @ CHR '','' # ('' '' @ specifiers_to_string (t # ss))" by simp
  then have "split_at CHR '','' (ws @ specifiers_to_string (s # t # ss))
      = (ws @ specifier_to_string s) # split_at CHR '','' ('' '' @ specifiers_to_string (t # ss))"
    using split_at_append [OF s] by simp
  also have "split_at CHR '','' ('' '' @ specifiers_to_string (t # ss))
      = ('' '' @ specifier_to_string t) # map (\<lambda>s. '' '' @ specifier_to_string s) ss"
    using Cons.IH [of t "'' ''"] Cons.prems by simp
  finally show ?case by simp
qed

lemma parse_specifiers_loop_text:
  assumes "scanner_ok eat" "list_all parsed_specifier ss"
    "list_all2 (\<lambda>s text. \<exists>ws. list_all is_whitespace ws \<and> text = ws @ specifier_to_string s) ss texts"
  shows "\<exists>ts. parse_specifiers_loop eat line start texts = Ok ts \<and> list_all2 same_specifier ss ts"
  using assms(3,2)
proof (induction arbitrary: start rule: list_all2_induct)
  case (Cons s ss w texts)
  obtain ws where ws: "list_all is_whitespace ws" "w = ws @ specifier_to_string s" using Cons.hyps(1) by blast
  obtain t where t: "specifier_from_str eat w = Ok t" "same_specifier s t"
    using specifier_from_str_to_string [OF assms(1) ws(1)] Cons.prems ws(2) by auto
  obtain ts where "parse_specifiers_loop eat line (start + length w + 1) texts = Ok ts" "list_all2 same_specifier ss ts"
    using Cons.IH Cons.prems by auto
  then show ?case using t by simp
qed simp

lemma unsorted_cmp_same: "same_specifier s s' \<Longrightarrow> same_specifier t t' \<Longrightarrow> wf_version (sp_version s) \<Longrightarrow> wf_version (sp_version t)
    \<Longrightarrow> unsorted_cmp s' t' = unsorted_cmp s t"
  using version_key_cong [of "sp_version s'" "sp_version s"] version_key_cong [of "sp_version t'" "sp_version t"]
  by (simp add: unsorted_cmp_key same_specifier_def unsorted_key_def)

lemma sort_by_id: "sorted_wrt (\<lambda>x y. f x y \<noteq> Greater) xs \<Longrightarrow> sort_by f xs = xs"
proof (induction xs)
  case (Cons x xs)
  then show ?case by (cases xs) (simp_all add: sort_by_def)
qed (simp add: sort_by_def)

lemma sorted_wrt_same:
  assumes "sorted_wrt (\<lambda>x y. unsorted_cmp x y \<noteq> Greater) ss" "list_all2 same_specifier ss ts" "list_all specifier_wf ss"
  shows "sorted_wrt (\<lambda>x y. unsorted_cmp x y \<noteq> Greater) ts"
  using assms(2,1,3)
proof (induction rule: list_all2_induct)
  case (Cons s ss t ts)
  have "unsorted_cmp t y \<noteq> Greater" if y: "y \<in> set ts" for y
  proof -
    obtain i where i: "i < length ts" "y = ts ! i" using y by (auto simp: in_set_conv_nth)
    define x where "x = ss ! i"
    have x: "x \<in> set ss" "same_specifier x y"
      using i Cons.hyps(2) list_all2_nthD2 [of same_specifier ss ts i] list_all2_lengthD [of same_specifier ss ts]
      by (simp_all add: x_def)
    then have "unsorted_cmp t y = unsorted_cmp s x"
      using unsorted_cmp_same [of s t x y] Cons.hyps(1) Cons.prems(2) by (simp add: list_all_iff)
    moreover have "unsorted_cmp s x \<noteq> Greater" using x(1) Cons.prems(1) by simp
    ultimately show ?thesis by simp
  qed
  then show ?case using Cons.IH Cons.prems by simp
qed simp

lemma specifiers_from_str_to_string:
  assumes eat: "scanner_ok eat" and ss: "list_all parsed_specifier ss" "from_unsorted ss = ss"
  shows "\<exists>ts. specifiers_from_str eat (specifiers_to_string ss) = Ok ts \<and> list_all2 same_specifier ss ts"
proof (cases ss)
  case Nil
  then show ?thesis by (simp add: specifiers_from_str_def)
next
  case (Cons s rs)
  have s: "parsed_specifier s" and nc: "CHR '','' \<notin> set (specifier_to_string s)"
    using ss Cons specifier_to_string_no_comma by simp_all
  show ?thesis
  proof (cases rs)
    case Nil
    obtain t where "specifier_from_str eat (specifier_to_string s) = Ok t" "same_specifier s t"
      using specifier_from_str_to_string [OF eat _ s, of "[]"] by auto
    moreover have "filter (\<lambda>c. c = CHR '','') (specifier_to_string s) = []" using nc by (auto simp: filter_empty_conv)
    moreover have "specifier_to_string s \<noteq> []" using operator_text(3) by (simp add: specifier_to_string_def)
    ultimately have "specifiers_from_str eat (specifier_to_string s) = Ok [t]" unfolding specifiers_from_str_def
      by (simp add: map_err_def)
    then show ?thesis using Cons Nil \<open>same_specifier s t\<close> by simp
  next
    case rs: (Cons r qs)
    have c: "CHR '','' \<in> set (specifiers_to_string ss)" using Cons rs by simp
    have sp: "split_at CHR '','' (specifiers_to_string ss) = specifier_to_string s # map (\<lambda>s. '' '' @ specifier_to_string s) rs"
      using split_at_specifiers [of s rs "[]"] ss(1) Cons by simp
    have b: "\<exists>ws. list_all is_whitespace ws \<and> '' '' @ w = ws @ w" for w :: string
      by (rule exI [of _ "'' ''"]) (simp add: is_whitespace_def byte_of_def)
    have "\<exists>ts. parse_version_specifiers eat (specifiers_to_string ss) = Ok ts \<and> list_all2 same_specifier ss ts"
      unfolding parse_version_specifiers_def sp
    proof (rule parse_specifiers_loop_text [OF eat ss(1)])
      show "list_all2 (\<lambda>s text. \<exists>ws. list_all is_whitespace ws \<and> text = ws @ specifier_to_string s) ss
          (specifier_to_string s # map (\<lambda>s. '' '' @ specifier_to_string s) rs)"
        unfolding Cons list_all2_Cons list_all2_map2
      proof (rule conjI)
        show "\<exists>ws. list_all is_whitespace ws \<and> specifier_to_string s = ws @ specifier_to_string s"
          by (rule exI [of _ "[]"]) simp
        show "list_all2 (\<lambda>x y. \<exists>ws. list_all is_whitespace ws \<and> '' '' @ specifier_to_string y = ws @ specifier_to_string x) rs rs"
          by (rule list.rel_refl) (rule b)
      qed
    qed
    then obtain ts where ts: "parse_version_specifiers eat (specifiers_to_string ss) = Ok ts" "list_all2 same_specifier ss ts" by blast
    have wf: "list_all specifier_wf ss" using ss(1) by (auto simp: list_all_iff parsed_specifier_def parsed_version_def pep440_def)
    have "sorted_wrt (\<lambda>x y. unsorted_cmp x y \<noteq> Greater) (from_unsorted ss)"
      unfolding from_unsorted_def using wf by (intro unsorted_ord.sort_by_sorted) (simp add: list_all_iff)
    then have "sorted_wrt (\<lambda>x y. unsorted_cmp x y \<noteq> Greater) ts" using sorted_wrt_same [OF _ ts(2) wf] ss(2) by simp
    then have "from_unsorted ts = ts" unfolding from_unsorted_def by (rule sort_by_id)
    moreover have "length (filter (\<lambda>c. c = CHR '','') (specifiers_to_string ss)) \<noteq> 0"
      using c by (simp add: filter_empty_conv)
    ultimately have "specifiers_from_str eat (specifiers_to_string ss) = Ok ts"
      unfolding specifiers_from_str_def using ts(1) by simp
    then show ?thesis using ts(2) by blast
  qed
qed

section \<open>Properties\<close>

text \<open>
  C22: parsing a list of specifiers never panics, whatever the scanner returns, and testing a version
  against the parsed specifiers never panics.
\<close>

theorem specifiers_parse_no_panic:
  "case specifiers_from_str eat s of
     Ok ss \<Rightarrow> list_all parsed_specifier ss \<and> specifiers_contains ss v \<noteq> None
   | Err e \<Rightarrow> True
   | Panic \<Rightarrow> False"
proof -
  have "safe (list_all parsed_specifier) (specifiers_from_str eat s)" by (rule specifiers_from_str_safe)
  moreover have "specifiers_contains ss v \<noteq> None" if "list_all parsed_specifier ss" for ss
    using specifiers_contains_valid [of ss v] that by (auto simp: list_all_iff parsed_specifier_def)
  ultimately show ?thesis by (cases "specifiers_from_str eat s") simp_all
qed

text \<open>
  C12: a list of parsed specifiers in their normal order is read back from its printed form, operator
  by operator and version by version.
\<close>

theorem specifiers_print_parse:
  assumes "scanner_ok eat" "list_all parsed_specifier ss" "from_unsorted ss = ss"
  shows "\<exists>ts. specifiers_from_str eat (specifiers_to_string ss) = Ok ts \<and> list_all2 same_specifier ss ts"
  using assms by (rule specifiers_from_str_to_string)

theorem specifiers_print_parse_witness:
  "specifiers_to_string [spec OpGreaterThanEqual sample_one, spec OpNotEqualStar sample_two] = ''>=1, !=1.2.*''
   \<and> (\<exists>ts. specifiers_from_str (\<lambda>P s. (takeWhile P s, dropWhile P s)) ''>=1, !=1.2.*'' = Ok ts
        \<and> list_all2 same_specifier [spec OpGreaterThanEqual sample_one, spec OpNotEqualStar sample_two] ts)"
proof -
  let ?ss = "[spec OpGreaterThanEqual sample_one, spec OpNotEqualStar sample_two]"
  have e: "scanner_ok (\<lambda>P s. (takeWhile P s, dropWhile P s))" by (simp add: scanner_ok_def)
  have w: "list_all parsed_specifier ?ss" "from_unsorted ?ss = ?ss" by code_simp+
  have p: "specifiers_to_string ?ss = ''>=1, !=1.2.*''" by code_simp
  show ?thesis using specifiers_print_parse [OF e w] unfolding p by blast
qed

end
