(* ===== verification/Version_Ranges.thy ===== *)
theory Version_Ranges
  imports Version_Specifier
begin

text \<open>
  Conversion of specifiers to version ranges (\<open>crates/uv-pep440/src/version_ranges.rs\<close>). The
  operations on ranges are the parameter \<open>R\<close> of the definitions.
\<close>

section \<open>Specifiers to ranges, PEP 440 semantics\<close>

definition increment_last :: "u64 list \<Rightarrow> u64 list option" where
  "increment_last release = (if release = [] then None else Some (butlast release @ [last release + 1]))"

text \<open>The bounds of a wildcard: the first development release of the prefix, and of the next prefix.\<close>

definition star_range_bounds :: "version \<Rightarrow> (version \<times> version) option" where
  "star_range_bounds v =
    (let low = with_dev (Some 0) v
     in case version_post low of
          Some post \<Rightarrow> Some (low, with_post (Some (post + 1)) low)
        | None \<Rightarrow>
            (case version_pre low of
               Some pre \<Rightarrow> Some (low, with_pre (Some (Prerelease (pre_kind pre) (pre_number pre + 1))) low)
             | None \<Rightarrow>
                 (case increment_last (version_release low) of
                    None \<Rightarrow> None
                  | Some release \<Rightarrow> map_option (\<lambda>high. (low, high)) (with_release release low))))"

text \<open>The release that ends a compatible-release range: the last number is dropped, the one before incremented.\<close>

definition tilde_upper_release :: "u64 list \<Rightarrow> u64 list option" where
  "tilde_upper_release release =
    (if length release < 2 then None else increment_last (butlast release))"

definition equal_range :: "('r, version, 'm) ranges_scheme \<Rightarrow> version \<Rightarrow> 'r option" where
  "equal_range R v =
    (case version_local v of
       Segments ls \<Rightarrow>
         if ls = [] then Some (r_between R v (with_local LMax v)) else Some (r_singleton R v)
     | LMax \<Rightarrow> None)"

definition tilde_range :: "('r, version, 'm) ranges_scheme \<Rightarrow> version \<Rightarrow> 'r option" where
  "tilde_range R v =
    (case tilde_upper_release (version_release v) of
       None \<Rightarrow> None
     | Some release \<Rightarrow>
         map_option (\<lambda>u. r_from_range_bounds R (Included v) (Excluded (with_dev (Some 0) (with_epoch (version_epoch v) u))))
           (version_new release))"

definition less_than_range :: "('r, version, 'm) ranges_scheme \<Rightarrow> version \<Rightarrow> 'r" where
  "less_than_range R v =
    (if any_prerelease v then r_strictly_lower_than R v
     else if is_post v then r_strictly_lower_than R (with_dev (Some 0) v)
     else r_strictly_lower_than R (with_min (Some 0) v))"

definition greater_than_range :: "('r, version, 'm) ranges_scheme \<Rightarrow> version \<Rightarrow> 'r" where
  "greater_than_range R v =
    (case version_dev v of
       Some dev \<Rightarrow> r_higher_than R (with_dev (Some (dev + 1)) v)
     | None \<Rightarrow>
         if is_post v then r_strictly_higher_than R (with_local LMax v)
         else r_strictly_higher_than R (with_max (Some 0) v))"

definition star_range :: "('r, version, 'm) ranges_scheme \<Rightarrow> version \<Rightarrow> 'r option" where
  "star_range R v =
    map_option (\<lambda>(low, high). r_from_range_bounds R (Included low) (Excluded high)) (star_range_bounds v)"

definition specifier_to_ranges :: "('r, version, 'm) ranges_scheme \<Rightarrow> version_specifier \<Rightarrow> 'r option" where
  "specifier_to_ranges R s =
    (let v = sp_version s
     in case sp_operator s of
          OpEqual \<Rightarrow> equal_range R v
        | OpExactEqual \<Rightarrow> Some (r_singleton R v)
        | OpNotEqual \<Rightarrow> map_option (r_complement R) (equal_range R v)
        | OpTildeEqual \<Rightarrow> tilde_range R v
        | OpLessThan \<Rightarrow> Some (less_than_range R v)
        | OpLessThanEqual \<Rightarrow> Some (r_lower_than R (with_local LMax v))
        | OpGreaterThan \<Rightarrow> Some (greater_than_range R v)
        | OpGreaterThanEqual \<Rightarrow> Some (r_higher_than R v)
        | OpEqualStar \<Rightarrow> star_range R v
        | OpNotEqualStar \<Rightarrow> map_option (r_complement R) (star_range R v))"

fun intersect_all :: "('r, version, 'm) ranges_scheme \<Rightarrow> (version_specifier \<Rightarrow> 'r option) \<Rightarrow> 'r \<Rightarrow> version_specifier list \<Rightarrow> 'r option" where
  "intersect_all R f acc [] = Some acc"
| "intersect_all R f acc (specifier # specifiers) =
    (case f specifier of None \<Rightarrow> None | Some r \<Rightarrow> intersect_all R f (r_intersection R acc r) specifiers)"

definition specifiers_to_ranges :: "('r, version, 'm) ranges_scheme \<Rightarrow> version_specifier list \<Rightarrow> 'r option" where
  "specifiers_to_ranges R specifiers = intersect_all R (specifier_to_ranges R) (r_full R) specifiers"

section \<open>Specifiers to ranges, release-only semantics\<close>

definition release_star_range :: "('r, version, 'm) ranges_scheme \<Rightarrow> version \<Rightarrow> 'r option" where
  "release_star_range R v =
    (case only_release v of
       None \<Rightarrow> None
     | Some low_full \<Rightarrow>
         (case increment_last (version_release low_full) of
            None \<Rightarrow> None
          | Some release \<Rightarrow>
              map_option (\<lambda>high. r_from_range_bounds R (Included v) (Excluded high)) (with_release release low_full)))"

definition release_specifier_to_range :: "('r, version, 'm) ranges_scheme \<Rightarrow> version_specifier \<Rightarrow> bool \<Rightarrow> 'r option" where
  "release_specifier_to_range R s trim =
    (let v = sp_version s
     in case (if trim then only_release_trimmed v else only_release v) of
          None \<Rightarrow> None
        | Some version_trimmed \<Rightarrow>
            (case sp_operator s of
               OpEqual \<Rightarrow> Some (r_singleton R version_trimmed)
             | OpExactEqual \<Rightarrow> Some (r_singleton R version_trimmed)
             | OpNotEqual \<Rightarrow> Some (r_complement R (r_singleton R version_trimmed))
             | OpLessThan \<Rightarrow> Some (r_strictly_lower_than R version_trimmed)
             | OpLessThanEqual \<Rightarrow> Some (r_lower_than R version_trimmed)
             | OpGreaterThan \<Rightarrow> Some (r_strictly_higher_than R version_trimmed)
             | OpGreaterThanEqual \<Rightarrow> Some (r_higher_than R version_trimmed)
             | OpTildeEqual \<Rightarrow>
                 (case tilde_upper_release (version_release v) of
                    None \<Rightarrow> None
                  | Some release \<Rightarrow>
                      map_option (\<lambda>u. r_from_range_bounds R (Included version_trimmed) (Excluded u)) (version_new release))
             | OpEqualStar \<Rightarrow> release_star_range R v
             | OpNotEqualStar \<Rightarrow> map_option (r_complement R) (release_star_range R v)))"

definition release_specifiers_to_ranges :: "('r, version, 'm) ranges_scheme \<Rightarrow> version_specifier list \<Rightarrow> 'r option" where
  "release_specifiers_to_ranges R specifiers =
    intersect_all R (\<lambda>s. release_specifier_to_range R s False) (r_full R) specifiers"

section \<open>Sentinels\<close>

text \<open>\<open>0.dev0\<close>, the smallest version.\<close>

definition PEP440_MIN_VERSION :: version where
  "PEP440_MIN_VERSION = with_dev (Some 0) (the (version_new [0]))"

definition strip_lower :: "version bound \<Rightarrow> version bound" where
  "strip_lower lower =
    (case lower of
       Included v \<Rightarrow> if version_local v = LMax then Excluded (without_local v) else lower
     | Excluded v \<Rightarrow> if version_local v = LMax then Excluded (without_local v) else lower
     | Unbounded \<Rightarrow> lower)"

definition strip_upper :: "bool \<Rightarrow> version bound \<Rightarrow> version bound" where
  "strip_upper lower_is_included upper =
    (case upper of
       Included v \<Rightarrow> if version_local v = LMax then Included (without_local v) else upper
     | Excluded v \<Rightarrow>
         if version_local v = LMax \<and> lower_is_included then Included (without_local v)
         else if version_local v = LMax then Excluded (without_local v)
         else upper
     | Unbounded \<Rightarrow> upper)"

definition strip_local_version_sentinels :: "('r, version, 'm) ranges_scheme \<Rightarrow> 'r \<Rightarrow> 'r" where
  "strip_local_version_sentinels R ranges =
    r_collect R (map (\<lambda>(lower, upper).
      (strip_lower lower, strip_upper (case lower of Included _ \<Rightarrow> True | _ \<Rightarrow> False) upper)) (r_iter R ranges))"

definition sentinel_successor :: "version \<Rightarrow> version option" where
  "sentinel_successor version =
    (if version_local version = LMax then
       let v = without_local version
       in (case version_dev v of
             Some dev \<Rightarrow> map_option (\<lambda>n. with_dev (Some n) v) (checked_add_u64 dev 1)
           | None \<Rightarrow>
               (case version_post v of
                  Some post \<Rightarrow> map_option (\<lambda>n. with_dev (Some 0) (with_post (Some n) v)) (checked_add_u64 post 1)
                | None \<Rightarrow> Some (with_dev (Some 0) (with_post (Some 0) v))))
     else if version_min version \<noteq> None then Some (with_dev (Some 0) (with_min None version))
     else case (version_max version, version_pre version) of
            (Some _, Some prerelease) \<Rightarrow>
              map_option (\<lambda>n. with_dev (Some 0) (with_pre (Some (Prerelease (pre_kind prerelease) n)) (with_max None version)))
                (checked_add_u64 (pre_number prerelease) 1)
          | _ \<Rightarrow> None)"

fun canonicalize_lower_bound :: "version bound \<Rightarrow> version bound" where
  "canonicalize_lower_bound (Included v) =
    (case sentinel_successor v of None \<Rightarrow> Included v | Some s \<Rightarrow> Included s)"
| "canonicalize_lower_bound (Excluded v) =
    (case sentinel_successor v of None \<Rightarrow> Excluded v | Some s \<Rightarrow> Included s)"
| "canonicalize_lower_bound Unbounded = Unbounded"

fun canonicalize_upper_bound :: "version bound \<Rightarrow> version bound" where
  "canonicalize_upper_bound (Included v) =
    (case sentinel_successor v of None \<Rightarrow> Included v | Some s \<Rightarrow> Excluded s)"
| "canonicalize_upper_bound (Excluded v) =
    (case sentinel_successor v of None \<Rightarrow> Excluded v | Some s \<Rightarrow> Excluded s)"
| "canonicalize_upper_bound Unbounded = Unbounded"

fun lower_bound_needs_canonicalization :: "version bound \<Rightarrow> bool" where
  "lower_bound_needs_canonicalization (Included v) \<longleftrightarrow>
    version_le v PEP440_MIN_VERSION \<or> sentinel_successor v \<noteq> None"
| "lower_bound_needs_canonicalization (Excluded v) \<longleftrightarrow>
    version_lt v PEP440_MIN_VERSION \<or> sentinel_successor v \<noteq> None"
| "lower_bound_needs_canonicalization Unbounded \<longleftrightarrow> False"

fun upper_bound_needs_canonicalization :: "version bound \<Rightarrow> bool" where
  "upper_bound_needs_canonicalization (Included v) \<longleftrightarrow>
    version_lt v PEP440_MIN_VERSION \<or> sentinel_successor v \<noteq> None"
| "upper_bound_needs_canonicalization (Excluded v) \<longleftrightarrow>
    version_le v PEP440_MIN_VERSION \<or> sentinel_successor v \<noteq> None"
| "upper_bound_needs_canonicalization Unbounded \<longleftrightarrow> False"

text \<open>One segment of a range; a segment below the smallest version is dropped.\<close>

definition canonicalize_segment :: "version bound \<times> version bound \<Rightarrow> (version bound \<times> version bound) option" where
  "canonicalize_segment segment =
    (case segment of (lower, upper) \<Rightarrow>
      let lower = canonicalize_lower_bound lower;
          upper = canonicalize_upper_bound upper;
          lower = (case lower of
                     Included v \<Rightarrow> if version_le v PEP440_MIN_VERSION then Unbounded else lower
                   | Excluded v \<Rightarrow> if version_lt v PEP440_MIN_VERSION then Unbounded else lower
                   | Unbounded \<Rightarrow> lower);
          below_floor = (case upper of
                     Included v \<Rightarrow> version_lt v PEP440_MIN_VERSION
                   | Excluded v \<Rightarrow> version_le v PEP440_MIN_VERSION
                   | Unbounded \<Rightarrow> False)
      in if \<not> below_floor then Some (lower, upper) else None)"

definition canonicalize_version_ranges :: "('r, version, 'm) ranges_scheme \<Rightarrow> 'r \<Rightarrow> 'r option" where
  "canonicalize_version_ranges R ranges =
    (if \<not> list_ex (\<lambda>(lower, upper). lower_bound_needs_canonicalization lower
          \<or> upper_bound_needs_canonicalization upper) (r_iter R ranges)
     then None
     else Some (r_collect R (List.map_filter canonicalize_segment (r_iter R ranges))))"

section \<open>Lower and upper bounds\<close>

definition map_bound :: "(version \<Rightarrow> version option) \<Rightarrow> version bound \<Rightarrow> version bound option" where
  "map_bound f b =
    (case b of
       Included v \<Rightarrow> map_option Included (f v)
     | Excluded v \<Rightarrow> map_option Excluded (f v)
     | Unbounded \<Rightarrow> Some Unbounded)"

definition lower_bound_new :: "version bound \<Rightarrow> version bound option" where
  "lower_bound_new b = map_bound only_release_trimmed b"

definition upper_bound_new :: "version bound \<Rightarrow> version bound option" where
  "upper_bound_new b = map_bound only_release_trimmed b"

definition lower_major_minor :: "version bound \<Rightarrow> version bound option" where
  "lower_major_minor b =
    (case b of
       Included v \<Rightarrow> map_option Included (version_new (take 2 (version_release v)))
     | Excluded v \<Rightarrow> map_option Included (version_new (take 2 (version_release v)))
     | Unbounded \<Rightarrow> Some Unbounded)"

definition upper_major_minor :: "version bound \<Rightarrow> version bound option" where
  "upper_major_minor b =
    (case b of
       Included v \<Rightarrow> map_option Included (version_new (take 2 (version_release v)))
     | Excluded v \<Rightarrow>
         if length (version_release v) > 2 \<and> version_release v ! 2 > 0
         then map_option Included (version_new (take 2 (version_release v)))
         else map_option Excluded (version_new (take 2 (version_release v)))
     | Unbounded \<Rightarrow> Some Unbounded)"

definition lower_bound_contains :: "version bound \<Rightarrow> version \<Rightarrow> bool" where
  "lower_bound_contains b v =
    (case b of Included bound \<Rightarrow> version_le bound v | Excluded bound \<Rightarrow> version_lt bound v | Unbounded \<Rightarrow> True)"

definition upper_bound_contains :: "version bound \<Rightarrow> version \<Rightarrow> bool" where
  "upper_bound_contains b v =
    (case b of Included bound \<Rightarrow> version_le v bound | Excluded bound \<Rightarrow> version_lt v bound | Unbounded \<Rightarrow> True)"

definition lower_bound_specifier :: "version bound \<Rightarrow> version_specifier option" where
  "lower_bound_specifier b =
    (case b of
       Included v \<Rightarrow> Some (greater_than_equal_version v)
     | Excluded v \<Rightarrow> Some (greater_than_version v)
     | Unbounded \<Rightarrow> None)"

definition upper_bound_specifier :: "version bound \<Rightarrow> version_specifier option" where
  "upper_bound_specifier b =
    (case b of
       Included v \<Rightarrow> Some (less_than_equal_version v)
     | Excluded v \<Rightarrow> Some (less_than_version v)
     | Unbounded \<Rightarrow> None)"

fun lower_bound_cmp :: "version bound \<Rightarrow> version bound \<Rightarrow> ordering" where
  "lower_bound_cmp Unbounded Unbounded = Equal"
| "lower_bound_cmp (Included _) Unbounded = Greater"
| "lower_bound_cmp (Excluded _) Unbounded = Greater"
| "lower_bound_cmp Unbounded (Included _) = Less"
| "lower_bound_cmp (Included left) (Included right) = version_cmp left right"
| "lower_bound_cmp (Excluded left) (Included right) =
    (case version_cmp left right of Less \<Rightarrow> Less | Equal \<Rightarrow> Greater | Greater \<Rightarrow> Greater)"
| "lower_bound_cmp Unbounded (Excluded _) = Less"
| "lower_bound_cmp (Included left) (Excluded right) =
    (case version_cmp left right of Less \<Rightarrow> Less | Equal \<Rightarrow> Less | Greater \<Rightarrow> Greater)"
| "lower_bound_cmp (Excluded left) (Excluded right) = version_cmp left right"

fun upper_bound_cmp :: "version bound \<Rightarrow> version bound \<Rightarrow> ordering" where
  "upper_bound_cmp Unbounded Unbounded = Equal"
| "upper_bound_cmp (Included _) Unbounded = Less"
| "upper_bound_cmp (Excluded _) Unbounded = Less"
| "upper_bound_cmp Unbounded (Included _) = Greater"
| "upper_bound_cmp (Included left) (Included right) = version_cmp left right"
| "upper_bound_cmp (Excluded left) (Included right) =
    (case version_cmp left right of Less \<Rightarrow> Less | Equal \<Rightarrow> Less | Greater \<Rightarrow> Greater)"
| "upper_bound_cmp Unbounded (Excluded _) = Greater"
| "upper_bound_cmp (Included left) (Excluded right) =
    (case version_cmp left right of Less \<Rightarrow> Less | Equal \<Rightarrow> Greater | Greater \<Rightarrow> Greater)"
| "upper_bound_cmp (Excluded left) (Excluded right) = version_cmp left right"

end
