(* ===== verification/Version_Ranges_Facts.thy ===== *)
theory Version_Ranges_Facts
  imports Version_Specifier_Parse Version_Ranges
begin

text \<open>
  Ranges made from specifiers contain what the specifiers contain. A version has a position (epoch,
  release and suffixes); the bounds of the ranges and their sentinels are compared by position. The
  laws of the \<open>version_ranges\<close> crate for versions are the locale \<open>lawful_ranges\<close>.
\<close>

section \<open>Positions of versions\<close>

text \<open>
  Where a version stands in the order, apart from its local part: epoch and release, then the
  suffix key.
\<close>

definition base :: "version \<Rightarrow> u64 \<times> u64 list" where
  "base v = (version_epoch v, trim_release (version_release v))"

definition suffix_key :: "version \<Rightarrow> u64 \<times> u64 \<times> u64 option \<times> u64" where
  "suffix_key v = (case sortable_tuple v of (a, n, post, dev, l) \<Rightarrow> (a, n, post, dev))"

definition point :: "version \<Rightarrow> (u64 \<times> u64 list) \<times> (u64 \<times> u64 \<times> u64 option \<times> u64)" where
  "point v = (base v, suffix_key v)"

lemma sortable_tuple_suffix: "sortable_tuple v = (case suffix_key v of (a, n, post, dev) \<Rightarrow> (a, n, post, dev, version_local v))"
  by (auto simp: suffix_key_def sortable_tuple_def Let_def split: option.split prerelease.split prerelease_kind.split)

lemma version_order_point:
  assumes "wf_version a" "wf_version b"
  shows "version_lt a b \<longleftrightarrow> point a < point b \<or> point a = point b \<and> version_local a < version_local b"
    "version_le a b \<longleftrightarrow> point a < point b \<or> point a = point b \<and> version_local a \<le> version_local b"
    "version_eq a b \<longleftrightarrow> point a = point b \<and> version_local a = version_local b"
  unfolding version_order_key [OF assms] version_key_def point_def base_def sortable_tuple_suffix
  by (auto simp: less_prod_def' split: prod.split)

lemma Segments_Nil_le [simp]: "Segments [] \<le> l"
  by (cases l) simp_all

lemma not_less_Segments_Nil [simp]: "\<not> l < Segments []"
  by (simp add: not_less)

lemma point_less: "point a < point b \<longleftrightarrow> base a < base b \<or> base a = base b \<and> suffix_key a < suffix_key b"
  by (auto simp: point_def)

lemma point_le: "point a \<le> point b \<longleftrightarrow> base a < base b \<or> base a = base b \<and> suffix_key a \<le> suffix_key b"
  by (auto simp: point_def)

text \<open>Below and above a version without a local part, only the position counts.\<close>

lemma order_at_public:
  assumes "wf_version a" "wf_version v" "version_local a = Segments []"
  shows "version_lt v a \<longleftrightarrow> point v < point a" "version_le a v \<longleftrightarrow> point a \<le> point v"
  using assms by (auto simp: version_order_point)

lemma order_at_local_max:
  assumes "wf_version a" "pep440 v" "version_local a = LMax"
  shows "version_lt v a \<longleftrightarrow> point v \<le> point a" "version_le v a \<longleftrightarrow> point v \<le> point a" "version_lt a v \<longleftrightarrow> point a < point v"
    "version_le a v \<longleftrightarrow> point a < point v"
proof -
  obtain ls where "version_local v = Segments ls" using assms(2) by (cases "version_local v") (simp_all add: pep440_def)
  then show "version_lt v a \<longleftrightarrow> point v \<le> point a" "version_le v a \<longleftrightarrow> point v \<le> point a" "version_lt a v \<longleftrightarrow> point a < point v"
    "version_le a v \<longleftrightarrow> point a < point v"
    using assms by (auto simp: version_order_point pep440_def le_less)
qed

lemma suffix_key_real:
  assumes "version_min v = None" "version_max v = None"
  shows "suffix_key v =
    (case (version_pre v, version_post v, version_dev v) of
       (Some p, post, dev) \<Rightarrow> (kind_code (pre_kind p), pre_number p, post, (case dev of Some d \<Rightarrow> d | None \<Rightarrow> u64_max))
     | (None, None, Some n) \<Rightarrow> (1, 0, None, n)
     | (None, None, None) \<Rightarrow> (5, 0, None, 0)
     | (None, Some post, dev) \<Rightarrow> (6, 0, Some post, (case dev of Some d \<Rightarrow> d | None \<Rightarrow> u64_max)))"
  using assms by (simp add: suffix_key_def sortable_tuple_real split: option.split)

lemma point_candidate: "pep440 v \<Longrightarrow> point (candidate a v) = point v" "pep440 v \<Longrightarrow> base (candidate a v) = base v"
  using candidate_facts [of v a] by (simp_all add: point_def base_def suffix_key_real pep440_def)

lemma suffix_key_cong:
  assumes "version_pre a = version_pre b" "version_post a = version_post b" "version_dev a = version_dev b"
    "version_min a = version_min b" "version_max a = version_max b"
  shows "suffix_key a = suffix_key b"
  unfolding suffix_key_def sortable_tuple_def Let_def assms
  by (cases "version_max b"; cases "version_min b"; cases "version_post b"; cases "version_dev b")
    (auto split: option.split prerelease.split prerelease_kind.split)

lemma point_with_local:
  assumes "wf_version v"
  shows "point (with_local l v) = point v" "point (without_local v) = point v"
  using assms by (simp_all add: point_def base_def accessors_make_full version_refine cong: suffix_key_cong)

section \<open>Positions of the bounds\<close>

lemma setter_facts:
  assumes "wf_version v"
  shows "base (with_dev d v) = base v" "base (with_min m v) = base v" "base (with_max m v) = base v"
    "base (with_post q v) = base v" "base (with_pre p v) = base v"
    "version_local (with_dev d v) = version_local v" "version_local (with_min m v) = version_local v"
    "version_local (with_max m v) = version_local v" "version_local (with_post q v) = version_local v"
    "version_local (with_pre p v) = version_local v"
  using assms by (simp_all add: base_def accessors_make_full version_refine)

lemma is_defs_real: "any_prerelease v \<longleftrightarrow> version_pre v \<noteq> None \<or> version_dev v \<noteq> None" "is_post v \<longleftrightarrow> version_post v \<noteq> None"
  by (simp_all add: any_prerelease_def is_pre_def is_dev_def is_post_def)

lemma kind_code_bounds [simp]: "0 < kind_code k" "1 < kind_code k" "kind_code k < 5" "kind_code k < 6"
  by (cases k; simp)+

lemma kind_code_not [simp]: "\<not> 5 \<le> kind_code k" "\<not> 6 \<le> kind_code k" "\<not> 5 < kind_code k" "\<not> 6 < kind_code k"
    "kind_code k \<noteq> 1" "kind_code k \<noteq> 5" "kind_code k \<noteq> 6" "\<not> kind_code k \<le> 1"
  by (cases k; simp add: word_le_nat_alt)+

lemma codes_not [simp]: "\<not> (5 :: u64) \<le> 1" "\<not> (6 :: u64) \<le> 1" "\<not> (6 :: u64) \<le> 5"
  by (simp_all add: word_le_nat_alt)

lemma u64_max_top [simp]: "n \<le> u64_max" "\<not> u64_max < n"
  by (simp_all add: not_less)

lemma less_u64_max: "n \<noteq> u64_max \<Longrightarrow> n < u64_max"
  by (simp add: order.not_eq_order_implies_strict)

lemma less_plus_one: "n \<noteq> u64_max \<Longrightarrow> (m < n + 1 \<longleftrightarrow> m \<le> n)" "n \<noteq> u64_max \<Longrightarrow> (n + 1 \<le> m \<longleftrightarrow> n < m)" for n m :: u64
proof -
  assume "n \<noteq> u64_max"
  then have "unat (n + 1) = Suc (unat n)" by (rule unat_plus_one)
  then show "m < n + 1 \<longleftrightarrow> m \<le> n" "n + 1 \<le> m \<longleftrightarrow> n < m" by (auto simp: word_le_nat_alt word_less_nat_alt)
qed

lemma plus_one_less: "n \<noteq> u64_max \<Longrightarrow> n + 1 < m \<Longrightarrow> n < m" for n m :: u64
  using less_plus_one(2) [of n m] by (simp add: less_imp_le)

text \<open>The earliest version of a release is its development release 0, after the \<open>min\<close> sentinel.\<close>

lemma suffix_key_lowest:
  assumes "pep440 v" shows "(1, 0, None, 0) \<le> suffix_key v" "(0, 0, None, n) < suffix_key v"
  using assms by (auto simp: suffix_key_real pep440_def split: option.split)

lemma point_same_base:
  "base v < base x \<Longrightarrow> point v < point x" "base v < base x \<Longrightarrow> \<not> point x \<le> point v"
  "base x < base v \<Longrightarrow> \<not> point v < point x"
  "base v = base x \<Longrightarrow> point v < point x \<longleftrightarrow> suffix_key v < suffix_key x"
  "base v = base x \<Longrightarrow> point x \<le> point v \<longleftrightarrow> suffix_key x \<le> suffix_key v"
  by (auto simp: point_less point_le)

section \<open>Lawful ranges\<close>

definition in_segment :: "version \<Rightarrow> version bound \<times> version bound \<Rightarrow> bool" where
  "in_segment v segment \<longleftrightarrow> in_lower (fst segment) v \<and> in_upper (snd segment) v"

lemma in_lower_above: "wf_bound wf_version b \<Longrightarrow> wf_version v \<Longrightarrow> in_lower b v \<longleftrightarrow> above_lower version_key b v"
  by (cases b) (auto simp: version_order_key)

lemma in_upper_below: "wf_bound wf_version b \<Longrightarrow> wf_version v \<Longrightarrow> in_upper b v \<longleftrightarrow> below_upper version_key b v"
  by (cases b) (auto simp: version_order_key)

lemma in_segment_within: "wf_segment wf_version s \<Longrightarrow> wf_version v \<Longrightarrow> in_segment v s \<longleftrightarrow> within version_key v s"
  by (simp add: wf_segment_def in_segment_def within_def in_lower_above in_upper_below)

lemma list_ex_segment_within:
  "list_all (wf_segment wf_version) xs \<Longrightarrow> wf_version v \<Longrightarrow> list_ex (in_segment v) xs \<longleftrightarrow> list_ex (within version_key v) xs"
  by (auto simp: list_ex_iff list_all_iff in_segment_within)

text \<open>
  Ranges of versions: the laws of \<open>range_laws\<close> for well-formed versions and their order, in terms
  of the comparisons of the code.
\<close>

locale lawful_ranges = range_laws R wf_version version_key for R :: "('r, version, 'm) ranges_scheme"
begin

lemmas contains_full = full_law
lemmas contains_complement = complement_law
lemmas contains_intersection = intersection_law

lemma contains_singleton: "wf_version a \<Longrightarrow> wf_version v \<Longrightarrow> r_contains R (r_singleton R a) v \<longleftrightarrow> version_eq v a"
  by (simp add: singleton_law version_order_key)

lemma contains_between: "wf_version a \<Longrightarrow> wf_version b \<Longrightarrow> wf_version v \<Longrightarrow>
    r_contains R (r_between R a b) v \<longleftrightarrow> version_le a v \<and> version_lt v b"
  by (simp add: between_law version_order_key)

lemma contains_higher_than: "wf_version a \<Longrightarrow> wf_version v \<Longrightarrow> r_contains R (r_higher_than R a) v \<longleftrightarrow> version_le a v"
  by (simp add: higher_than_law version_order_key)

lemma contains_strictly_higher_than:
  "wf_version a \<Longrightarrow> wf_version v \<Longrightarrow> r_contains R (r_strictly_higher_than R a) v \<longleftrightarrow> version_lt a v"
  by (simp add: strictly_higher_than_law version_order_key)

lemma contains_lower_than: "wf_version a \<Longrightarrow> wf_version v \<Longrightarrow> r_contains R (r_lower_than R a) v \<longleftrightarrow> version_le v a"
  by (simp add: lower_than_law version_order_key)

lemma contains_strictly_lower_than:
  "wf_version a \<Longrightarrow> wf_version v \<Longrightarrow> r_contains R (r_strictly_lower_than R a) v \<longleftrightarrow> version_lt v a"
  by (simp add: strictly_lower_than_law version_order_key)

lemma contains_from_range_bounds: "wf_version a \<Longrightarrow> wf_version b \<Longrightarrow> wf_version v \<Longrightarrow>
    r_contains R (r_from_range_bounds R (Included a) (Excluded b)) v \<longleftrightarrow> version_le a v \<and> version_lt v b"
  by (simp add: from_range_bounds_law version_order_key within_def)

lemma contains_iter: "wf_version v \<Longrightarrow> r_contains R r v \<longleftrightarrow> list_ex (in_segment v) (r_iter R r)"
  using iter_wf [of r] by (simp add: iter_law list_ex_segment_within)

lemma contains_collect:
  "wf_version v \<Longrightarrow> list_all (wf_segment wf_version) xs \<Longrightarrow> r_contains R (r_collect R xs) v \<longleftrightarrow> list_ex (in_segment v) xs"
  by (simp add: collect_law list_ex_segment_within)

lemma equal_range_contains:
  assumes "pep440 a" "pep440 v"
  shows "\<exists>r. equal_range R a = Some r \<and> (r_contains R r v \<longleftrightarrow> version_eq (candidate a v) a)"
proof -
  have w: "wf_version a" "wf_version v" using assms by (simp_all add: pep440_def)
  obtain ls where ls: "version_local a = Segments ls" using assms(1) by (cases "version_local a") (simp_all add: pep440_def)
  show ?thesis
  proof (cases "ls = []")
    case True
    have m: "wf_version (with_local LMax a)" "version_local (with_local LMax a) = LMax" "point (with_local LMax a) = point a"
      using w by (simp_all add: version_inv point_with_local accessors_make_full version_refine)
    have "version_eq (candidate a v) a \<longleftrightarrow> point v = point a"
      using candidate_facts(1,7) [OF assms(2)] True ls w by (simp add: version_order_point pep440_def point_candidate [OF assms(2)])
    moreover have "version_le a v \<and> version_lt v (with_local LMax a) \<longleftrightarrow> point v = point a"
      using order_at_public(2) [OF w] order_at_local_max(1) [OF m(1) assms(2) m(2)] True ls m(3) by auto
    ultimately show ?thesis using True ls contains_between [OF w(1) m(1) w(2)] by (simp add: equal_range_def)
  next
    case False
    then have "candidate a v = v" using ls by (simp add: candidate_def)
    then show ?thesis using False ls contains_singleton [OF w] by (simp add: equal_range_def)
  qed
qed

lemma less_than_range_contains:
  assumes "pep440 a" "pep440 v" "version_local a = Segments []"
  shows "r_contains R (less_than_range R a) v \<longleftrightarrow> contains_less_than a (candidate a v)"
proof -
  have w: "wf_version a" "wf_version v" "wf_version (candidate a v)" using assms(1,2) candidate_facts(1) [OF assms(2), of a]
    by (simp_all add: pep440_def)
  define z where "z = with_dev (Some 0) a"
  define m where "m = with_min (Some 0) a"
  have z: "wf_version z" "version_local z = Segments []" "base z = base a"
    using w(1) assms(3) by (simp_all add: z_def version_inv setter_facts)
  have m: "wf_version m" "version_local m = Segments []" "base m = base a"
    using w(1) assms(3) by (simp_all add: m_def version_inv setter_facts)
  have pre: "any_prerelease (candidate a v) \<longleftrightarrow> any_prerelease v"
    using candidate_facts [OF assms(2)] by (simp add: is_defs_real)
  have e: "version_epoch (candidate a v) = version_epoch v" by (rule candidate_facts [OF assms(2)])
  have low: "version_epoch v < version_epoch a \<Longrightarrow> base v < base a" by (simp add: base_def)
  have c: "contains_less_than a (candidate a v) \<longleftrightarrow> version_epoch v < version_epoch a
      \<or> \<not> (\<not> any_prerelease a \<and> any_prerelease v \<and> point z \<le> point v) \<and> point v < point a"
    unfolding contains_less_than_def
    using order_at_public(1) [OF w(1,3) assms(3)] order_at_public(2) [OF z(1) w(3) z(2)] pre e z_def
    by (simp add: point_candidate [OF assms(2)] Let_def)
  show ?thesis
  proof (cases "any_prerelease a")
    case True
    then have "r_contains R (less_than_range R a) v \<longleftrightarrow> point v < point a"
      using contains_strictly_lower_than [OF w(1,2)] order_at_public(1) [OF w(1,2) assms(3)] by (simp add: less_than_range_def)
    then show ?thesis using c True low point_same_base(1) [of v a] by blast
  next
    case False
    then have np: "version_pre a = None" "version_dev a = None" by (simp_all add: is_defs_real)
    have sa: "suffix_key a = (case version_post a of None \<Rightarrow> (5, 0, None, 0) | Some p \<Rightarrow> (6, 0, Some p, u64_max))"
      using assms(1) np by (simp add: suffix_key_real pep440_def split: option.split)
    have sz: "suffix_key z = (case version_post a of None \<Rightarrow> (1, 0, None, 0) | Some p \<Rightarrow> (6, 0, Some p, 0))"
      using assms(1) np w(1) unfolding z_def
      by (subst suffix_key_real) (simp_all add: pep440_def accessors_make_full version_refine split: option.split)
    show ?thesis
    proof (cases "version_post a")
      case None
      have sm: "suffix_key m = (0, 0, None, 0)"
        using assms(1) None np w(1) by (simp add: m_def suffix_key_def sortable_tuple_def Let_def pep440_def accessors_make_full version_refine)
      have "r_contains R (less_than_range R a) v \<longleftrightarrow> point v < point m"
        using contains_strictly_lower_than [OF m(1) w(2)] order_at_public(1) [OF m(1) w(2) m(2)] False None
        by (simp add: less_than_range_def is_defs_real m_def)
      moreover have "suffix_key v < (5, 0, None, 0) \<Longrightarrow> any_prerelease v"
        using assms(2) by (auto simp: suffix_key_real pep440_def is_defs_real split: option.splits)
      moreover have "\<not> suffix_key v < suffix_key m" "suffix_key z \<le> suffix_key v"
        using suffix_key_lowest(1) [OF assms(2)] suffix_key_lowest(2) [OF assms(2), of 0] sm sz None by (simp_all add: not_less less_imp_le)
      ultimately show ?thesis
        using low c False m(3) z(3) sa None
        by (cases "base v" "base a" rule: linorder_cases) (auto simp: point_same_base)
    next
      case (Some p)
      have "r_contains R (less_than_range R a) v \<longleftrightarrow> point v < point z"
        using contains_strictly_lower_than [OF z(1) w(2)] order_at_public(1) [OF z(1) w(2) z(2)] False Some
        by (simp add: less_than_range_def is_defs_real z_def)
      moreover have "suffix_key v < (6, 0, Some p, u64_max) \<Longrightarrow> \<not> any_prerelease v \<Longrightarrow> suffix_key v < (6, 0, Some p, 0)"
        using assms(2) by (auto simp: suffix_key_real pep440_def is_defs_real split: option.splits)
      moreover have "suffix_key v < (6, 0, Some p, 0) \<Longrightarrow> suffix_key v < (6, 0, Some p, u64_max)"
        by (erule order.strict_trans2) simp
      ultimately show ?thesis
        using low c False z(3) sa sz Some
        by (cases "base v" "base a" rule: linorder_cases) (auto simp: point_same_base not_le)
    qed
  qed
qed

end

lemma contains_greater_than_point:
  assumes "pep440 a" "pep440 v" "version_local a = Segments []"
  shows "contains_greater_than a (candidate a v) \<longleftrightarrow> point a < point v \<and> \<not> (base v = base a \<and> \<not> is_post a \<and> is_post v)"
proof -
  have w: "wf_version a" "wf_version (candidate a v)" using assms(1) candidate_facts(1) [OF assms(2), of a] by (simp_all add: pep440_def)
  note f = candidate_facts [OF assms(2), of a]
  have l: "version_local (candidate a v) = Segments []" using f(7) assms(3) by simp
  have "version_lt a (candidate a v) \<longleftrightarrow> point a < point v"
    using version_order_point(1) [OF w] l assms(3) point_candidate [OF assms(2)] by simp
  moreover have "point a < point v" if "version_epoch a < version_epoch v" using that by (simp add: point_def base_def)
  moreover have "\<not> point a < point v" if "version_epoch v < version_epoch a" using that by (auto simp: point_less base_def)
  moreover have "compare_release (version_release a) (version_release v) = Equal \<longleftrightarrow> trim_release (version_release a) = trim_release (version_release v)"
    by (simp add: compare_release_trim)
  ultimately show ?thesis
    using f l unfolding contains_greater_than_def is_defs_real
    by (cases "version_epoch a" "version_epoch v" rule: linorder_cases) (auto simp: base_def is_local_def)
qed

context lawful_ranges
begin

lemma greater_than_range_contains:
  assumes "pep440 a" "pep440 v" "version_local a = Segments []"
    and ok: "\<not> (any_prerelease a \<and> \<not> is_post a \<and> is_post v \<and> base v = base a)"
  shows "r_contains R (greater_than_range R a) v \<longleftrightarrow> contains_greater_than a (candidate a v)"
proof -
  have w: "wf_version a" "wf_version v" using assms(1,2) by (simp_all add: pep440_def)
  note c = contains_greater_than_point [OF assms(1-3)]
  show ?thesis
  proof (cases "version_dev a")
    case (Some d)
    define h where "h = with_dev (Some (d + 1)) a"
    have h: "wf_version h" "version_local h = Segments []" "base h = base a"
      using w(1) assms(3) by (simp_all add: h_def version_inv setter_facts)
    have d: "d \<noteq> u64_max" using assms(1) Some by (simp add: pep440_def)
    have "suffix_key h \<le> suffix_key v \<longleftrightarrow> suffix_key a < suffix_key v"
    proof -
      have "\<exists>x y z. suffix_key a = (x, y, z, d) \<and> suffix_key h = (x, y, z, d + 1)"
        using assms(1) Some w(1) unfolding h_def
        by (subst (1 2) suffix_key_real) (auto simp: pep440_def accessors_make_full version_refine split: option.split)
      then show ?thesis by (cases "suffix_key v") (auto simp: less_plus_one(2) [OF d])
    qed
    then have "point h \<le> point v \<longleftrightarrow> point a < point v" using h(3) by (simp add: point_le point_less)
    then have "r_contains R (greater_than_range R a) v \<longleftrightarrow> point a < point v"
      using contains_higher_than [OF h(1) w(2)] order_at_public(2) [OF h(1) w(2) h(2)] Some
      by (simp add: greater_than_range_def h_def)
    then show ?thesis using c ok Some by (auto simp: is_defs_real)
  next
    case None
    show ?thesis
    proof (cases "is_post a")
      case True
      define h where "h = with_local LMax a"
      have h: "wf_version h" "version_local h = LMax" "point h = point a"
        using w by (simp_all add: h_def version_inv point_with_local accessors_make_full version_refine)
      have "r_contains R (greater_than_range R a) v \<longleftrightarrow> point a < point v"
        using contains_strictly_higher_than [OF h(1) w(2)] order_at_local_max(3) [OF h(1) assms(2) h(2)] h(3) None True
        by (simp add: greater_than_range_def h_def)
      then show ?thesis using c True by simp
    next
      case False
      define h where "h = with_max (Some 0) a"
      have h: "wf_version h" "version_local h = Segments []" "base h = base a"
        using w(1) assms(3) by (simp_all add: h_def version_inv setter_facts)
      have sh: "suffix_key h = (case version_pre a of None \<Rightarrow> (6, 0, Some u64_max, u64_max)
          | Some p \<Rightarrow> (kind_code (pre_kind p), pre_number p, Some u64_max, u64_max))"
        using assms(1) w(1) None False
        by (simp add: h_def suffix_key_def sortable_tuple_def Let_def pep440_def is_defs_real accessors_make_full version_refine
            split: option.split prerelease.split prerelease_kind.split)
      have sa: "suffix_key a = (case version_pre a of None \<Rightarrow> (5, 0, None, 0) | Some p \<Rightarrow> (kind_code (pre_kind p), pre_number p, None, u64_max))"
        using assms(1) None False by (simp add: suffix_key_real pep440_def is_defs_real split: option.split)
      have ne: "suffix_key h \<noteq> suffix_key v"
        unfolding sh using assms(2) by (auto simp: suffix_key_real pep440_def split: option.splits)
      then have "version_lt h v \<longleftrightarrow> point h < point v" using version_order_point(1) [OF h(1) w(2)] h(2) by (auto simp: point_def)
      then have r: "r_contains R (greater_than_range R a) v \<longleftrightarrow> point h < point v"
        using contains_strictly_higher_than [OF h(1) w(2)] None False by (simp add: greater_than_range_def h_def)
      have s: "suffix_key h < suffix_key v \<longleftrightarrow> suffix_key a < suffix_key v \<and> \<not> is_post v" if "base v = base a"
      proof (cases "version_pre a")
        case None
        then show ?thesis unfolding sh sa using assms(2) less_u64_max
          by (auto simp: suffix_key_real pep440_def is_defs_real split: option.splits)
      next
        case (Some p)
        then have "\<not> is_post v" using ok False that by (auto simp: is_defs_real)
        then show ?thesis unfolding sh sa using Some assms(2)
          by (auto simp: suffix_key_real pep440_def is_defs_real split: option.splits)
      qed
      show ?thesis using r c s h(3) False
        by (cases "base v" "base a" rule: linorder_cases) (auto simp: point_less)
    qed
  qed
qed

end

lemma increment_last_squeeze:
  assumes "xs \<noteq> []" "last xs \<noteq> u64_max" "\<And>i. i < length xs \<Longrightarrow> get_or_zero a i = xs ! i"
  shows "trim_release a \<le> trim_release r \<and> trim_release r < trim_release (butlast xs @ [last xs + 1])
    \<longleftrightarrow> trim_release a \<le> trim_release r \<and> release_prefix xs r"
proof -
  let ?k = "length xs - 1" and ?b = "butlast xs @ [last xs + 1]"
  have k: "?k < length xs" "last xs = xs ! ?k" using assms(1) by (simp_all add: last_conv_nth)
  have "trim_release a \<le> trim_release r \<and> trim_release r < trim_release ?b
    \<longleftrightarrow> trim_release a \<le> trim_release r \<and> (\<forall>j \<le> ?k. get_or_zero r j = get_or_zero a j)"
  proof (rule release_squeeze)
    show "get_or_zero ?b j = get_or_zero a j" if "j < ?k" for j
      using that assms(3) [of j] by (simp add: get_or_zero_def nth_append nth_butlast)
    show "get_or_zero ?b ?k = get_or_zero a ?k + 1"
      using assms(3) [OF k(1)] k(2) by (simp add: get_or_zero_def nth_append)
    show "get_or_zero ?b j = 0" if "?k < j" for j
    proof -
      have "\<not> j < length xs" using that by linarith
      then show ?thesis using assms(1) by (simp add: get_or_zero_def)
    qed
    show "get_or_zero a ?k \<noteq> u64_max" using assms(2,3) k by simp
  qed
  also have "(\<forall>j \<le> ?k. get_or_zero r j = get_or_zero a j) \<longleftrightarrow> release_prefix xs r"
    unfolding release_prefix_iff using assms(1,3) by (auto simp: Suc_le_eq le_simps(2) [symmetric])
  finally show ?thesis .
qed

lemma increment_last_prefix:
  assumes "xs \<noteq> []" "last xs \<noteq> u64_max"
  shows "trim_release xs \<le> trim_release r \<and> trim_release r < trim_release (butlast xs @ [last xs + 1]) \<longleftrightarrow> release_prefix xs r"
proof -
  have "release_prefix xs r \<Longrightarrow> trim_release xs \<le> trim_release r"
    by (rule release_prefix_le [where k = "length xs - 1"])
      (use assms(1) in \<open>auto simp: release_prefix_iff get_or_zero_def less_Suc_eq_le [symmetric]\<close>)
  then show ?thesis using increment_last_squeeze [OF assms, of xs r] by (auto simp: get_or_zero_def)
qed

text \<open>Only the base of a version counts below a bound that is the first development release of its release.\<close>

lemma order_at_dev0:
  assumes "wf_version h" "pep440 v" "version_local h = Segments []" "suffix_key h = (1, 0, None, 0)"
  shows "version_lt v h \<longleftrightarrow> base v < base h" "version_le h v \<longleftrightarrow> base h \<le> base v"
proof -
  have w: "wf_version v" using assms(2) by (simp add: pep440_def)
  have "\<not> suffix_key v < suffix_key h" "suffix_key h \<le> suffix_key v"
    using suffix_key_lowest(1) [OF assms(2)] assms(4) by (simp_all add: not_less)
  then show "version_lt v h \<longleftrightarrow> base v < base h" "version_le h v \<longleftrightarrow> base h \<le> base v"
    using order_at_public [OF assms(1) w assms(3)] by (auto simp: point_less point_le)
qed

lemma with_dev0_facts:
  assumes "wf_version v" "version_pre v = None" "version_post v = None" "version_min v = None" "version_max v = None"
  shows "suffix_key (with_dev (Some 0) v) = (1, 0, None, 0)"
  using assms by (subst suffix_key_real) (simp_all add: accessors_make_full version_refine)

lemma base_less: "base a < base b \<longleftrightarrow> version_epoch a < version_epoch b
    \<or> version_epoch a = version_epoch b \<and> trim_release (version_release a) < trim_release (version_release b)"
  "base a \<le> base b \<longleftrightarrow> version_epoch a < version_epoch b
    \<or> version_epoch a = version_epoch b \<and> trim_release (version_release a) \<le> trim_release (version_release b)"
  by (auto simp: base_def)

context lawful_ranges
begin

lemma star_range_contains:
  assumes "pep440 a" "pep440 v" "version_pre a = None" "version_post a = None" "version_local a = Segments []"
  shows "\<exists>r. star_range R a = Some r \<and> (r_contains R r v \<longleftrightarrow>
    version_epoch a = version_epoch v \<and> release_prefix (version_release a) (version_release v))"
proof -
  have w: "wf_version a" "wf_version v" using assms(1,2) by (simp_all add: pep440_def)
  let ?r = "version_release a"
  have r: "?r \<noteq> []" using assms(1) by (simp add: pep440_def)
  then have l: "last ?r \<noteq> u64_max" using assms(1) last_in_set [OF r] unfolding pep440_def by metis
  define low where "low = with_dev (Some 0) a"
  have low: "wf_version low" "version_local low = Segments []" "suffix_key low = (1, 0, None, 0)" "version_release low = ?r"
    "version_epoch low = version_epoch a" "version_post low = None" "version_pre low = None"
    using w(1) assms with_dev0_facts [of a] by (simp_all add: low_def version_inv pep440_def accessors_make_full version_refine)
  let ?b = "butlast ?r @ [last ?r + 1]"
  have "?b \<noteq> []" by simp
  then obtain high where hi: "with_release ?b low = Some high" "wf_version high" "make_full high = (make_full low)\<lparr>f_release := ?b\<rparr>"
    using with_release_eq [OF low(1)] by blast
  have high: "version_local high = Segments []" "version_release high = ?b" "version_epoch high = version_epoch a"
    using low hi(3) by (simp_all add: accessors_make_full)
  have "suffix_key high = suffix_key low" by (rule suffix_key_cong) (simp_all add: accessors_make_full hi(3))
  then have sh: "suffix_key high = (1, 0, None, 0)" using low(3) by simp
  have "star_range R a = Some (r_from_range_bounds R (Included low) (Excluded high))"
    using hi(1) low r by (simp add: star_range_def star_range_bounds_def Let_def low_def [symmetric] increment_last_def)
  moreover have "r_contains R (r_from_range_bounds R (Included low) (Excluded high)) v \<longleftrightarrow> base low \<le> base v \<and> base v < base high"
    using contains_from_range_bounds [OF low(1) hi(2) w(2)] order_at_dev0(2) [OF low(1) assms(2) low(2,3)]
      order_at_dev0(1) [OF hi(2) assms(2) high(1) sh] by simp
  moreover have "\<dots> \<longleftrightarrow> version_epoch a = version_epoch v \<and> trim_release ?r \<le> trim_release (version_release v)
      \<and> trim_release (version_release v) < trim_release ?b"
    using low(4,5) high(2,3) by (auto simp: base_less)
  moreover have "trim_release ?r \<le> trim_release (version_release v) \<and> trim_release (version_release v) < trim_release ?b
      \<longleftrightarrow> release_prefix ?r (version_release v)"
    by (rule increment_last_prefix [OF r l])
  ultimately show ?thesis by simp
qed

lemma tilde_range_contains:
  assumes "pep440 a" "pep440 v" "version_local a = Segments []" "length (version_release a) > 1"
  shows "\<exists>r. tilde_range R a = Some r \<and> (r_contains R r v \<longleftrightarrow> contains_tilde a (candidate a v) = Some True)"
proof -
  have w: "wf_version a" "wf_version v" "wf_version (candidate a v)" using assms(1,2) candidate_facts(1) [OF assms(2), of a]
    by (simp_all add: pep440_def)
  let ?r = "version_release a" and ?x = "butlast (version_release a)"
  have x: "?x \<noteq> []" using assms(4) by (cases ?r rule: rev_cases) auto
  then have "last ?x \<in> set ?r" using in_set_butlastD last_in_set by metis
  then have l: "last ?x \<noteq> u64_max" using assms(1) by (auto simp: pep440_def)
  let ?b = "butlast ?x @ [last ?x + 1]"
  have "?b \<noteq> []" by simp
  then obtain u where u: "version_new ?b = Some u" "wf_version u" "make_full u = release_only ?b" by (rule version_new_eq)
  define h where "h = with_dev (Some 0) (with_epoch (version_epoch a) u)"
  have h: "wf_version h" "version_local h = Segments []" "version_release h = ?b" "version_epoch h = version_epoch a"
    using u by (simp_all add: h_def version_inv version_refine accessors_make_full release_only_def)
  have sh: "suffix_key h = (1, 0, None, 0)"
    unfolding h_def using u by (intro with_dev0_facts) (simp_all add: version_inv version_refine accessors_make_full release_only_def)
  have "tilde_range R a = Some (r_from_range_bounds R (Included a) (Excluded h))"
    using assms(4) x u(1) by (simp add: tilde_range_def tilde_upper_release_def increment_last_def h_def)
  moreover have "r_contains R (r_from_range_bounds R (Included a) (Excluded h)) v \<longleftrightarrow> point a \<le> point v \<and> base v < base h"
    using contains_from_range_bounds [OF w(1) h(1) w(2)] order_at_public(2) [OF w(1,2) assms(3)]
      order_at_dev0(1) [OF h(1) assms(2) h(2) sh] by simp
  moreover have "\<dots> \<longleftrightarrow> version_epoch a = version_epoch v \<and> point a \<le> point v \<and> trim_release ?r \<le> trim_release (version_release v)
      \<and> trim_release (version_release v) < trim_release ?b"
  proof -
    have "point a \<le> point v \<Longrightarrow> base a \<le> base v" by (auto simp: point_le)
    then show ?thesis using h(3,4) by (auto simp: base_less)
  qed
  moreover have "\<dots> \<longleftrightarrow> version_epoch a = version_epoch v \<and> point a \<le> point v \<and> release_prefix ?x (version_release v)"
  proof -
    have "version_epoch a = version_epoch v \<Longrightarrow> point a \<le> point v \<Longrightarrow> trim_release ?r \<le> trim_release (version_release v)"
      by (auto simp: point_le base_def)
    moreover have "get_or_zero ?r i = ?x ! i" if "i < length ?x" for i using that by (auto simp: get_or_zero_def nth_butlast)
    ultimately show ?thesis using increment_last_squeeze [OF x l, of ?r "version_release v"] by blast
  qed
  moreover have "contains_tilde a (candidate a v) = Some True \<longleftrightarrow> version_epoch a = version_epoch v \<and> point a \<le> point v
      \<and> release_prefix ?x (version_release v)"
    using contains_tilde_eq [OF w(1,3) assms(4)] order_at_public(2) [OF w(1,3) assms(3)] candidate_facts(2,3) [OF assms(2)]
      point_candidate(1) [OF assms(2)] by auto
  ultimately show ?thesis by auto
qed

lemma specifier_to_ranges_contains:
  assumes s: "parsed_specifier s" and v: "pep440 v" and op: "sp_operator s \<noteq> OpExactEqual"
    and ok: "\<not> (sp_operator s = OpGreaterThan \<and> any_prerelease (sp_version s) \<and> \<not> is_post (sp_version s)
                 \<and> is_post v \<and> base v = base (sp_version s))"
  shows "\<exists>r. specifier_to_ranges R s = Some r \<and> (r_contains R r v \<longleftrightarrow> contains s v = Some True)"
proof -
  let ?a = "sp_version s"
  have a: "pep440 ?a" using s by (simp add: parsed_specifier_def parsed_version_def)
  have w: "wf_version ?a" "wf_version v" "wf_version (candidate ?a v)" using a v candidate_facts(1) [OF v, of ?a] by (simp_all add: pep440_def)
  have loc: "version_local ?a = Segments []" if "sp_operator s \<notin> {OpEqual, OpNotEqual, OpExactEqual}"
    using s that by (cases s; cases "sp_operator s") (auto simp: parsed_specifier_def valid_specifier_def from_version_def is_local_def
        is_local_compatible_def split: if_splits)
  have comp: "wf_version v \<Longrightarrow> (r_contains R (r_complement R r) v \<longleftrightarrow> \<not> r_contains R r v)" for r by (rule contains_complement)
  note c = contains_candidate [of s v] candidate_facts(2,3) [OF v]
  note star = star_range_contains [OF a v]
  show ?thesis
  proof (cases "sp_operator s")
    case OpEqual
    then show ?thesis using equal_range_contains [OF a v] c by (auto simp: specifier_to_ranges_def Let_def)
  next
    case OpNotEqual
    have "version_eq ?a (candidate ?a v) \<longleftrightarrow> version_eq (candidate ?a v) ?a" using w by (auto simp: version_order_point)
    then show ?thesis using OpNotEqual equal_range_contains [OF a v] c comp w(2) by (auto simp: specifier_to_ranges_def Let_def)
  next
    case OpLessThanEqual
    then have l: "version_local ?a = Segments []" using loc by simp
    have m: "wf_version (with_local LMax ?a)" "version_local (with_local LMax ?a) = LMax" "point (with_local LMax ?a) = point ?a"
      using w by (simp_all add: version_inv point_with_local accessors_make_full version_refine)
    have "version_le (candidate ?a v) ?a \<longleftrightarrow> point v \<le> point ?a"
      using version_order_point(2) [OF w(3,1)] candidate_facts(7) [OF v, of ?a] l point_candidate [OF v] by auto
    then show ?thesis using OpLessThanEqual c contains_lower_than [OF m(1) w(2)] order_at_local_max(2) [OF m(1) v m(2)] m(3)
      by (simp add: specifier_to_ranges_def Let_def)
  next
    case OpGreaterThanEqual
    then have l: "version_local ?a = Segments []" using loc by simp
    show ?thesis using OpGreaterThanEqual c contains_higher_than [OF w(1,2)] order_at_public(2) [OF w(1,2) l] order_at_public(2) [OF w(1,3) l]
        point_candidate [OF v] by (simp add: specifier_to_ranges_def Let_def)
  next
    case OpTildeEqual
    then have "length (version_release ?a) > 1"
      using s by (auto simp: parsed_specifier_def valid_specifier_def from_version_def split: if_splits)
    then show ?thesis using OpTildeEqual loc tilde_range_contains [OF a v] c by (simp add: specifier_to_ranges_def Let_def)
  next
    case OpLessThan
    then show ?thesis using loc less_than_range_contains [OF a v] c by (simp add: specifier_to_ranges_def Let_def)
  next
    case OpGreaterThan
    then show ?thesis using loc ok greater_than_range_contains [OF a v] c by (simp add: specifier_to_ranges_def Let_def)
  next
    case OpEqualStar
    then show ?thesis using loc star s c by (auto simp: specifier_to_ranges_def Let_def parsed_specifier_def is_star_def)
  next
    case OpNotEqualStar
    then show ?thesis using loc star s c comp w(2) by (auto simp: specifier_to_ranges_def Let_def parsed_specifier_def is_star_def)
  qed (use op in simp)
qed

end

section \<open>Sentinels\<close>

text \<open>
  The bounds a range of specifiers has: a version, or a version with one of the three internal
  sentinels, \<open>max\<close> as the local part, \<open>min\<close> on a bare release, \<open>max\<close> on a final or
  pre-release.
\<close>

definition range_bound :: "version \<Rightarrow> bool" where
  "range_bound b \<longleftrightarrow> wf_version b \<and>
     (version_min b = None \<and> version_max b = None
      \<or> version_local b = Segments [] \<and> version_post b = None \<and> version_dev b = None
        \<and> (version_min b = Some 0 \<and> version_max b = None \<and> version_pre b = None \<or> version_min b = None \<and> version_max b = Some 0))"

lemma checked_add_one: "checked_add_u64 n 1 = Some m \<longleftrightarrow> n \<noteq> u64_max \<and> m = n + 1"
proof -
  have "n = u64_max \<longleftrightarrow> unat n = 2 ^ 64 - 1" by (simp only: word_unat_eq_iff unat_u64_max)
  moreover have "unat n < 2 ^ 64" using unsigned_less [of n] by simp
  ultimately have "unat n + unat (1 :: u64) < 2 ^ 64 \<longleftrightarrow> n \<noteq> u64_max" unfolding unat_1 by linarith
  then show ?thesis unfolding checked_add_u64_def by auto
qed

lemma sentinel_successor_order:
  assumes b: "range_bound b" and s: "sentinel_successor b = Some s" and v: "pep440 v"
  shows "wf_version s \<and> (version_lt b v \<longleftrightarrow> version_le s v) \<and> (version_le b v \<longleftrightarrow> version_le s v)
    \<and> (version_lt v b \<longleftrightarrow> version_lt v s) \<and> (version_le v b \<longleftrightarrow> version_lt v s)"
proof -
  have w: "wf_version b" "wf_version v" using b v by (simp_all add: range_bound_def pep440_def)
  have *: ?thesis if h: "wf_version s" "version_local s = Segments []" "base s = base b"
      and p: "version_lt b v \<longleftrightarrow> point b < point v" "version_le b v \<longleftrightarrow> point b < point v"
      and sk: "suffix_key b < suffix_key v \<longleftrightarrow> suffix_key s \<le> suffix_key v"
  proof -
    have "point b < point v \<longleftrightarrow> point s \<le> point v" using h(3) sk by (simp add: point_less point_le)
    moreover have "version_lt v b \<longleftrightarrow> \<not> version_le b v" "version_le v b \<longleftrightarrow> \<not> version_lt b v" "version_lt v s \<longleftrightarrow> \<not> version_le s v"
      using w h(1) by (auto simp: version_order_key)
    ultimately show ?thesis using order_at_public(2) [OF h(1) w(2) h(2)] p h(1) by simp
  qed
  show ?thesis
  proof (cases "version_local b = LMax")
    case True
    note lmax = order_at_local_max(3,4) [OF w(1) v True]
    have mm: "version_min b = None" "version_max b = None" using b True by (auto simp: range_bound_def)
    define u where "u = without_local b"
    have u: "wf_version u" "version_local u = Segments []" "base u = base b" "suffix_key u = suffix_key b" "make_full u = (make_full b)\<lparr>f_local := Segments []\<rparr>"
      using w(1) point_with_local(2) [OF w(1)] by (simp_all add: u_def version_inv point_def accessors_make_full version_refine)
    have f: "version_pre u = version_pre b" "version_post u = version_post b" "version_dev u = version_dev b" "version_min u = None" "version_max u = None"
      using mm by (simp_all add: accessors_make_full u(5))
    show ?thesis
    proof (cases "version_dev b")
      case (Some d)
      then have d: "d \<noteq> u64_max" "s = with_dev (Some (d + 1)) u"
        using s True f(3) by (auto simp: sentinel_successor_def Let_def u_def checked_add_one)
      have "\<exists>x y z. suffix_key u = (x, y, z, d) \<and> suffix_key s = (x, y, z, d + 1)"
        using f Some u(1) unfolding d(2)
        by (subst (1 2) suffix_key_real) (auto simp: accessors_make_full version_refine split: option.split)
      then have "suffix_key b < suffix_key v \<longleftrightarrow> suffix_key s \<le> suffix_key v"
        unfolding u(4) [symmetric] by (cases "suffix_key v") (auto simp: less_plus_one(2) [OF d(1)])
      then show ?thesis using lmax u d by (intro *) (simp_all add: setter_facts version_inv)
    next
      case None
      show ?thesis
      proof (cases "version_post b")
        case (Some p)
        then have p: "p \<noteq> u64_max" "s = with_dev (Some 0) (with_post (Some (p + 1)) u)"
          using s True None f by (auto simp: sentinel_successor_def Let_def u_def checked_add_one)
        have "\<exists>x y. suffix_key u = (x, y, Some p, u64_max) \<and> suffix_key s = (x, y, Some (p + 1), 0)"
          using f Some None u(1) unfolding p(2)
          by (subst (1 2) suffix_key_real) (auto simp: accessors_make_full version_refine version_inv split: option.split)
        then have "suffix_key b < suffix_key v \<longleftrightarrow> suffix_key s \<le> suffix_key v"
          unfolding u(4) [symmetric] by (cases "suffix_key v"; cases "fst (snd (snd (suffix_key v)))") (auto simp: less_plus_one [OF p(1)] dest: plus_one_less [OF p(1)])
        then show ?thesis using lmax u p by (intro *) (simp_all add: setter_facts version_inv)
      next
        case post: None
        then have p: "s = with_dev (Some 0) (with_post (Some 0) u)"
          using s True None f by (auto simp: sentinel_successor_def Let_def u_def)
        have ss: "suffix_key s = (case version_pre b of None \<Rightarrow> (6, 0, Some 0, 0) | Some q \<Rightarrow> (kind_code (pre_kind q), pre_number q, Some 0, 0))"
          using f None post u(1) unfolding p
          by (subst suffix_key_real) (auto simp: accessors_make_full version_refine version_inv split: option.split)
        have sb: "suffix_key b = (case version_pre b of None \<Rightarrow> (5, 0, None, 0) | Some q \<Rightarrow> (kind_code (pre_kind q), pre_number q, None, u64_max))"
          using mm None post by (simp add: suffix_key_real split: option.split)
        have "suffix_key b < suffix_key v \<longleftrightarrow> suffix_key s \<le> suffix_key v"
          unfolding ss sb using v by (auto simp: suffix_key_real pep440_def split: option.split)
        then show ?thesis using lmax u p by (intro *) (simp_all add: setter_facts version_inv)
      qed
    qed
  next
    case False
    then have mm: "version_min b \<noteq> None \<or> version_max b \<noteq> None"
      using s by (auto simp: sentinel_successor_def split: option.splits if_splits)
    then have bb: "version_local b = Segments []" "version_post b = None" "version_dev b = None" 
      "version_min b = Some 0 \<and> version_max b = None \<and> version_pre b = None \<or> version_min b = None \<and> version_max b = Some 0"
      using b by (auto simp: range_bound_def)
    show ?thesis
    proof (cases "version_min b")
      case (Some m)
      then have sd: "s = with_dev (Some 0) (with_min None b)" using s False by (simp add: sentinel_successor_def)
      have ss: "suffix_key s = (1, 0, None, 0)" unfolding sd
        using w(1) bb Some by (intro with_dev0_facts) (simp_all add: version_inv accessors_make_full version_refine)
      have sb: "suffix_key b = (0, 0, None, 0)"
        using bb Some by (simp add: suffix_key_def sortable_tuple_def)
      have lt: "suffix_key b < suffix_key v" "suffix_key s \<le> suffix_key v" using suffix_key_lowest [OF v] ss sb by simp_all
      have "version_lt b v \<longleftrightarrow> point b < point v" "version_le b v \<longleftrightarrow> point b < point v"
        using version_order_point(1,2) [OF w] lt(1) by (auto simp: point_def)
      then show ?thesis using lt w(1) bb(1) sd by (intro *) (simp_all add: setter_facts version_inv)
    next
      case None
      then obtain q where q: "version_pre b = Some q" "pre_number q \<noteq> u64_max"
        "s = with_dev (Some 0) (with_pre (Some (Prerelease (pre_kind q) (pre_number q + 1))) (with_max None b))"
        using s False by (auto simp: sentinel_successor_def checked_add_one split: option.splits)
      have mx: "version_max b = Some 0" using bb None by auto
      have ss: "suffix_key s = (kind_code (pre_kind q), pre_number q + 1, None, 0)" unfolding q(3)
        using w(1) bb None by (subst suffix_key_real) (simp_all add: accessors_make_full version_refine version_inv)
      have sb: "suffix_key b = (kind_code (pre_kind q), pre_number q, Some u64_max, u64_max)"
        using bb None mx q(1) by (simp add: suffix_key_def sortable_tuple_def Let_def split: prerelease.split prerelease_kind.split)
      have ne: "suffix_key b \<noteq> suffix_key v" unfolding sb using v by (auto simp: suffix_key_real pep440_def split: option.splits)
      have "suffix_key b < suffix_key v \<longleftrightarrow> suffix_key s \<le> suffix_key v"
        unfolding ss sb using v less_u64_max less_plus_one [OF q(2)]
        by (auto simp: suffix_key_real pep440_def dest: plus_one_less [OF q(2)] split: option.split)
      moreover have "version_lt b v \<longleftrightarrow> point b < point v" "version_le b v \<longleftrightarrow> point b < point v"
        using version_order_point(1,2) [OF w] ne by (auto simp: point_def)
      ultimately show ?thesis using w(1) bb(1) q(3) by (intro *) (simp_all add: setter_facts version_inv)
    qed
  qed
qed

lemma PEP440_MIN_facts: "wf_version PEP440_MIN_VERSION" "pep440 v \<Longrightarrow> version_le PEP440_MIN_VERSION v"
proof -
  obtain w where w: "version_new [0] = Some w" "wf_version w" "make_full w = release_only [0]" using version_new_eq [of "[0]"] by auto
  then have p: "PEP440_MIN_VERSION = with_dev (Some 0) w" by (simp add: PEP440_MIN_VERSION_def)
  show m: "wf_version PEP440_MIN_VERSION" using w(2) by (simp add: p version_inv)
  assume v: "pep440 v"
  have "suffix_key PEP440_MIN_VERSION = (1, 0, None, 0)"
    unfolding p using w by (intro with_dev0_facts) (simp_all add: accessors_make_full release_only_def)
  moreover have "version_local PEP440_MIN_VERSION = Segments []" "version_epoch PEP440_MIN_VERSION = 0" "version_release PEP440_MIN_VERSION = [0]"
    using w by (simp_all add: p accessors_make_full version_refine release_only_def)
  moreover have "trim_release [0] = []" by (simp add: trim_release_def)
  ultimately show "version_le PEP440_MIN_VERSION v"
    using order_at_dev0(2) [OF m v] by (simp add: base_less word_gt_0)
qed

lemma canonicalize_bounds:
  assumes "pep440 v"
  shows "wf_bound range_bound l \<Longrightarrow> in_lower (canonicalize_lower_bound l) v = in_lower l v"
    "wf_bound range_bound u \<Longrightarrow> in_upper (canonicalize_upper_bound u) v = in_upper u v"
    "wf_bound range_bound l \<Longrightarrow> wf_bound wf_version (canonicalize_lower_bound l)"
    "wf_bound range_bound u \<Longrightarrow> wf_bound wf_version (canonicalize_upper_bound u)"
proof -
  have w: "range_bound b \<Longrightarrow> wf_version b" for b by (simp add: range_bound_def)
  note s = sentinel_successor_order [OF _ _ assms]
  show "wf_bound range_bound l \<Longrightarrow> in_lower (canonicalize_lower_bound l) v = in_lower l v"
    "wf_bound range_bound l \<Longrightarrow> wf_bound wf_version (canonicalize_lower_bound l)"
    using s by (cases l; simp add: w split: option.split)+
  show "wf_bound range_bound u \<Longrightarrow> in_upper (canonicalize_upper_bound u) v = in_upper u v"
    "wf_bound range_bound u \<Longrightarrow> wf_bound wf_version (canonicalize_upper_bound u)"
    using s by (cases u; simp add: w split: option.split)+
qed

lemma list_ex_map_filter: "list_ex P (List.map_filter f xs) \<longleftrightarrow> list_ex (\<lambda>x. case f x of None \<Rightarrow> False | Some y \<Rightarrow> P y) xs"
  by (induction xs) (auto simp: List.map_filter_simps split: option.split)

lemma canonicalize_segment_in:
  assumes v: "pep440 v" and b: "wf_segment range_bound x"
  shows "(case canonicalize_segment x of None \<Rightarrow> False | Some y \<Rightarrow> in_segment v y) = in_segment v x"
    "canonicalize_segment x = Some y \<Longrightarrow> wf_segment wf_version y"
proof -
  obtain l u where x: "x = (l, u)" by (cases x)
  have l: "wf_bound range_bound l" and u: "wf_bound range_bound u" using b by (simp_all add: x wf_segment_def)
  note min = PEP440_MIN_facts(1) PEP440_MIN_facts(2) [OF v]
  have wv: "wf_version v" using v by (simp add: pep440_def)
  note c = canonicalize_bounds [OF v]
  define l1 where "l1 = canonicalize_lower_bound l"
  define u1 where "u1 = canonicalize_upper_bound u"
  define l2 where "l2 = (case l1 of
                     Included v \<Rightarrow> if version_le v PEP440_MIN_VERSION then Unbounded else l1
                   | Excluded v \<Rightarrow> if version_lt v PEP440_MIN_VERSION then Unbounded else l1
                   | Unbounded \<Rightarrow> l1)"
  define below where "below \<longleftrightarrow> (case u1 of
                     Included v \<Rightarrow> version_lt v PEP440_MIN_VERSION
                   | Excluded v \<Rightarrow> version_le v PEP440_MIN_VERSION
                   | Unbounded \<Rightarrow> False)"
  have ord: "wf_version x \<Longrightarrow> version_le x PEP440_MIN_VERSION \<Longrightarrow> version_le x v"
    "wf_version x \<Longrightarrow> version_lt x PEP440_MIN_VERSION \<Longrightarrow> version_lt x v"
    "wf_version x \<Longrightarrow> version_lt x PEP440_MIN_VERSION \<Longrightarrow> \<not> version_le v x"
    "wf_version x \<Longrightarrow> version_le x PEP440_MIN_VERSION \<Longrightarrow> \<not> version_lt v x" for x
    using min wv by (auto simp: version_order_key)
  have lo: "in_lower l2 v = in_lower l v" "wf_bound wf_version l1"
    using c(1,3) [OF l] ord by (cases l1; auto simp: l2_def l1_def)+
  have up: "below \<Longrightarrow> \<not> in_upper u v" "in_upper u1 v = in_upper u v"
    using c(2,4) [OF u] ord unfolding u1_def [symmetric] below_def by (cases u1; simp)+
  have "canonicalize_segment (l, u) = (if \<not> below then Some (l2, u1) else None)"
    unfolding canonicalize_segment_def Let_def l2_def below_def l1_def u1_def by simp
  then have e: "canonicalize_segment x = (if \<not> below then Some (l2, u1) else None)" by (simp add: x)
  show "(case canonicalize_segment x of None \<Rightarrow> False | Some y \<Rightarrow> in_segment v y) = in_segment v x"
    using e lo(1) up by (simp add: x in_segment_def)
  have "wf_bound wf_version l2" using lo(2) by (cases l1) (simp_all add: l2_def)
  then show "canonicalize_segment x = Some y \<Longrightarrow> wf_segment wf_version y"
    using e c(4) [OF u] by (auto simp: wf_segment_def u1_def split: if_splits)
qed

context lawful_ranges
begin

lemma canonicalize_contains:
  assumes "canonicalize_version_ranges R r = Some r'" "list_all (wf_segment range_bound) (r_iter R r)" "pep440 v"
  shows "r_contains R r' v \<longleftrightarrow> r_contains R r v"
proof -
  have w: "wf_version v" using assms(3) by (simp add: pep440_def)
  let ?xs = "List.map_filter canonicalize_segment (r_iter R r)"
  have r': "r' = r_collect R ?xs"
    using assms(1) by (simp add: canonicalize_version_ranges_def split: if_splits)
  have b: "wf_segment range_bound x" if "x \<in> set (r_iter R r)" for x using assms(2) that by (simp add: list_all_iff)
  have "list_all (wf_segment wf_version) ?xs"
    using canonicalize_segment_in(2) [OF assms(3) b] by (auto simp: list_all_iff List.map_filter_def)
  then have "r_contains R r' v \<longleftrightarrow> list_ex (\<lambda>x. case canonicalize_segment x of None \<Rightarrow> False | Some y \<Rightarrow> in_segment v y) (r_iter R r)"
    by (simp add: r' contains_collect [OF w] list_ex_map_filter)
  also have "\<dots> \<longleftrightarrow> list_ex (in_segment v) (r_iter R r)"
    by (rule list_ex_cong [OF refl]) (rule canonicalize_segment_in(1) [OF assms(3) b])
  finally show ?thesis using contains_iter [OF w] by simp
qed

lemma intersect_all_contains:
  assumes "wf_version v" "\<And>s. s \<in> set ss \<Longrightarrow> \<exists>r. f s = Some r \<and> (r_contains R r v \<longleftrightarrow> P s)"
  shows "\<exists>r. intersect_all R f acc ss = Some r \<and> (r_contains R r v \<longleftrightarrow> r_contains R acc v \<and> list_all P ss)"
  using assms(2)
proof (induction ss arbitrary: acc)
  case (Cons s ss)
  obtain r where r: "f s = Some r" "r_contains R r v \<longleftrightarrow> P s" using Cons.prems by auto
  obtain q where "intersect_all R f (r_intersection R acc r) ss = Some q"
    "r_contains R q v \<longleftrightarrow> r_contains R (r_intersection R acc r) v \<and> list_all P ss"
    using Cons.IH [of "r_intersection R acc r"] Cons.prems by auto
  then show ?case using r contains_intersection [OF assms(1)] by auto
qed simp

end

section \<open>Release-only semantics\<close>

lemma release_version_facts:
  assumes "wf_version a" "version_release a \<noteq> []"
  obtains t w where "(if trim then only_release_trimmed a else only_release a) = Some t" "release_only_version t"
    "trim_release (version_release t) = trim_release (version_release a)"
    "only_release a = Some w" "release_only_version w" "version_release w = version_release a"
proof -
  obtain w where w: "only_release a = Some w" "release_only_version w" "version_release w = version_release a"
    using version_new_release_only [OF assms(2)] by (auto simp: only_release_def)
  obtain x where x: "only_release_trimmed a = Some x" "wf_version x"
    "make_full x = release_only (if trim_release (version_release a) = [] then [0] else trim_release (version_release a))"
    using only_release_trimmed_eq [OF assms] by blast
  have "version_release x = (if trim_release (version_release a) = [] then [0] else trim_release (version_release a))"
    using x(3) by (simp add: accessors_make_full release_only_def)
  moreover have "trim_release (trim_release ns) = trim_release ns" "trim_release [0] = []" for ns by (simp_all add: trim_release_def)
  ultimately have "trim_release (version_release x) = trim_release (version_release a)" by simp
  moreover have "release_only_version x"
    using x(2,3) by (simp add: release_only_version_def accessors_make_full release_only_def)
  ultimately show thesis using that [of "if trim then x else w" w] w x(1) by simp
qed

lemma contains_tilde_release_only:
  assumes "release_only_version a" "release_only_version v" "length (version_release a) > 1"
  shows "contains (spec OpTildeEqual a) v = Some (trim_release (version_release a) \<le> trim_release (version_release v)
    \<and> release_prefix (butlast (version_release a)) (version_release v))"
proof -
  have c: "candidate a v = v" using assms by (simp add: candidate_def release_only_version_def)
  have "wf_version a" "wf_version v" "version_epoch a = 0" "version_epoch v = 0" using assms by (simp_all add: release_only_version_def)
  then show ?thesis using contains_tilde_eq [of a v] assms(3) release_only_order(1) [OF assms(1,2)]
    by (simp add: contains_candidate c)
qed

context lawful_ranges
begin

lemma release_star_range_contains:
  assumes "release_only_version a" "release_only_version v" "version_release a \<noteq> []" "u64_max \<notin> set (version_release a)"
  shows "\<exists>r. release_star_range R a = Some r \<and> (r_contains R r v \<longleftrightarrow> release_prefix (version_release a) (version_release v))"
proof -
  have w: "wf_version a" "wf_version v" using assms by (simp_all add: release_only_version_def)
  let ?r = "version_release a"
  have l: "last ?r \<noteq> u64_max" using assms(4) last_in_set [OF assms(3)] by metis
  obtain low where low: "only_release a = Some low" "release_only_version low" "version_release low = ?r"
    using version_new_release_only [OF assms(3)] by (auto simp: only_release_def)
  let ?b = "butlast ?r @ [last ?r + 1]"
  have wl: "wf_version low" using low(2) by (simp add: release_only_version_def)
  have "?b \<noteq> []" by simp
  then obtain high where hi: "with_release ?b low = Some high" "wf_version high" "make_full high = (make_full low)\<lparr>f_release := ?b\<rparr>"
    by (rule with_release_eq [OF wl])
  have high: "release_only_version high" "version_release high = ?b"
    using low(2) hi(2,3) by (simp_all add: release_only_version_def accessors_make_full)
  have "release_star_range R a = Some (r_from_range_bounds R (Included a) (Excluded high))"
    using low hi(1) assms(3) by (simp add: release_star_range_def increment_last_def)
  moreover have "r_contains R (r_from_range_bounds R (Included a) (Excluded high)) v
      \<longleftrightarrow> trim_release ?r \<le> trim_release (version_release v) \<and> trim_release (version_release v) < trim_release ?b"
    using contains_from_range_bounds [OF w(1) hi(2) w(2)] release_only_order(1) [OF assms(1,2)]
      release_only_order(2) [OF assms(2) high(1)] high(2) by simp
  moreover have "\<dots> \<longleftrightarrow> release_prefix ?r (version_release v)"
    using increment_last_prefix [OF assms(3) l] .
  ultimately show ?thesis by simp
qed

lemma release_specifier_contains:
  assumes s: "parsed_specifier s" and v: "release_only_version v" and op: "sp_operator s \<noteq> OpExactEqual"
    and e: "is_star (sp_operator s) \<longrightarrow> version_epoch (sp_version s) = 0"
  shows "\<exists>r w. release_specifier_to_range R s trim = Some r \<and> only_release (sp_version s) = Some w
    \<and> (r_contains R r v \<longleftrightarrow> contains (spec (sp_operator s) w) v = Some True)"
proof -
  let ?a = "sp_version s"
  have a: "pep440 ?a" using s by (simp add: parsed_specifier_def parsed_version_def)
  then have wa: "wf_version ?a" "version_release ?a \<noteq> []" by (simp_all add: pep440_def)
  obtain t w where t: "(if trim then only_release_trimmed ?a else only_release ?a) = Some t" "release_only_version t"
    "trim_release (version_release t) = trim_release (version_release ?a)"
    and w: "only_release ?a = Some w" "release_only_version w" "version_release w = version_release ?a"
    using release_version_facts [OF wa] by blast
  have wf: "wf_version t" "wf_version v" using t v by (simp_all add: release_only_version_def)
  note o = release_only_order [OF t(2) v] release_only_order [OF v t(2)]
  note c = contains_release_only [OF w(2) v]
  have l: "r_contains R (r_singleton R t) v \<longleftrightarrow> version_eq v t" "r_contains R (r_strictly_lower_than R t) v \<longleftrightarrow> version_lt v t"
    "r_contains R (r_lower_than R t) v \<longleftrightarrow> version_le v t" "r_contains R (r_strictly_higher_than R t) v \<longleftrightarrow> version_lt t v"
    "r_contains R (r_higher_than R t) v \<longleftrightarrow> version_le t v"
    using contains_singleton [OF wf] contains_strictly_lower_than [OF wf] contains_lower_than [OF wf]
      contains_strictly_higher_than [OF wf] contains_higher_than [OF wf] by simp_all
  have star: "\<exists>r. release_star_range R ?a = Some r \<and> (r_contains R r v \<longleftrightarrow> release_prefix (version_release w) (version_release v))"
    if "is_star (sp_operator s)"
  proof -
    have "release_only_version ?a" using that s e a by (simp add: parsed_specifier_def release_only_version_def pep440_def)
    then show ?thesis using release_star_range_contains [OF _ v wa(2)] a w(3) by (simp add: pep440_def)
  qed
  show ?thesis
  proof (cases "sp_operator s")
    case OpTildeEqual
    let ?x = "butlast (version_release ?a)"
    have len: "length (version_release ?a) > 1"
      using OpTildeEqual s by (auto simp: parsed_specifier_def valid_specifier_def from_version_def split: if_splits)
    then have x: "?x \<noteq> []" by (cases "version_release ?a" rule: rev_cases) auto
    then have "last ?x \<in> set (version_release ?a)" using in_set_butlastD last_in_set by metis
    then have lx: "last ?x \<noteq> u64_max" using a by (auto simp: pep440_def)
    let ?b = "butlast ?x @ [last ?x + 1]"
    obtain u where u: "version_new ?b = Some u" "release_only_version u" "version_release u = ?b"
      using version_new_release_only [of ?b] by auto
    have wu: "wf_version u" using u(2) by (simp add: release_only_version_def)
    have "release_specifier_to_range R s trim = Some (r_from_range_bounds R (Included t) (Excluded u))"
      using OpTildeEqual t(1) len x u(1) by (simp add: release_specifier_to_range_def Let_def tilde_upper_release_def increment_last_def)
    moreover have "r_contains R (r_from_range_bounds R (Included t) (Excluded u)) v \<longleftrightarrow>
        trim_release (version_release ?a) \<le> trim_release (version_release v) \<and> trim_release (version_release v) < trim_release ?b"
      using contains_from_range_bounds [OF wf(1) wu wf(2)] o(1) release_only_order(2) [OF v u(2)] u(3) t(3) by simp
    moreover have "get_or_zero (version_release ?a) i = ?x ! i" if "i < length ?x" for i
      using that by (auto simp: get_or_zero_def nth_butlast)
    then have "trim_release (version_release ?a) \<le> trim_release (version_release v) \<and> trim_release (version_release v) < trim_release ?b
      \<longleftrightarrow> trim_release (version_release ?a) \<le> trim_release (version_release v) \<and> release_prefix ?x (version_release v)"
      by (rule increment_last_squeeze [OF x lx])
    ultimately show ?thesis using contains_tilde_release_only [OF w(2) v] len w OpTildeEqual by simp
  next
    case OpEqualStar
    then show ?thesis using t(1) w(1) star c(3) by (auto simp: release_specifier_to_range_def Let_def is_star_def)
  next
    case OpNotEqualStar
    then show ?thesis using t(1) w(1) star c(4) contains_complement [OF wf(2)]
      by (auto simp: release_specifier_to_range_def Let_def is_star_def)
  qed (use op t(1,3) w(1,3) o l contains_complement [OF wf(2)] in
      \<open>simp_all add: release_specifier_to_range_def Let_def c\<close>)
qed

end

end
