(* ===== verification/Version_Bounds.thy ===== *)
theory Version_Bounds
  imports Version_Ranges_Facts
begin

text \<open>
  Lower and upper bounds of version ranges: their order, truncation to major and minor version, an
  executable implementation of ranges, and the properties of ranges and bounds.
\<close>

section \<open>Order of bounds\<close>

abbreviation bound_wf :: "version bound \<Rightarrow> bool" where
  "bound_wf b \<equiv> wf_bound wf_version b"

definition lower_key where
  "lower_key b = (case b of Unbounded \<Rightarrow> None | Included v \<Rightarrow> Some (version_key v, False) | Excluded v \<Rightarrow> Some (version_key v, True))"

definition upper_key where
  "upper_key b = (case b of Unbounded \<Rightarrow> (True, None) | Included v \<Rightarrow> (False, Some (version_key v, True))
     | Excluded v \<Rightarrow> (False, Some (version_key v, False)))"

lemma lower_bound_cmp_key: "bound_wf a \<Longrightarrow> bound_wf b \<Longrightarrow> lower_bound_cmp a b = cmp (lower_key a) (lower_key b)"
  by (cases a; cases b) (auto simp: lower_key_def version_cmp_key cmp_def split: ordering.split)

lemma upper_bound_cmp_key: "bound_wf a \<Longrightarrow> bound_wf b \<Longrightarrow> upper_bound_cmp a b = cmp (upper_key a) (upper_key b)"
  by (cases a; cases b) (auto simp: upper_key_def version_cmp_key cmp_def split: ordering.split)

interpretation lower_bound_ord: rust_ord bound_wf lower_bound_cmp
  by (rule rust_ord_key [of _ _ lower_key]) (rule lower_bound_cmp_key)

interpretation upper_bound_ord: rust_ord bound_wf upper_bound_cmp
  by (rule rust_ord_key [of _ _ upper_key]) (rule upper_bound_cmp_key)

lemma bound_contains_in: "lower_bound_contains b v = in_lower b v" "upper_bound_contains b v = in_upper b v"
  by (cases b; simp add: lower_bound_contains_def upper_bound_contains_def)+

lemma in_bound_key:
  assumes "bound_wf b" "wf_version v"
  shows "in_lower b v \<longleftrightarrow> lower_key b \<le> Some (version_key v, False)" "in_upper b v \<longleftrightarrow> (False, Some (version_key v, True)) \<le> upper_key b"
  using assms by (cases b; auto simp: lower_key_def upper_key_def version_order_key less_le_not_le)+

lemma lower_bound_cmp_contains:
  assumes "bound_wf a" "bound_wf b" "wf_version v" "lower_bound_cmp a b \<noteq> Greater" "lower_bound_contains b v"
  shows "lower_bound_contains a v"
  using assms by (auto simp: bound_contains_in in_bound_key lower_bound_cmp_key cmp_def split: if_splits)

lemma upper_bound_cmp_contains:
  assumes "bound_wf a" "bound_wf b" "wf_version v" "upper_bound_cmp a b \<noteq> Greater" "upper_bound_contains a v"
  shows "upper_bound_contains b v"
  using assms by (auto simp: bound_contains_in in_bound_key upper_bound_cmp_key cmp_def split: if_splits)

section \<open>Truncation to major and minor\<close>

lemma get_or_zero_take: "get_or_zero (take n xs) i = (if i < n then get_or_zero xs i else 0)"
  by (simp add: get_or_zero_def)

lemma trim_take_le: "trim_release xs \<le> trim_release ys \<Longrightarrow> trim_release (take n xs) \<le> trim_release (take n ys)"
  unfolding trim_release_le_iff by (auto simp: get_or_zero_take) (metis less_trans)

lemma trim_take_less:
  assumes "trim_release xs < trim_release ys" "\<And>i. n \<le> i \<Longrightarrow> get_or_zero ys i = 0"
  shows "trim_release (take n xs) < trim_release (take n ys)"
proof -
  obtain i where i: "\<forall>j < i. get_or_zero xs j = get_or_zero ys j" "get_or_zero xs i < get_or_zero ys i"
    using assms(1) by (auto simp: trim_release_less_iff)
  have "i < n" using i(2) assms(2) [of i] by (cases "i < n") auto
  then show ?thesis unfolding trim_release_less_iff using i by (auto simp: get_or_zero_take intro!: exI [of _ i])
qed

definition truncated :: "version \<Rightarrow> version \<Rightarrow> bool" where
  "truncated x y \<longleftrightarrow> version_new (take 2 (version_release x)) = Some y"

lemma truncated_facts:
  assumes "release_only_version x" "version_release x \<noteq> []"
  obtains y where "truncated x y" "release_only_version y" "version_release y = take 2 (version_release x)"
  using version_new_release_only [of "take 2 (version_release x)"] assms(2) by (auto simp: truncated_def)

lemma truncated_le:
  assumes "release_only_version x" "release_only_version y" "version_release x \<noteq> []" "version_release y \<noteq> []"
    "truncated x x'" "truncated y y'" "version_le x y"
  shows "version_le x' y'"
proof -
  have "release_only_version x'" "release_only_version y'" "version_release x' = take 2 (version_release x)" "version_release y' = take 2 (version_release y)"
    using truncated_facts [OF assms(1,3)] truncated_facts [OF assms(2,4)] assms(5,6) by (metis option.inject truncated_def)+
  then show ?thesis using assms(7) release_only_order(1) [OF assms(1,2)] release_only_order(1) [of x' y'] trim_take_le by simp
qed

lemma truncated_less:
  assumes "release_only_version x" "release_only_version y" "version_release x \<noteq> []" "version_release y \<noteq> []"
    "truncated x x'" "truncated y y'" "version_lt x y" "length (version_release y) \<le> 3" "length (version_release y) > 2 \<Longrightarrow> version_release y ! 2 = 0"
  shows "version_lt x' y'"
proof -
  have r: "release_only_version x'" "release_only_version y'" "version_release x' = take 2 (version_release x)" "version_release y' = take 2 (version_release y)"
    using truncated_facts [OF assms(1,3)] truncated_facts [OF assms(2,4)] assms(5,6) by (metis option.inject truncated_def)+
  have "get_or_zero (version_release y) i = 0" if "2 \<le> i" for i
    using that assms(8,9) by (cases "i = 2") (auto simp: get_or_zero_def)
  then show ?thesis using trim_take_less [of "version_release x" "version_release y" 2] assms(7) r
      release_only_order(2) [OF assms(1,2)] release_only_order(2) [OF r(1,2)] by simp
qed

lemma version_lt_imp_le: "version_lt x v \<Longrightarrow> version_le x v"
  by (simp add: version_lt_def version_le_def)

lemma lower_major_minor_contains:
  assumes b: "release_only_bound b" and v: "release_only_version v" "version_release v \<noteq> []" "truncated v t"
  shows "\<exists>b'. lower_major_minor b = Some b' \<and> (lower_bound_contains b v \<longrightarrow> lower_bound_contains b' t)"
proof -
  have *: "\<exists>y. version_new (take 2 (version_release x)) = Some y \<and> (version_le x v \<longrightarrow> version_le y t)"
    if x: "release_only_version x" "version_release x \<noteq> []" for x
    using truncated_facts [OF x] truncated_le [OF x(1) v(1) x(2) v(2) _ v(3)] by (metis truncated_def)
  show ?thesis
    using b * version_lt_imp_le [of _ v] by (cases b) (fastforce simp: lower_major_minor_def lower_bound_contains_def)+
qed

lemma upper_major_minor_contains:
  assumes b: "release_only_bound b" "wf_bound (\<lambda>x. length (version_release x) \<le> 3) b"
    and v: "release_only_version v" "version_release v \<noteq> []" "truncated v t"
  shows "\<exists>b'. upper_major_minor b = Some b' \<and> (upper_bound_contains b v \<longrightarrow> upper_bound_contains b' t)"
proof (cases b)
  case (Included x)
  then have x: "release_only_version x" "version_release x \<noteq> []" using b by simp_all
  obtain y where "truncated x y" using truncated_facts [OF x] by blast
  then show ?thesis using Included truncated_le [OF v(1) x(1) v(2) x(2) v(3)]
    by (auto simp: upper_major_minor_def upper_bound_contains_def truncated_def)
next
  case (Excluded x)
  then have x: "release_only_version x" "version_release x \<noteq> []" "length (version_release x) \<le> 3" using b by simp_all
  obtain y where y: "truncated x y" using truncated_facts [OF x(1,2)] by blast
  show ?thesis
  proof (cases "length (version_release x) > 2 \<and> version_release x ! 2 > 0")
    case True
    then show ?thesis using Excluded y truncated_le [OF v(1) x(1) v(2) x(2) v(3) y] version_lt_imp_le [of v x]
      by (auto simp: upper_major_minor_def upper_bound_contains_def truncated_def)
  next
    case False
    then have "length (version_release x) > 2 \<Longrightarrow> version_release x ! 2 = 0" by (simp add: word_gt_0)
    then show ?thesis using False Excluded y truncated_less [OF v(1) x(1) v(2) x(2) v(3) y _ x(3)]
      by (auto simp: upper_major_minor_def upper_bound_contains_def truncated_def)
  qed
qed (simp add: upper_major_minor_def upper_bound_contains_def)

section \<open>Ranges as lists of segments\<close>

text \<open>The implementation of ranges by lists of segments, for versions.\<close>

definition segment_ranges :: "(version segment list, version) ranges" where
  "segment_ranges = segment_ranges_of wf_version version_key"

interpretation segs: lawful_ranges segment_ranges
  unfolding segment_ranges_def by (intro lawful_ranges.intro segment_ranges_lawful)

section \<open>Properties\<close>

text \<open>
  The cases where the range of a specifier is meant to agree with the specifier: not \<open>===\<close>,
  which compares strings, and not \<open>>V\<close> for a pre-release \<open>V\<close> against a post-release of the
  same release.
\<close>

definition range_exact :: "version \<Rightarrow> version_specifier \<Rightarrow> bool" where
  "range_exact v s \<longleftrightarrow> sp_operator s \<noteq> OpExactEqual
     \<and> \<not> (sp_operator s = OpGreaterThan \<and> any_prerelease (sp_version s) \<and> \<not> is_post (sp_version s)
          \<and> is_post v \<and> base v = base (sp_version s))"



text \<open>
  C14: canonicalising the sentinel bounds of a range keeps its members: every version is in the
  canonical range exactly when it is in the original one.
\<close>

theorem canonicalize_keeps_members:
  assumes "lawful_ranges R" "canonicalize_version_ranges R r = Some r'" "list_all (wf_segment range_bound) (r_iter R r)" "pep440 v"
  shows "r_contains R r' v \<longleftrightarrow> r_contains R r v"
  using lawful_ranges.canonicalize_contains [OF assms] .

theorem canonicalize_keeps_members_witness:
  "canonicalize_version_ranges segment_ranges [(Included sample_one, Excluded (with_local LMax sample_one))]
     = Some [(Included sample_one, Excluded (with_dev (Some 0) (with_post (Some 0) sample_one)))]
   \<and> (r_contains segment_ranges [(Included sample_one, Excluded (with_dev (Some 0) (with_post (Some 0) sample_one)))] sample_two
     \<longleftrightarrow> r_contains segment_ranges [(Included sample_one, Excluded (with_local LMax sample_one))] sample_two)"
proof -
  have c: "canonicalize_version_ranges segment_ranges [(Included sample_one, Excluded (with_local LMax sample_one))]
     = Some [(Included sample_one, Excluded (with_dev (Some 0) (with_post (Some 0) sample_one)))]"
    by code_simp
  have w: "list_all (wf_segment range_bound) (r_iter segment_ranges [(Included sample_one, Excluded (with_local LMax sample_one))])"
    "pep440 sample_two" by code_simp+
  show ?thesis using c canonicalize_keeps_members [OF segs.lawful_ranges_axioms c w] by (rule conjI)
qed



text \<open>
  C20: the orders of lower and upper bounds are the inclusion of what they admit: a version above the
  greater lower bound is above the smaller one, and a version below the smaller upper bound is below
  the greater one. Truncating a bound to major and minor version keeps every truncated version it
  admitted.
\<close>

theorem bound_order_is_inclusion:
  assumes "bound_wf a" "bound_wf b" "wf_version v"
  shows "(lower_bound_cmp a b \<noteq> Greater \<and> lower_bound_contains b v \<longrightarrow> lower_bound_contains a v)
    \<and> (upper_bound_cmp a b \<noteq> Greater \<and> upper_bound_contains a v \<longrightarrow> upper_bound_contains b v)
    \<and> lower_bound_cmp b a = reverse_ordering (lower_bound_cmp a b) \<and> upper_bound_cmp b a = reverse_ordering (upper_bound_cmp a b)"
proof (intro conjI impI)
  show "lower_bound_cmp b a = reverse_ordering (lower_bound_cmp a b)" using assms(1,2) by (rule lower_bound_ord.compare_swap)
  show "upper_bound_cmp b a = reverse_ordering (upper_bound_cmp a b)" using assms(1,2) by (rule upper_bound_ord.compare_swap)
qed (use lower_bound_cmp_contains [OF assms] upper_bound_cmp_contains [OF assms] in simp_all)

theorem bound_order_is_inclusion_witness:
  "lower_bound_cmp (Included sample_one) (Excluded sample_one) = Less \<and> lower_bound_contains (Excluded sample_one) sample_two
   \<and> lower_bound_contains (Included sample_one) sample_two"
proof -
  have w: "bound_wf (Included sample_one)" "bound_wf (Excluded sample_one)" "wf_version sample_two"
    and c: "lower_bound_cmp (Included sample_one) (Excluded sample_one) = Less" "lower_bound_contains (Excluded sample_one) sample_two"
    by code_simp+
  have "lower_bound_cmp (Included sample_one) (Excluded sample_one) \<noteq> Greater" unfolding c(1) by simp
  then show ?thesis using bound_order_is_inclusion [OF w, THEN conjunct1] c by blast
qed



definition sample_alpha :: version where
  "sample_alpha = Full \<lparr>f_epoch = 0, f_release = [1, 0], f_pre = Some (Prerelease Alpha 1), f_post = None, f_dev = None,
     f_local = Segments [], f_min = None, f_max = None\<rparr>"

definition sample_post :: version where
  "sample_post = Full \<lparr>f_epoch = 0, f_release = [1, 0], f_pre = None, f_post = Some 1, f_dev = None,
     f_local = Segments [], f_min = None, f_max = None\<rparr>"


end
