(* ===== verification/Marker_Data.thy ===== *)
theory Marker_Data
  imports Version_Bounds
begin

text \<open>
  The vocabulary of PEP 508 environment markers: keys, operators and expressions
  (\<open>crates/uv-pep508/src/marker/tree.rs\<close>), the canonical keys
  (\<open>lowering.rs\<close>), the marker environment (\<open>environment.rs\<close>) and the variables of the decision
  diagram with their order (\<open>algebra.rs\<close>).
\<close>

section \<open>Keys\<close>

datatype marker_value_version = MvImplementationVersion | MvPythonFullVersion | MvPythonVersion

datatype marker_value_string =
  MsImplementationName | MsOsName | MsOsNameDeprecated | MsPlatformMachine | MsPlatformMachineDeprecated
| MsPlatformPythonImplementation | MsPlatformPythonImplementationDeprecated | MsPythonImplementationDeprecated
| MsPlatformRelease | MsPlatformSystem | MsPlatformVersion | MsPlatformVersionDeprecated
| MsSysPlatform | MsSysPlatformDeprecated

datatype marker_value_list = MlExtras | MlDependencyGroups

fun show_marker_value_version :: "marker_value_version \<Rightarrow> string" where
  "show_marker_value_version MvImplementationVersion = ''implementation_version''"
| "show_marker_value_version MvPythonFullVersion = ''python_full_version''"
| "show_marker_value_version MvPythonVersion = ''python_version''"

fun show_marker_value_string :: "marker_value_string \<Rightarrow> string" where
  "show_marker_value_string MsImplementationName = ''implementation_name''"
| "show_marker_value_string MsOsName = ''os_name''"
| "show_marker_value_string MsOsNameDeprecated = ''os_name''"
| "show_marker_value_string MsPlatformMachine = ''platform_machine''"
| "show_marker_value_string MsPlatformMachineDeprecated = ''platform_machine''"
| "show_marker_value_string MsPlatformPythonImplementation = ''platform_python_implementation''"
| "show_marker_value_string MsPlatformPythonImplementationDeprecated = ''platform_python_implementation''"
| "show_marker_value_string MsPythonImplementationDeprecated = ''platform_python_implementation''"
| "show_marker_value_string MsPlatformRelease = ''platform_release''"
| "show_marker_value_string MsPlatformSystem = ''platform_system''"
| "show_marker_value_string MsPlatformVersion = ''platform_version''"
| "show_marker_value_string MsPlatformVersionDeprecated = ''platform_version''"
| "show_marker_value_string MsSysPlatform = ''sys_platform''"
| "show_marker_value_string MsSysPlatformDeprecated = ''sys_platform''"

fun show_marker_value_list :: "marker_value_list \<Rightarrow> string" where
  "show_marker_value_list MlExtras = ''extras''"
| "show_marker_value_list MlDependencyGroups = ''dependency_groups''"

datatype marker_value =
  MarkerEnvVersion marker_value_version
| MarkerEnvString marker_value_string
| MarkerEnvList marker_value_list
| MarkerExtra
| QuotedString string

definition marker_value_from_str :: "string \<Rightarrow> marker_value option" where
  "marker_value_from_str s =
    map_of [(''implementation_name'', MarkerEnvString MsImplementationName),
      (''implementation_version'', MarkerEnvVersion MvImplementationVersion),
      (''os_name'', MarkerEnvString MsOsName),
      (''os.name'', MarkerEnvString MsOsNameDeprecated),
      (''platform_machine'', MarkerEnvString MsPlatformMachine),
      (''platform.machine'', MarkerEnvString MsPlatformMachineDeprecated),
      (''platform_python_implementation'', MarkerEnvString MsPlatformPythonImplementation),
      (''platform.python_implementation'', MarkerEnvString MsPlatformPythonImplementationDeprecated),
      (''python_implementation'', MarkerEnvString MsPythonImplementationDeprecated),
      (''platform_release'', MarkerEnvString MsPlatformRelease),
      (''platform_system'', MarkerEnvString MsPlatformSystem),
      (''platform_version'', MarkerEnvString MsPlatformVersion),
      (''platform.version'', MarkerEnvString MsPlatformVersionDeprecated),
      (''python_full_version'', MarkerEnvVersion MvPythonFullVersion),
      (''python_version'', MarkerEnvVersion MvPythonVersion),
      (''sys_platform'', MarkerEnvString MsSysPlatform),
      (''sys.platform'', MarkerEnvString MsSysPlatformDeprecated),
      (''extras'', MarkerEnvList MlExtras),
      (''dependency_groups'', MarkerEnvList MlDependencyGroups),
      (''extra'', MarkerExtra)] s"

fun show_marker_value :: "marker_value \<Rightarrow> string" where
  "show_marker_value (MarkerEnvVersion k) = show_marker_value_version k"
| "show_marker_value (MarkerEnvString k) = show_marker_value_string k"
| "show_marker_value (MarkerEnvList k) = show_marker_value_list k"
| "show_marker_value MarkerExtra = ''extra''"
| "show_marker_value (QuotedString s) = CHR 0x27 # s @ [CHR 0x27]"

section \<open>Operators\<close>

datatype marker_operator =
  MEqual | MNotEqual | MGreaterThan | MGreaterEqual | MLessThan | MLessEqual | MTildeEqual
| MIn | MNotIn | MContains | MNotContains

fun to_pep440_operator :: "marker_operator \<Rightarrow> operator option" where
  "to_pep440_operator MEqual = Some OpEqual"
| "to_pep440_operator MNotEqual = Some OpNotEqual"
| "to_pep440_operator MGreaterThan = Some OpGreaterThan"
| "to_pep440_operator MGreaterEqual = Some OpGreaterThanEqual"
| "to_pep440_operator MLessThan = Some OpLessThan"
| "to_pep440_operator MLessEqual = Some OpLessThanEqual"
| "to_pep440_operator MTildeEqual = Some OpTildeEqual"
| "to_pep440_operator _ = None"

fun marker_operator_invert :: "marker_operator \<Rightarrow> marker_operator" where
  "marker_operator_invert MLessThan = MGreaterThan"
| "marker_operator_invert MLessEqual = MGreaterEqual"
| "marker_operator_invert MGreaterThan = MLessThan"
| "marker_operator_invert MGreaterEqual = MLessEqual"
| "marker_operator_invert MEqual = MEqual"
| "marker_operator_invert MNotEqual = MNotEqual"
| "marker_operator_invert MTildeEqual = MTildeEqual"
| "marker_operator_invert MIn = MContains"
| "marker_operator_invert MNotIn = MNotContains"
| "marker_operator_invert MContains = MIn"
| "marker_operator_invert MNotContains = MNotIn"

fun marker_operator_negate :: "marker_operator \<Rightarrow> marker_operator option" where
  "marker_operator_negate MEqual = Some MNotEqual"
| "marker_operator_negate MNotEqual = Some MEqual"
| "marker_operator_negate MTildeEqual = None"
| "marker_operator_negate MLessThan = Some MGreaterEqual"
| "marker_operator_negate MLessEqual = Some MGreaterThan"
| "marker_operator_negate MGreaterThan = Some MLessEqual"
| "marker_operator_negate MGreaterEqual = Some MLessThan"
| "marker_operator_negate MIn = Some MNotIn"
| "marker_operator_negate MNotIn = Some MIn"
| "marker_operator_negate MContains = Some MNotContains"
| "marker_operator_negate MNotContains = Some MContains"

fun marker_from_lower_bound :: "string bound \<Rightarrow> (marker_operator \<times> string) option" where
  "marker_from_lower_bound (Included s) = Some (MGreaterEqual, s)"
| "marker_from_lower_bound (Excluded s) = Some (MGreaterThan, s)"
| "marker_from_lower_bound Unbounded = None"

fun marker_from_upper_bound :: "string bound \<Rightarrow> (marker_operator \<times> string) option" where
  "marker_from_upper_bound (Included s) = Some (MLessEqual, s)"
| "marker_from_upper_bound (Excluded s) = Some (MLessThan, s)"
| "marker_from_upper_bound Unbounded = None"

definition marker_from_bounds :: "string segment \<Rightarrow> (marker_operator \<times> string) list" where
  "marker_from_bounds bounds =
    (let both = List.map_filter id [marker_from_lower_bound (fst bounds), marker_from_upper_bound (snd bounds)]
     in case bounds of
       (Included v1, Included v2) \<Rightarrow> if v1 = v2 then [(MEqual, v1)] else both
     | (Excluded v1, Excluded v2) \<Rightarrow> if v1 = v2 then [(MNotEqual, v1)] else both
     | _ \<Rightarrow> both)"

fun show_marker_operator :: "marker_operator \<Rightarrow> string" where
  "show_marker_operator MEqual = ''==''"
| "show_marker_operator MNotEqual = ''!=''"
| "show_marker_operator MGreaterThan = ''>''"
| "show_marker_operator MGreaterEqual = ''>=''"
| "show_marker_operator MLessThan = ''<''"
| "show_marker_operator MLessEqual = ''<=''"
| "show_marker_operator MTildeEqual = ''~=''"
| "show_marker_operator MIn = ''in''"
| "show_marker_operator MContains = ''in''"
| "show_marker_operator MNotIn = ''not in''"
| "show_marker_operator MNotContains = ''not in''"

datatype extra_operator = ExEqual | ExNotEqual

fun extra_from_marker_operator :: "marker_operator \<Rightarrow> extra_operator option" where
  "extra_from_marker_operator MEqual = Some ExEqual"
| "extra_from_marker_operator MNotEqual = Some ExNotEqual"
| "extra_from_marker_operator _ = None"

fun extra_operator_negate :: "extra_operator \<Rightarrow> extra_operator" where
  "extra_operator_negate ExEqual = ExNotEqual"
| "extra_operator_negate ExNotEqual = ExEqual"

fun show_extra_operator :: "extra_operator \<Rightarrow> string" where
  "show_extra_operator ExEqual = ''==''"
| "show_extra_operator ExNotEqual = ''!=''"

datatype container_operator = CoIn | CoNotIn

fun container_from_marker_operator :: "marker_operator \<Rightarrow> container_operator option" where
  "container_from_marker_operator MIn = Some CoIn"
| "container_from_marker_operator MNotIn = Some CoNotIn"
| "container_from_marker_operator _ = None"

fun show_container_operator :: "container_operator \<Rightarrow> string" where
  "show_container_operator CoIn = ''in''"
| "show_container_operator CoNotIn = ''not in''"

section \<open>Canonical keys\<close>

datatype canonical_version = CvImplementationVersion | CvPythonFullVersion

datatype canonical_string =
  CsOsName | CsSysPlatform | CsPlatformSystem | CsPlatformMachine | CsPlatformPythonImplementation
| CsPlatformRelease | CsPlatformVersion | CsImplementationName

text \<open>The derived \<open>Ord\<close> compares the variants in the order of their declaration.\<close>

fun canonical_version_rank :: "canonical_version \<Rightarrow> nat" where
  "canonical_version_rank CvImplementationVersion = 0"
| "canonical_version_rank CvPythonFullVersion = 1"

fun canonical_string_rank :: "canonical_string \<Rightarrow> nat" where
  "canonical_string_rank CsOsName = 0"
| "canonical_string_rank CsSysPlatform = 1"
| "canonical_string_rank CsPlatformSystem = 2"
| "canonical_string_rank CsPlatformMachine = 3"
| "canonical_string_rank CsPlatformPythonImplementation = 4"
| "canonical_string_rank CsPlatformRelease = 5"
| "canonical_string_rank CsPlatformVersion = 6"
| "canonical_string_rank CsImplementationName = 7"

definition is_conflicting :: "canonical_string \<Rightarrow> bool" where
  "is_conflicting k \<longleftrightarrow> canonical_string_rank k \<le> canonical_string_rank CsPlatformSystem"

fun canonical_of :: "marker_value_string \<Rightarrow> canonical_string" where
  "canonical_of MsImplementationName = CsImplementationName"
| "canonical_of MsOsName = CsOsName"
| "canonical_of MsOsNameDeprecated = CsOsName"
| "canonical_of MsPlatformMachine = CsPlatformMachine"
| "canonical_of MsPlatformMachineDeprecated = CsPlatformMachine"
| "canonical_of MsPlatformPythonImplementation = CsPlatformPythonImplementation"
| "canonical_of MsPlatformPythonImplementationDeprecated = CsPlatformPythonImplementation"
| "canonical_of MsPythonImplementationDeprecated = CsPlatformPythonImplementation"
| "canonical_of MsPlatformRelease = CsPlatformRelease"
| "canonical_of MsPlatformSystem = CsPlatformSystem"
| "canonical_of MsPlatformVersion = CsPlatformVersion"
| "canonical_of MsPlatformVersionDeprecated = CsPlatformVersion"
| "canonical_of MsSysPlatform = CsSysPlatform"
| "canonical_of MsSysPlatformDeprecated = CsSysPlatform"

fun marker_value_of_canonical_string :: "canonical_string \<Rightarrow> marker_value_string" where
  "marker_value_of_canonical_string CsImplementationName = MsImplementationName"
| "marker_value_of_canonical_string CsOsName = MsOsName"
| "marker_value_of_canonical_string CsPlatformMachine = MsPlatformMachine"
| "marker_value_of_canonical_string CsPlatformPythonImplementation = MsPlatformPythonImplementation"
| "marker_value_of_canonical_string CsPlatformRelease = MsPlatformRelease"
| "marker_value_of_canonical_string CsPlatformSystem = MsPlatformSystem"
| "marker_value_of_canonical_string CsPlatformVersion = MsPlatformVersion"
| "marker_value_of_canonical_string CsSysPlatform = MsSysPlatform"

fun marker_value_of_canonical_version :: "canonical_version \<Rightarrow> marker_value_version" where
  "marker_value_of_canonical_version CvImplementationVersion = MvImplementationVersion"
| "marker_value_of_canonical_version CvPythonFullVersion = MvPythonFullVersion"

datatype marker_value_extra = ExtraValid string | ExtraArbitrary string

fun as_extra :: "marker_value_extra \<Rightarrow> string option" where
  "as_extra (ExtraValid e) = Some e"
| "as_extra (ExtraArbitrary _) = None"

fun show_marker_value_extra :: "marker_value_extra \<Rightarrow> string" where
  "show_marker_value_extra (ExtraValid e) = e"
| "show_marker_value_extra (ExtraArbitrary s) = s"

datatype list_pair = PairExtras string | PairDependencyGroup string | PairArbitrary marker_value_list string

fun list_pair_key :: "list_pair \<Rightarrow> marker_value_list" where
  "list_pair_key (PairExtras _) = MlExtras"
| "list_pair_key (PairDependencyGroup _) = MlDependencyGroups"
| "list_pair_key (PairArbitrary k _) = k"

fun list_pair_value :: "list_pair \<Rightarrow> string" where
  "list_pair_value (PairExtras e) = e"
| "list_pair_value (PairDependencyGroup g) = g"
| "list_pair_value (PairArbitrary _ s) = s"

section \<open>Expressions\<close>

datatype marker_expression =
  EVersion marker_value_version version_specifier
| EVersionIn marker_value_version "version list" container_operator
| EString marker_value_string marker_operator string
| EList list_pair container_operator
| EExtra marker_value_extra extra_operator

datatype marker_expression_kind =
  KVersion marker_value_version | KVersionIn marker_value_version | KString marker_value_string
| KList marker_value_list | KExtra

fun expression_kind :: "marker_expression \<Rightarrow> marker_expression_kind" where
  "expression_kind (EVersion k _) = KVersion k"
| "expression_kind (EVersionIn k _ _) = KVersionIn k"
| "expression_kind (EString k _ _) = KString k"
| "expression_kind (EList p _) = KList (list_pair_key p)"
| "expression_kind (EExtra _ _) = KExtra"

section \<open>Environments\<close>

record string_version =
  sv_string :: string
  sv_version :: version

record marker_environment =
  implementation_name :: string
  implementation_version :: string_version
  os_name :: string
  platform_machine :: string
  platform_python_implementation :: string
  platform_release :: string
  platform_system :: string
  platform_version :: string
  python_full_version :: string_version
  python_version :: string_version
  sys_platform :: string

fun get_version :: "marker_environment \<Rightarrow> canonical_version \<Rightarrow> version" where
  "get_version env CvImplementationVersion = sv_version (implementation_version env)"
| "get_version env CvPythonFullVersion = sv_version (python_full_version env)"

fun get_string :: "marker_environment \<Rightarrow> canonical_string \<Rightarrow> string" where
  "get_string env CsImplementationName = implementation_name env"
| "get_string env CsOsName = os_name env"
| "get_string env CsPlatformMachine = platform_machine env"
| "get_string env CsPlatformPythonImplementation = platform_python_implementation env"
| "get_string env CsPlatformRelease = platform_release env"
| "get_string env CsPlatformSystem = platform_system env"
| "get_string env CsPlatformVersion = platform_version env"
| "get_string env CsSysPlatform = sys_platform env"

datatype extras_environment = FromExtras "string list" | FromPep751 "string list" "string list"

fun env_extra :: "extras_environment \<Rightarrow> string list" where
  "env_extra (FromExtras extras) = extras"
| "env_extra (FromPep751 _ _) = []"

fun env_extras :: "extras_environment \<Rightarrow> string list" where
  "env_extras (FromExtras _) = []"
| "env_extras (FromPep751 extras _) = extras"

fun env_dependency_groups :: "extras_environment \<Rightarrow> string list" where
  "env_dependency_groups (FromExtras _) = []"
| "env_dependency_groups (FromPep751 _ groups) = groups"

text \<open>Rust's \<open>str::contains\<close> with a string pattern.\<close>

definition str_contains :: "string \<Rightarrow> string \<Rightarrow> bool" where
  "str_contains hay needle \<longleftrightarrow>
    list_ex (\<lambda>i. take (length needle) (drop i hay) = needle) [0..<Suc (length hay)]"

section \<open>Variables of the decision diagram\<close>

datatype variable =
  VString canonical_string
| VVersion canonical_version
| VIn canonical_string string
| VContains canonical_string string
| VExtra string
| VList list_pair

text \<open>
  The derived order of variables: by variant, then by the fields. The key of a variable is a tuple
  that is compared lexicographically.
\<close>

fun list_pair_order :: "list_pair \<Rightarrow> nat \<times> nat \<times> string" where
  "list_pair_order (PairExtras e) = (0, 0, e)"
| "list_pair_order (PairDependencyGroup g) = (1, 0, g)"
| "list_pair_order (PairArbitrary k s) = (2, (case k of MlExtras \<Rightarrow> 0 | MlDependencyGroups \<Rightarrow> 1), s)"

fun variable_key :: "variable \<Rightarrow> nat \<times> nat \<times> nat \<times> string" where
  "variable_key (VString k) = (0, canonical_string_rank k, 0, [])"
| "variable_key (VVersion k) = (1, canonical_version_rank k, 0, [])"
| "variable_key (VIn k s) = (2, canonical_string_rank k, 0, s)"
| "variable_key (VContains k s) = (3, canonical_string_rank k, 0, s)"
| "variable_key (VExtra e) = (4, 0, 0, e)"
| "variable_key (VList p) = (5, list_pair_order p)"

definition variable_cmp :: "variable \<Rightarrow> variable \<Rightarrow> ordering" where
  "variable_cmp x y = cmp (variable_key x) (variable_key y)"

fun is_conflicting_variable :: "variable \<Rightarrow> bool" where
  "is_conflicting_variable (VString k) = is_conflicting k"
| "is_conflicting_variable _ = False"

end
