(* ===== verification/Marker_Algebra.thy ===== *)
theory Marker_Algebra
  imports Marker_Data "HOL-Library.Monad_Syntax"
begin

text \<open>
  The marker algebra (\<open>crates/uv-pep508/src/marker/algebra.rs\<close>): markers as reduced ordered
  decision diagrams with complemented edges, held in an interner. Ranges of versions and of strings
  are the parameters \<open>R\<close> and \<open>S\<close>. Operations take and return the interner; \<open>None\<close> is a
  panic. A recursion over diagrams takes fuel, and its callers give it what the identifiers of its
  arguments need. Identifiers and indices are natural numbers: a \<open>usize\<close> overflows only
  after more nodes than fit in memory.
\<close>

section \<open>Node identifiers\<close>

type_synonym node_id = nat

abbreviation id_true :: node_id where "id_true \<equiv> 0"
abbreviation id_false :: node_id where "id_false \<equiv> 1"

definition node_id_new :: "nat \<Rightarrow> bool \<Rightarrow> node_id" where
  "node_id_new index complement = 2 * (index + 1) + (if complement then 1 else 0)"

definition node_index :: "node_id \<Rightarrow> nat" where
  "node_index i = i div 2 - 1"

definition is_complement :: "node_id \<Rightarrow> bool" where
  "is_complement i \<longleftrightarrow> odd i"

definition id_not :: "node_id \<Rightarrow> node_id" where
  "id_not i = (if odd i then i - 1 else i + 1)"

definition id_negate :: "node_id \<Rightarrow> node_id \<Rightarrow> node_id" where
  "id_negate i parent = (if is_complement parent then id_not i else i)"

section \<open>Edges and nodes\<close>

datatype ('r, 's) edges =
  Versions "('r \<times> node_id) list"
| Strings "('s \<times> node_id) list"
| Boolean node_id node_id

datatype ('r, 's) node = Node (n_var: variable) (n_children: "('r, 's) edges")

definition edges_from_bool :: "bool \<Rightarrow> ('r, 's) edges" where
  "edges_from_bool complemented = (if complemented then Boolean id_true id_false else Boolean id_false id_true)"

fun edge_nodes :: "('r, 's) edges \<Rightarrow> node_id list" where
  "edge_nodes (Versions es) = map snd es"
| "edge_nodes (Strings es) = map snd es"
| "edge_nodes (Boolean high low) = [high, low]"

fun edges_not :: "('r, 's) edges \<Rightarrow> ('r, 's) edges" where
  "edges_not (Versions es) = Versions (map (map_prod id id_not) es)"
| "edges_not (Strings es) = Strings (map (map_prod id id_not) es)"
| "edges_not (Boolean high low) = Boolean (id_not high) (id_not low)"

text \<open>The children are visited in order; a boolean node visits its low child first.\<close>

fun map_edges :: "(node_id \<Rightarrow> 'st \<Rightarrow> (node_id \<times> 'st) option) \<Rightarrow> node_id \<Rightarrow> ('r \<times> node_id) list \<Rightarrow> 'st
    \<Rightarrow> (('r \<times> node_id) list \<times> 'st) option" where
  "map_edges f parent [] st = Some ([], st)"
| "map_edges f parent ((r, n) # es) st = do {
     (n', st1) \<leftarrow> f (id_negate n parent) st;
     (es', st2) \<leftarrow> map_edges f parent es st1;
     Some ((r, n') # es', st2)
   }"

fun edges_map :: "(node_id \<Rightarrow> 'st \<Rightarrow> (node_id \<times> 'st) option) \<Rightarrow> node_id \<Rightarrow> ('r, 's) edges \<Rightarrow> 'st
    \<Rightarrow> (('r, 's) edges \<times> 'st) option" where
  "edges_map f parent (Versions es) st = do { (es', st') \<leftarrow> map_edges f parent es st; Some (Versions es', st') }"
| "edges_map f parent (Strings es) st = do { (es', st') \<leftarrow> map_edges f parent es st; Some (Strings es', st') }"
| "edges_map f parent (Boolean high low) st = do {
     (low', st1) \<leftarrow> f (id_negate low parent) st;
     (high', st2) \<leftarrow> f (id_negate high parent) st1;
     Some (Boolean high' low', st2)
   }"

section \<open>Ranges on edges\<close>

text \<open>The comparison of the values is the parameter \<open>c\<close>.\<close>

definition compare_disjoint_range_start ::
    "('v \<Rightarrow> 'v \<Rightarrow> ordering) \<Rightarrow> ('r, 'v, 'm) ranges_scheme \<Rightarrow> 'r \<Rightarrow> 'r \<Rightarrow> ordering option" where
  "compare_disjoint_range_start c R range1 range2 = do {
     (upper1, _) \<leftarrow> r_bounding_range R range1;
     (upper2, _) \<leftarrow> r_bounding_range R range2;
     Some (case (upper1, upper2) of
       (Unbounded, _) \<Rightarrow> Less
     | (_, Unbounded) \<Rightarrow> Greater
     | (Included v1, Excluded v2) \<Rightarrow> if c v1 v2 = Equal then Less else c v1 v2
     | (Excluded v1, Included v2) \<Rightarrow> if c v1 v2 = Equal then Greater else c v1 v2
     | (Included v1, Included v2) \<Rightarrow> c v1 v2
     | (Excluded v1, Excluded v2) \<Rightarrow> c v1 v2)
   }"

definition can_conjoin :: "('v \<Rightarrow> 'v \<Rightarrow> ordering) \<Rightarrow> ('r, 'v, 'm) ranges_scheme \<Rightarrow> 'r \<Rightarrow> 'r \<Rightarrow> bool" where
  "can_conjoin c R range1 range2 =
    (case (r_bounding_range R range1, r_bounding_range R range2) of
       (Some (_, upper), Some (start, _)) \<Rightarrow>
         (case (upper, start) of
            (Included v1, Excluded v2) \<Rightarrow> c v1 v2 = Equal
          | (Excluded v1, Included v2) \<Rightarrow> c v1 v2 = Equal
          | _ \<Rightarrow> False)
     | _ \<Rightarrow> False)"

text \<open>
  The edges of a range and of its complement, sorted by their start. Sorting two or more edges
  unwraps their bounding ranges.
\<close>

definition from_range :: "('v \<Rightarrow> 'v \<Rightarrow> ordering) \<Rightarrow> ('r, 'v, 'm) ranges_scheme \<Rightarrow> 'r \<Rightarrow> ('r \<times> node_id) list option" where
  "from_range c R rng =
    (let es = map (\<lambda>(l, u). (r_from_range_bounds R l u, id_true)) (r_iter R rng)
           @ map (\<lambda>(l, u). (r_from_range_bounds R l u, id_false)) (r_iter R (r_complement R rng))
     in if 2 \<le> length es \<and> list_ex (\<lambda>(r, _). r_bounding_range R r = None) es then None
        else Some (sort_by (\<lambda>(r1, _) (r2, _). the (compare_disjoint_range_start c R r1 r2)) es))"

definition push_combined :: "('v \<Rightarrow> 'v \<Rightarrow> ordering) \<Rightarrow> ('r, 'v, 'm) ranges_scheme \<Rightarrow> ('r \<times> node_id) list \<Rightarrow> 'r \<Rightarrow> node_id
    \<Rightarrow> ('r \<times> node_id) list" where
  "push_combined c R combined meet n =
    (if combined \<noteq> [] \<and> snd (last combined) = n \<and> can_conjoin c R (fst (last combined)) meet
     then butlast combined @ [(r_union R (fst (last combined)) meet, n)]
     else combined @ [(meet, n)])"

text \<open>The inner loop of \<open>apply_ranges\<close>: one edge on the left against all edges on the right.\<close>

fun apply_row :: "('v \<Rightarrow> 'v \<Rightarrow> ordering) \<Rightarrow> ('r, 'v, 'm) ranges_scheme
    \<Rightarrow> (node_id \<Rightarrow> node_id \<Rightarrow> 'st \<Rightarrow> (node_id \<times> 'st) option) \<Rightarrow> 'r \<Rightarrow> node_id \<Rightarrow> ('r \<times> node_id) list \<Rightarrow> node_id
    \<Rightarrow> ('r \<times> node_id) list \<Rightarrow> 'st \<Rightarrow> (('r \<times> node_id) list \<times> 'st) option" where
  "apply_row c R f left_range left [] right_parent combined st = Some (combined, st)"
| "apply_row c R f left_range left ((right_range, right_child) # es) right_parent combined st =
    (let meet = r_intersection R right_range left_range
     in if r_is_empty R meet then apply_row c R f left_range left es right_parent combined st
        else do {
          (n, st') \<leftarrow> f left (id_negate right_child right_parent) st;
          apply_row c R f left_range left es right_parent (push_combined c R combined meet n) st'
        })"

fun apply_rows :: "('v \<Rightarrow> 'v \<Rightarrow> ordering) \<Rightarrow> ('r, 'v, 'm) ranges_scheme
    \<Rightarrow> (node_id \<Rightarrow> node_id \<Rightarrow> 'st \<Rightarrow> (node_id \<times> 'st) option) \<Rightarrow> ('r \<times> node_id) list \<Rightarrow> node_id \<Rightarrow> ('r \<times> node_id) list
    \<Rightarrow> node_id \<Rightarrow> ('r \<times> node_id) list \<Rightarrow> 'st \<Rightarrow> (('r \<times> node_id) list \<times> 'st) option" where
  "apply_rows c R f [] left_parent right_edges right_parent combined st = Some (combined, st)"
| "apply_rows c R f ((left_range, left_child) # es) left_parent right_edges right_parent combined st = do {
     (combined', st') \<leftarrow> apply_row c R f left_range (id_negate left_child left_parent) right_edges right_parent combined st;
     apply_rows c R f es left_parent right_edges right_parent combined' st'
   }"

definition apply_ranges where
  "apply_ranges c R f left_edges left_parent right_edges right_parent st =
    apply_rows c R f left_edges left_parent right_edges right_parent [] st"

fun edges_apply :: "('r, version, 'm) ranges_scheme \<Rightarrow> ('s, string, 'n) ranges_scheme
    \<Rightarrow> (node_id \<Rightarrow> node_id \<Rightarrow> 'st \<Rightarrow> (node_id \<times> 'st) option) \<Rightarrow> ('r, 's) edges \<Rightarrow> node_id \<Rightarrow> ('r, 's) edges \<Rightarrow> node_id
    \<Rightarrow> 'st \<Rightarrow> (('r, 's) edges \<times> 'st) option" where
  "edges_apply R S f (Versions es) parent (Versions es') parent' st = do {
     (xs, st') \<leftarrow> apply_ranges version_cmp R f es parent es' parent' st;
     Some (Versions xs, st')
   }"
| "edges_apply R S f (Strings es) parent (Strings es') parent' st = do {
     (xs, st') \<leftarrow> apply_ranges cmp S f es parent es' parent' st;
     Some (Strings xs, st')
   }"
| "edges_apply R S f (Boolean high low) parent (Boolean high' low') parent' st = do {
     (h, st1) \<leftarrow> f (id_negate high parent) (id_negate high' parent') st;
     (l, st2) \<leftarrow> f (id_negate low parent) (id_negate low' parent') st1;
     Some (Boolean h l, st2)
   }"
| "edges_apply R S f _ parent _ parent' st = None"

text \<open>A conjunction that stops at the first \<open>false\<close>, as \<open>Iterator::all\<close> and \<open>&&\<close> do.\<close>

fun all_opt :: "('a \<Rightarrow> bool option) \<Rightarrow> 'a list \<Rightarrow> bool option" where
  "all_opt f [] = Some True"
| "all_opt f (x # xs) = do { b \<leftarrow> f x; if b then all_opt f xs else Some False }"

definition is_disjoint_ranges :: "('r, 'v, 'm) ranges_scheme \<Rightarrow> (node_id \<Rightarrow> node_id \<Rightarrow> bool option)
    \<Rightarrow> ('r \<times> node_id) list \<Rightarrow> node_id \<Rightarrow> ('r \<times> node_id) list \<Rightarrow> node_id \<Rightarrow> bool option" where
  "is_disjoint_ranges R f left_edges left_parent right_edges right_parent =
    all_opt (\<lambda>(left_range, left_child). all_opt (\<lambda>(right_range, right_child).
        if r_is_disjoint R right_range left_range then Some True
        else f (id_negate left_child left_parent) (id_negate right_child right_parent)) right_edges) left_edges"

fun edges_is_disjoint :: "('r, version, 'm) ranges_scheme \<Rightarrow> ('s, string, 'n) ranges_scheme \<Rightarrow> (node_id \<Rightarrow> node_id \<Rightarrow> bool option)
    \<Rightarrow> ('r, 's) edges \<Rightarrow> node_id \<Rightarrow> ('r, 's) edges \<Rightarrow> node_id \<Rightarrow> bool option" where
  "edges_is_disjoint R S f (Versions es) parent (Versions es') parent' = is_disjoint_ranges R f es parent es' parent'"
| "edges_is_disjoint R S f (Strings es) parent (Strings es') parent' = is_disjoint_ranges S f es parent es' parent'"
| "edges_is_disjoint R S f (Boolean high low) parent (Boolean high' low') parent' =
    all_opt (\<lambda>(a, b). f (id_negate a parent) (id_negate b parent')) [(high, high'), (low, low')]"
| "edges_is_disjoint R S f _ parent _ parent' = None"

section \<open>The interner\<close>

type_synonym and_cache = "node_id \<times> node_id \<Rightarrow> node_id option"

record ('r, 's) interner =
  i_nodes :: "('r, 's) node list"
  i_unique :: "('r, 's) node \<Rightarrow> node_id option"
  i_cache :: and_cache
  i_exclusions :: "node_id option"

definition interner_default :: "('r, 's) interner" where
  "interner_default = \<lparr>i_nodes = [], i_unique = Map.empty, i_cache = Map.empty, i_exclusions = None\<rparr>"

definition interner_node :: "('r, 's) interner \<Rightarrow> node_id \<Rightarrow> ('r, 's) node option" where
  "interner_node st i =
    (if i < 2 \<or> length (i_nodes st) \<le> node_index i then None else Some (i_nodes st ! node_index i))"

definition node_not :: "('r, 's) node \<Rightarrow> ('r, 's) node" where
  "node_not n = Node (n_var n) (edges_not (n_children n))"

definition insert_node :: "('r, 's) node \<Rightarrow> ('r, 's) interner \<Rightarrow> node_id \<times> ('r, 's) interner" where
  "insert_node n st =
    (case i_unique st n of
       Some i \<Rightarrow> (i, st)
     | None \<Rightarrow>
         let i = node_id_new (length (i_nodes st)) False
         in (i, st\<lparr>i_nodes := i_nodes st @ [n], i_unique := (i_unique st)(n \<mapsto> i)\<rparr>))"

definition create_node :: "variable \<Rightarrow> ('r, 's) edges \<Rightarrow> ('r, 's) interner \<Rightarrow> (node_id \<times> ('r, 's) interner) option" where
  "create_node var children st =
    (case edge_nodes children of
       [] \<Rightarrow> None
     | first0 # _ \<Rightarrow>
         let flipped = is_complement first0;
             n = (if flipped then node_not (Node var children) else Node var children);
             first1 = (if flipped then id_not first0 else first0)
         in if list_all (\<lambda>i. i = first1) (edge_nodes (n_children n))
            then Some (if flipped then id_not first1 else first1, st)
            else case insert_node n st of (i, st') \<Rightarrow> Some (if flipped then id_not i else i, st'))"

section \<open>Expressions\<close>

definition from_string :: "('s, string, 'n) ranges_scheme \<Rightarrow> canonical_string \<Rightarrow> marker_operator \<Rightarrow> string \<Rightarrow> ('r, 's) edges option" where
  "from_string S key op s =
    (let ordered = key = CsPlatformRelease \<or> key = CsPlatformVersion
     in do {
       rng \<leftarrow> (case op of
          MGreaterThan \<Rightarrow> Some (if ordered then r_strictly_higher_than S s else r_empty S)
        | MGreaterEqual \<Rightarrow> Some (if ordered then r_higher_than S s else r_singleton S s)
        | MLessThan \<Rightarrow> Some (if ordered then r_strictly_lower_than S s else r_empty S)
        | MLessEqual \<Rightarrow> Some (if ordered then r_lower_than S s else r_singleton S s)
        | MEqual \<Rightarrow> Some (r_singleton S s)
        | MNotEqual \<Rightarrow> Some (r_complement S (r_singleton S s))
        | _ \<Rightarrow> None);
       es \<leftarrow> from_range cmp S rng;
       Some (Strings es)
     })"

definition from_specifier :: "('r, version, 'm) ranges_scheme \<Rightarrow> version_specifier \<Rightarrow> ('r, 's) edges option" where
  "from_specifier R s = do {
     s' \<leftarrow> specifier_only_release s;
     rng \<leftarrow> release_specifier_to_range R s' True;
     es \<leftarrow> from_range version_cmp R rng;
     Some (Versions es)
   }"

definition from_versions :: "('r, version, 'm) ranges_scheme \<Rightarrow> version list \<Rightarrow> container_operator \<Rightarrow> ('r, 's) edges option" where
  "from_versions R vs op = do {
     es \<leftarrow> (let rng = r_collect R (map (\<lambda>v. (Included v, Included v)) vs)
            in from_range version_cmp R (if op = CoNotIn then r_complement R rng else rng));
     Some (Versions es)
   }"

text \<open>
  \<open>python_version_to_full_version\<close>: an always true or always false comparison is \<open>Err\<close> with the
  constant. The three groups of operators of the source are three definitions.
\<close>

definition full_version_star :: "version_specifier \<Rightarrow> (version_specifier, node_id) outcome" where
  "full_version_star s =
    (case version_release (sp_version s) of
       [_] \<Rightarrow> Ok s
     | major # minor # others \<Rightarrow>
         if list_all (\<lambda>x. x = 0) others
         then (case version_new [major, minor] of
                 None \<Rightarrow> Panic
               | Some v \<Rightarrow> (case unwrap (from_version (sp_operator s) v) of None \<Rightarrow> Panic | Some s' \<Rightarrow> Ok s'))
         else Err id_false
     | _ \<Rightarrow> Err id_false)"

definition full_version_tilde :: "version_specifier \<Rightarrow> (version_specifier, node_id) outcome" where
  "full_version_tilde s =
    (case version_release (sp_version s) of
       [_, _] \<Rightarrow> Ok s
     | major # minor # others \<Rightarrow>
         if list_all (\<lambda>x. x = 0) others
         then (case version_new [major, minor] of None \<Rightarrow> Panic | Some v \<Rightarrow> Ok (equals_star_version v))
         else Err id_false
     | _ \<Rightarrow> Err id_false)"

definition full_version_exact :: "u64 \<Rightarrow> u64 \<Rightarrow> version_specifier \<Rightarrow> (version_specifier, node_id) outcome" where
  "full_version_exact major minor s =
    (case (version_new [major, minor], version_new [major, minor + 1]) of
       (Some v, Some v1) \<Rightarrow>
         (case sp_operator s of
            OpEqual \<Rightarrow> Ok (equals_star_version v)
          | OpExactEqual \<Rightarrow> Ok (equals_star_version v)
          | OpNotEqual \<Rightarrow> Ok (not_equals_star_version v)
          | OpGreaterThan \<Rightarrow> Ok (greater_than_equal_version v1)
          | OpLessThan \<Rightarrow> Ok s
          | OpGreaterThanEqual \<Rightarrow> Ok s
          | OpLessThanEqual \<Rightarrow> Ok (less_than_version v1)
          | _ \<Rightarrow> Panic)
     | _ \<Rightarrow> Panic)"

definition full_version_longer :: "version_specifier \<Rightarrow> (version_specifier, node_id) outcome" where
  "full_version_longer s =
    (case version_release (sp_version s) of
       major # minor # _ \<Rightarrow>
         (case version_new [major, minor + 1] of
            None \<Rightarrow> Panic
          | Some v1 \<Rightarrow>
              (case sp_operator s of
                 OpEqual \<Rightarrow> Err id_false
               | OpExactEqual \<Rightarrow> Err id_false
               | OpNotEqual \<Rightarrow> Err id_true
               | OpLessThan \<Rightarrow> Ok (less_than_version v1)
               | OpLessThanEqual \<Rightarrow> Ok (less_than_version v1)
               | OpGreaterThan \<Rightarrow> Ok (greater_than_equal_version v1)
               | OpGreaterThanEqual \<Rightarrow> Ok (greater_than_equal_version v1)
               | _ \<Rightarrow> Panic))
     | _ \<Rightarrow> Panic)"

definition python_version_to_full_version :: "version_specifier \<Rightarrow> (version_specifier, node_id) outcome" where
  "python_version_to_full_version s =
    (if is_star (sp_operator s) then full_version_star s
     else if sp_operator s = OpTildeEqual then full_version_tilde s
     else case only_release_trimmed (sp_version s) of
       None \<Rightarrow> Panic
     | Some w \<Rightarrow>
         (case version_release w of
            [major] \<Rightarrow> full_version_exact major 0 s
          | [major, minor] \<Rightarrow> full_version_exact major minor s
          | _ \<Rightarrow> full_version_longer s))"

text \<open>The segments of all versions in the list; the first constant ends the iteration.\<close>

fun python_version_segments :: "('r, version, 'm) ranges_scheme \<Rightarrow> version list \<Rightarrow> (version segment list, node_id) outcome" where
  "python_version_segments R [] = Ok []"
| "python_version_segments R (v # vs) =
    (case only_release v of
       None \<Rightarrow> Panic
     | Some w \<Rightarrow>
         and_then (python_version_to_full_version (equals_version w)) (\<lambda>s.
           case release_specifier_to_range R s True of
             None \<Rightarrow> Panic
           | Some r \<Rightarrow> and_then (python_version_segments R vs) (\<lambda>xs. Ok (r_iter R r @ xs))))"

definition from_python_versions :: "('r, version, 'm) ranges_scheme \<Rightarrow> version list \<Rightarrow> container_operator
    \<Rightarrow> (('r, 's) edges, node_id) outcome" where
  "from_python_versions R vs op =
    and_then (python_version_segments R vs) (\<lambda>xs.
      let rng = r_collect R xs
      in case from_range version_cmp R (if op = CoNotIn then r_complement R rng else rng) of
           None \<Rightarrow> Panic
         | Some es \<Rightarrow> Ok (Versions es))"

text \<open>\<open>platform_system\<close> values that are exactly equivalent to a \<open>sys_platform\<close> value.\<close>

definition normalize_platform :: "marker_value_string \<Rightarrow> string \<Rightarrow> canonical_string \<times> string" where
  "normalize_platform key s =
    (case (if key = MsPlatformSystem
           then map_of [(''Windows'', ''win32''), (''Darwin'', ''darwin''), (''Linux'', ''linux''), (''AIX'', ''aix''),
                  (''Emscripten'', ''emscripten''), (''Android'', ''android'')] s
           else None) of
       Some s' \<Rightarrow> (CsSysPlatform, s')
     | None \<Rightarrow> (canonical_of key, s))"

text \<open>The variable and the children of an expression, or the constant it is equivalent to.\<close>

definition expression_edges :: "('r, version, 'm) ranges_scheme \<Rightarrow> ('s, string, 'n) ranges_scheme \<Rightarrow> marker_expression
    \<Rightarrow> (variable \<times> ('r, 's) edges, node_id) outcome" where
  "expression_edges R S e =
    (case e of
       EVersion MvPythonVersion specifier \<Rightarrow>
         (case specifier_only_release specifier of
            None \<Rightarrow> Panic
          | Some s \<Rightarrow>
              and_then (python_version_to_full_version s) (\<lambda>s'.
                case from_specifier R s' of
                  None \<Rightarrow> Panic
                | Some es \<Rightarrow> Ok (VVersion CvPythonFullVersion, es)))
     | EVersion key specifier \<Rightarrow>
         (case from_specifier R specifier of
            None \<Rightarrow> Panic
          | Some es \<Rightarrow>
              Ok (VVersion (if key = MvImplementationVersion then CvImplementationVersion else CvPythonFullVersion), es))
     | EVersionIn MvPythonVersion versions op \<Rightarrow>
         and_then (from_python_versions R versions op) (\<lambda>es. Ok (VVersion CvPythonFullVersion, es))
     | EVersionIn key versions op \<Rightarrow>
         (case from_versions R versions op of
            None \<Rightarrow> Panic
          | Some es \<Rightarrow>
              Ok (VVersion (if key = MvImplementationVersion then CvImplementationVersion else CvPythonFullVersion), es))
     | EString key MIn s \<Rightarrow> Ok (VIn (canonical_of key) s, edges_from_bool True)
     | EString key MNotIn s \<Rightarrow> Ok (VIn (canonical_of key) s, edges_from_bool False)
     | EString key MContains s \<Rightarrow> Ok (VContains (canonical_of key) s, edges_from_bool True)
     | EString key MNotContains s \<Rightarrow> Ok (VContains (canonical_of key) s, edges_from_bool False)
     | EString key op s \<Rightarrow>
         (case normalize_platform key s of
            (key', s') \<Rightarrow>
              (case from_string S key' op s' of None \<Rightarrow> Panic | Some es \<Rightarrow> Ok (VString key', es)))
     | EList pair op \<Rightarrow> Ok (VList pair, edges_from_bool (op = CoIn))
     | EExtra (ExtraValid extra) op \<Rightarrow> Ok (VExtra extra, edges_from_bool (op = ExEqual))
     | EExtra (ExtraArbitrary _) op \<Rightarrow> Err id_false)"

definition expression :: "('r, version, 'm) ranges_scheme \<Rightarrow> ('s, string, 'n) ranges_scheme \<Rightarrow> marker_expression
    \<Rightarrow> ('r, 's) interner \<Rightarrow> (node_id \<times> ('r, 's) interner) option" where
  "expression R S e st =
    (case expression_edges R S e of
       Ok (var, children) \<Rightarrow> create_node var children st
     | Err i \<Rightarrow> Some (i, st)
     | Panic \<Rightarrow> None)"

end
