(* ===== verification/Marker_Ops.thy ===== *)
theory Marker_Ops
  imports Marker_Algebra
begin

text \<open>
  Operations on interned markers (\<open>algebra.rs\<close>): conjunction, disjunction, disjointness,
  restriction, the elimination of extras and of other variables, and the incompatible pairs of
  markers; the methods of \<open>MarkerTree\<close> (\<open>tree.rs\<close>) on top of them.
\<close>

section \<open>Conjunction without known incompatibilities\<close>

text \<open>
  The cases both conjunctions decide without looking at the nodes.
\<close>

definition and_shortcut :: "node_id \<Rightarrow> node_id \<Rightarrow> node_id option" where
  "and_shortcut xi yi =
    (if xi = id_true then Some yi
     else if yi = id_true then Some xi
     else if xi = yi then Some xi
     else if xi = id_false \<or> yi = id_false then Some id_false
     else if id_not xi = yi then Some id_false
     else None)"

text \<open>Shannon expansion of the variable that comes first in the order.\<close>

definition shannon :: "('r, version, 'm) ranges_scheme \<Rightarrow> ('s, string, 'n) ranges_scheme
    \<Rightarrow> (node_id \<Rightarrow> node_id \<Rightarrow> 'st \<Rightarrow> (node_id \<times> 'st) option) \<Rightarrow> node_id \<Rightarrow> ('r, 's) node \<Rightarrow> node_id \<Rightarrow> ('r, 's) node
    \<Rightarrow> 'st \<Rightarrow> ((variable \<times> ('r, 's) edges) \<times> 'st) option" where
  "shannon R S f xi x yi y st =
    (case variable_cmp (n_var x) (n_var y) of
       Less \<Rightarrow> do { (children, st') \<leftarrow> edges_map (\<lambda>n. f n yi) xi (n_children x) st; Some ((n_var x, children), st') }
     | Greater \<Rightarrow> do { (children, st') \<leftarrow> edges_map (\<lambda>n. f n xi) yi (n_children y) st; Some ((n_var y, children), st') }
     | Equal \<Rightarrow> do {
         (children, st') \<leftarrow> edges_apply R S f (n_children x) xi (n_children y) yi st;
         Some ((n_var x, children), st')
       })"

primrec conjunction_fuel :: "nat \<Rightarrow> ('r, version, 'm) ranges_scheme \<Rightarrow> ('s, string, 'n) ranges_scheme \<Rightarrow> node_id \<Rightarrow> node_id
    \<Rightarrow> and_cache \<times> ('r, 's) interner \<Rightarrow> (node_id \<times> and_cache \<times> ('r, 's) interner) option" where
  "conjunction_fuel 0 R S = (\<lambda>xi yi st. None)"
| "conjunction_fuel (Suc fuel) R S = (\<lambda>xi yi (cache, st).
    (case and_shortcut xi yi of
       Some i \<Rightarrow> Some (i, cache, st)
     | None \<Rightarrow>
         (case cache (xi, yi) of
            Some i \<Rightarrow> Some (i, cache, st)
          | None \<Rightarrow> do {
              x \<leftarrow> interner_node st xi;
              y \<leftarrow> interner_node st yi;
              ((var, children), (cache', st1)) \<leftarrow> shannon R S (conjunction_fuel fuel R S) xi x yi y (cache, st);
              (i, st2) \<leftarrow> create_node var children st1;
              Some (i, cache'((xi, yi) \<mapsto> i), st2)
            })))"

definition conjunction where
  "conjunction R S xi yi st = conjunction_fuel (Suc (xi + yi)) R S xi yi st"

definition disjunction where
  "disjunction R S xi yi st = do { (i, st') \<leftarrow> conjunction R S (id_not xi) (id_not yi) st; Some (id_not i, st') }"

section \<open>Disjointness\<close>

text \<open>
  The cases \<open>disjointness\<close> and \<open>is_disjoint\<close> decide without looking at the nodes.
\<close>

definition disjoint_shortcut :: "node_id \<Rightarrow> node_id \<Rightarrow> bool option" where
  "disjoint_shortcut xi yi =
    (if xi = id_false \<or> yi = id_false then Some True
     else if xi = id_true \<or> yi = id_true then Some False
     else if xi = yi then Some False
     else if id_not xi = yi then Some True
     else None)"

definition shannon_disjoint :: "('r, version, 'm) ranges_scheme \<Rightarrow> ('s, string, 'n) ranges_scheme
    \<Rightarrow> (node_id \<Rightarrow> node_id \<Rightarrow> bool option) \<Rightarrow> node_id \<Rightarrow> ('r, 's) node \<Rightarrow> node_id \<Rightarrow> ('r, 's) node \<Rightarrow> bool option" where
  "shannon_disjoint R S f xi x yi y =
    (case variable_cmp (n_var x) (n_var y) of
       Less \<Rightarrow> all_opt (\<lambda>n. f (id_negate n xi) yi) (edge_nodes (n_children x))
     | Greater \<Rightarrow> all_opt (\<lambda>n. f (id_negate n yi) xi) (edge_nodes (n_children y))
     | Equal \<Rightarrow> edges_is_disjoint R S f (n_children x) xi (n_children y) yi)"

primrec disjointness_fuel :: "nat \<Rightarrow> ('r, version, 'm) ranges_scheme \<Rightarrow> ('s, string, 'n) ranges_scheme \<Rightarrow> ('r, 's) interner
    \<Rightarrow> node_id \<Rightarrow> node_id \<Rightarrow> bool option" where
  "disjointness_fuel 0 R S st = (\<lambda>xi yi. None)"
| "disjointness_fuel (Suc fuel) R S st = (\<lambda>xi yi.
    (case disjoint_shortcut xi yi of
       Some b \<Rightarrow> Some b
     | None \<Rightarrow> do {
         x \<leftarrow> interner_node st xi;
         y \<leftarrow> interner_node st yi;
         shannon_disjoint R S (disjointness_fuel fuel R S st) xi x yi y
       }))"

definition disjointness where
  "disjointness R S xi yi st = disjointness_fuel (Suc (xi + yi)) R S st xi yi"

section \<open>Known incompatible markers\<close>

text \<open>The nodes \<open>exclusions\<close> creates upfront, in the order of the source.\<close>

definition exclusion_markers :: "(marker_value_string \<times> string) list" where
  "exclusion_markers =
    [(MsOsName, ''nt''), (MsOsName, ''posix''),
     (MsSysPlatform, ''linux''), (MsSysPlatform, ''darwin''), (MsSysPlatform, ''ios''), (MsSysPlatform, ''win32''),
     (MsPlatformSystem, ''FreeBSD''), (MsPlatformSystem, ''NetBSD''), (MsPlatformSystem, ''OpenBSD''),
     (MsPlatformSystem, ''SunOS''), (MsPlatformSystem, ''iOS''), (MsPlatformSystem, ''iPadOS''),
     (MsSysPlatform, ''aix''), (MsSysPlatform, ''android''), (MsSysPlatform, ''emscripten''),
     (MsSysPlatform, ''cygwin''), (MsSysPlatform, ''wasi'')]"

fun expressions :: "('r, version, 'm) ranges_scheme \<Rightarrow> ('s, string, 'n) ranges_scheme \<Rightarrow> marker_expression list
    \<Rightarrow> ('r, 's) interner \<Rightarrow> (node_id list \<times> ('r, 's) interner) option" where
  "expressions R S [] st = Some ([], st)"
| "expressions R S (e # es) st = do {
     (i, st1) \<leftarrow> expression R S e st;
     (is, st2) \<leftarrow> expressions R S es st1;
     Some (i # is, st2)
   }"

text \<open>The incompatible pairs, by the positions of their markers in \<open>exclusion_markers\<close>.\<close>

definition exclusion_pairs :: "node_id list \<Rightarrow> (node_id \<times> node_id) list" where
  "exclusion_pairs n =
    [(n ! 0, n ! 2), (n ! 0, n ! 3), (n ! 0, n ! 4), (n ! 1, n ! 5)]
    @ concat (map (\<lambda>p. map (\<lambda>s. (p, s))
        (filter (\<lambda>s. \<not> (s = n ! 4 \<and> (p = n ! 10 \<or> p = n ! 11)))
          [n ! 12, n ! 13, n ! 14, n ! 4, n ! 2, n ! 3, n ! 5, n ! 15, n ! 16]))
        [n ! 6, n ! 7, n ! 8, n ! 9, n ! 10, n ! 11])"

fun exclude_pairs :: "('r, version, 'm) ranges_scheme \<Rightarrow> ('s, string, 'n) ranges_scheme \<Rightarrow> (node_id \<times> node_id) list \<Rightarrow> node_id
    \<Rightarrow> and_cache \<times> ('r, 's) interner \<Rightarrow> (node_id \<times> and_cache \<times> ('r, 's) interner) option" where
  "exclude_pairs R S [] tree st = Some (tree, st)"
| "exclude_pairs R S ((a, b) # ps) tree st = do {
     (i, st1) \<leftarrow> conjunction R S a b st;
     (tree', st2) \<leftarrow> disjunction R S tree i st1;
     exclude_pairs R S ps tree' st2
   }"

definition exclusions :: "('r, version, 'm) ranges_scheme \<Rightarrow> ('s, string, 'n) ranges_scheme
    \<Rightarrow> ('r, 's) interner \<Rightarrow> (node_id \<times> ('r, 's) interner) option" where
  "exclusions R S st =
    (case i_exclusions st of
       Some i \<Rightarrow> Some (i, st)
     | None \<Rightarrow> do {
         (is, st1) \<leftarrow> expressions R S (map (\<lambda>(k, v). EString k MEqual v) exclusion_markers) st;
         (tree, (_, st2)) \<leftarrow> exclude_pairs R S (exclusion_pairs is) id_false (Map.empty, st1);
         Some (tree, st2\<lparr>i_exclusions := Some tree\<rparr>)
       })"

section \<open>Conjunction and disjunction\<close>

text \<open>A node that only holds in environments that cannot exist becomes \<open>false\<close>.\<close>

definition drop_excluded :: "('r, version, 'm) ranges_scheme \<Rightarrow> ('s, string, 'n) ranges_scheme \<Rightarrow> bool \<Rightarrow> node_id
    \<Rightarrow> ('r, 's) interner \<Rightarrow> (node_id \<times> ('r, 's) interner) option" where
  "drop_excluded R S conflicts i st =
    (if conflicts then do {
       (e, st1) \<leftarrow> exclusions R S st;
       b \<leftarrow> disjointness R S i (id_not e) st1;
       Some (if b then id_false else i, st1)
     } else Some (i, st))"

primrec and_fuel :: "nat \<Rightarrow> ('r, version, 'm) ranges_scheme \<Rightarrow> ('s, string, 'n) ranges_scheme \<Rightarrow> node_id \<Rightarrow> node_id
    \<Rightarrow> ('r, 's) interner \<Rightarrow> (node_id \<times> ('r, 's) interner) option" where
  "and_fuel 0 R S = (\<lambda>xi yi st. None)"
| "and_fuel (Suc fuel) R S = (\<lambda>xi yi st.
    (case and_shortcut xi yi of
       Some i \<Rightarrow> Some (i, st)
     | None \<Rightarrow>
         (case i_cache st (xi, yi) of
            Some i \<Rightarrow> Some (i, st)
          | None \<Rightarrow> do {
              x \<leftarrow> interner_node st xi;
              y \<leftarrow> interner_node st yi;
              ((var, children), st1) \<leftarrow> shannon R S (and_fuel fuel R S) xi x yi y st;
              (i, st2) \<leftarrow> create_node var children st1;
              (i', st3) \<leftarrow> drop_excluded R S (is_conflicting_variable (n_var x) \<and> is_conflicting_variable (n_var y)) i st2;
              Some (i', st3\<lparr>i_cache := (i_cache st3)((xi, yi) \<mapsto> i')\<rparr>)
            })))"

definition marker_and where
  "marker_and R S xi yi st = and_fuel (Suc (xi + yi)) R S xi yi st"

definition marker_or where
  "marker_or R S xi yi st = do { (i, st') \<leftarrow> marker_and R S (id_not xi) (id_not yi) st; Some (id_not i, st') }"

definition is_disjoint :: "('r, version, 'm) ranges_scheme \<Rightarrow> ('s, string, 'n) ranges_scheme \<Rightarrow> node_id \<Rightarrow> node_id
    \<Rightarrow> ('r, 's) interner \<Rightarrow> (bool \<times> ('r, 's) interner) option" where
  "is_disjoint R S xi yi st =
    (case disjoint_shortcut xi yi of
       Some b \<Rightarrow> Some (b, st)
     | None \<Rightarrow> do {
         x \<leftarrow> interner_node st xi;
         y \<leftarrow> interner_node st yi;
         if is_conflicting_variable (n_var x) \<and> is_conflicting_variable (n_var y)
         then do { (i, st') \<leftarrow> marker_and R S xi yi st; Some (i = id_false, st') }
         else do {
           b \<leftarrow> shannon_disjoint R S (\<lambda>a b. disjointness R S a b st) xi x yi y;
           Some (b, st)
         }
       })"

section \<open>Restriction\<close>

primrec restrict_by_fuel :: "nat \<Rightarrow> (variable \<Rightarrow> bool option) \<Rightarrow> node_id \<Rightarrow> ('r, 's) interner
    \<Rightarrow> (node_id \<times> ('r, 's) interner) option" where
  "restrict_by_fuel 0 f = (\<lambda>i st. None)"
| "restrict_by_fuel (Suc fuel) f = (\<lambda>i st.
    if i = id_true \<or> i = id_false then Some (i, st)
    else do {
      n \<leftarrow> interner_node st i;
      (case (n_children n, f (n_var n)) of
         (Boolean high low, Some b) \<Rightarrow> restrict_by_fuel fuel f (id_negate (if b then high else low) i) st
       | _ \<Rightarrow> do {
           (children, st1) \<leftarrow> edges_map (restrict_by_fuel fuel f) i (n_children n) st;
           create_node (n_var n) children st1
         })
    })"

definition restrict_by where
  "restrict_by f i st = restrict_by_fuel (Suc i) f i st"

text \<open>\<open>MarkerTree::simplify_extras_with\<close> and \<open>simplify_not_extras_with\<close>.\<close>

definition simplify_extras_with :: "(string \<Rightarrow> bool) \<Rightarrow> node_id \<Rightarrow> ('r, 's) interner \<Rightarrow> (node_id \<times> ('r, 's) interner) option" where
  "simplify_extras_with is_extra i st =
    restrict_by (\<lambda>var. case var of VExtra name \<Rightarrow> if is_extra name then Some True else None | _ \<Rightarrow> None) i st"

definition simplify_not_extras_with :: "(string \<Rightarrow> bool) \<Rightarrow> node_id \<Rightarrow> ('r, 's) interner \<Rightarrow> (node_id \<times> ('r, 's) interner) option" where
  "simplify_not_extras_with is_extra i st =
    restrict_by (\<lambda>var. case var of VExtra name \<Rightarrow> if is_extra name then Some False else None | _ \<Rightarrow> None) i st"

definition simplify_extras :: "string list \<Rightarrow> node_id \<Rightarrow> ('r, 's) interner \<Rightarrow> (node_id \<times> ('r, 's) interner) option" where
  "simplify_extras extras i st = simplify_extras_with (\<lambda>name. name \<in> set extras) i st"

text \<open>\<open>MarkerTree::negate\<close> and \<open>MarkerTree::implies\<close>.\<close>

definition marker_negate :: "node_id \<Rightarrow> node_id" where
  "marker_negate i = id_not i"

definition marker_implies where
  "marker_implies R S i consequent st = marker_or R S (marker_negate i) consequent st"

end
