(* ===== verification/Marker_Semantics.thy ===== *)
theory Marker_Semantics
  imports Marker_Ops "HOL-Library.Sublist"
begin

text \<open>
  The meaning of a decision diagram: valuations, the value of a node, well-formed stores. Creating a
  node keeps the store well-formed and gives a node with the meaning of its edges.
\<close>

section \<open>Identifiers\<close>

lemma id_not_not [simp]: "id_not (id_not i) = i"
  by (simp add: id_not_def)

lemma id_not_div [simp]: "id_not i div 2 = i div 2"
  by (simp add: id_not_def) presburger

lemma id_not_less [simp]: "even n \<Longrightarrow> id_not i < n \<longleftrightarrow> i < n"
  unfolding id_not_def by presburger

lemma even_id_not [simp]: "even (id_not i) \<longleftrightarrow> odd i"
  by (auto simp: id_not_def)

lemma id_not_inject [simp]: "id_not i = id_not j \<longleftrightarrow> i = j"
  by (metis id_not_not)

lemma node_index_not [simp]: "node_index (id_not i) = node_index i"
  by (simp add: node_index_def)

lemma id_negate_div [simp]: "id_negate i p div 2 = i div 2"
  by (simp add: id_negate_def)

lemma id_negate_less [simp]: "even n \<Longrightarrow> id_negate i p < n \<longleftrightarrow> i < n"
  by (simp add: id_negate_def)

lemma node_index_new [simp]: "node_index (node_id_new k c) = k"
  by (simp add: node_index_def node_id_new_def)

section \<open>Meaning of a node\<close>

text \<open>
  A valuation gives every key and every boolean variable a value. A node sends it along the edge
  whose range contains the value of its variable.
\<close>

record valuation =
  val_version :: "canonical_version \<Rightarrow> version"
  val_string :: "canonical_string \<Rightarrow> string"
  val_bool :: "variable \<Rightarrow> bool"

definition edge_target :: "('r \<Rightarrow> bool) \<Rightarrow> ('r \<times> node_id) list \<Rightarrow> node_id option" where
  "edge_target P es = map_option snd (find (\<lambda>(r, _). P r) es)"

fun target :: "('r, version, 'm) ranges_scheme \<Rightarrow> ('s, string, 'n) ranges_scheme \<Rightarrow> valuation \<Rightarrow> variable
    \<Rightarrow> ('r, 's) edges \<Rightarrow> node_id option" where
  "target R S val (VVersion k) (Versions es) = edge_target (\<lambda>r. r_contains R r (val_version val k)) es"
| "target R S val (VString k) (Strings es) = edge_target (\<lambda>r. r_contains S r (val_string val k)) es"
| "target R S val (VVersion _) _ = None"
| "target R S val (VString _) _ = None"
| "target R S val var (Boolean high low) = Some (if val_bool val var then high else low)"
| "target R S val var _ = None"

function sem :: "('r, version, 'm) ranges_scheme \<Rightarrow> ('s, string, 'n) ranges_scheme \<Rightarrow> ('r, 's) node list \<Rightarrow> valuation
    \<Rightarrow> node_id \<Rightarrow> bool" where
  "sem R S ns val i =
    (if i < 2 then i = id_true
     else if length ns \<le> node_index i then False
     else case target R S val (n_var (ns ! node_index i)) (n_children (ns ! node_index i)) of
       None \<Rightarrow> False
     | Some c \<Rightarrow> if c < 2 * (i div 2) then sem R S ns val c \<noteq> odd i else False)"
  by pat_completeness auto
termination
  by (relation "measure (\<lambda>(R, S, ns, val, i). i)") auto

declare sem.simps [simp del]

definition valid :: "('r, 's) node list \<Rightarrow> node_id \<Rightarrow> bool" where
  "valid ns i \<longleftrightarrow> i < 2 * (length ns + 1)"

definition beyond :: "('r, 's) node list \<Rightarrow> variable \<Rightarrow> node_id \<Rightarrow> bool" where
  "beyond ns v i \<longleftrightarrow> i < 2 \<or> variable_key v < variable_key (n_var (ns ! node_index i))"

lemma valid_simps [simp]: "valid ns 0" "valid ns (Suc 0)" "valid ns (id_not i) \<longleftrightarrow> valid ns i" "valid ns (id_negate i p) \<longleftrightarrow> valid ns i"
  by (simp_all add: valid_def)

lemma beyond_simps [simp]: "beyond ns v 0" "beyond ns v (Suc 0)" "beyond ns v (id_not i) \<longleftrightarrow> beyond ns v i"
    "beyond ns v (id_negate i p) \<longleftrightarrow> beyond ns v i"
  by (simp_all add: beyond_def id_negate_def)

lemma sem_const [simp]: "sem R S ns val 0" "\<not> sem R S ns val (Suc 0)"
  by (simp_all add: sem.simps)

lemma sem_prefix:
  assumes "prefix ns ns'" "valid ns i"
  shows "sem R S ns' val i = sem R S ns val i"
  using assms(2)
proof (induction i rule: less_induct)
  case (less i)
  obtain zs where zs: "ns' = ns @ zs" using assms(1) by (rule prefixE)
  show ?case
  proof (cases "i < 2")
    case False
    then have k: "node_index i < length ns" using less.prems by (simp add: valid_def node_index_def)
    have "sem R S ns' val c = sem R S ns val c" if "c < 2 * (i div 2)" for c
      using that less.prems by (intro less.IH) (simp_all add: valid_def)
    then show ?thesis using k False
      by (subst (1 2) sem.simps) (simp add: zs nth_append split: option.split)
  qed (simp add: sem.simps)
qed

lemma valid_prefix: "prefix ns ns' \<Longrightarrow> valid ns i \<Longrightarrow> valid ns' i"
  by (auto simp: valid_def dest: prefix_length_le)

lemma beyond_prefix:
  assumes "prefix ns ns'" "valid ns i" shows "beyond ns' v i \<longleftrightarrow> beyond ns v i"
proof (cases "i < 2")
  case False
  then have "node_index i < length ns" using assms(2) by (auto simp: valid_def node_index_def)
  then show ?thesis using assms(1) by (auto simp: beyond_def prefix_def nth_append)
qed (simp add: beyond_def)

lemma beyond_trans: "beyond ns w i \<Longrightarrow> variable_key v \<le> variable_key w \<Longrightarrow> beyond ns v i"
  by (auto simp: beyond_def)

section \<open>Well-formed diagrams\<close>

text \<open>
  The edges of a node match its variable and partition the values of the variable. Its children
  come earlier in the interner and test later variables; the first one is not complemented, and
  they are not all the same.
\<close>

definition partitions :: "('v \<Rightarrow> bool) \<Rightarrow> ('r \<Rightarrow> 'v \<Rightarrow> bool) \<Rightarrow> 'r list \<Rightarrow> bool" where
  "partitions ok has rs \<longleftrightarrow>
     (\<forall>v. ok v \<longrightarrow> (\<exists>r\<in>set rs. has r v)) \<and> sorted_wrt (\<lambda>a b. \<forall>v. ok v \<longrightarrow> \<not> (has a v \<and> has b v)) rs"

fun edges_wf :: "('r, version, 'm) ranges_scheme \<Rightarrow> ('s, string, 'n) ranges_scheme \<Rightarrow> variable \<Rightarrow> ('r, 's) edges \<Rightarrow> bool" where
  "edges_wf R S (VVersion _) (Versions es) \<longleftrightarrow> partitions wf_version (r_contains R) (map fst es)"
| "edges_wf R S (VString _) (Strings es) \<longleftrightarrow> partitions (\<lambda>_. True) (r_contains S) (map fst es)"
| "edges_wf R S (VVersion _) _ \<longleftrightarrow> False"
| "edges_wf R S (VString _) _ \<longleftrightarrow> False"
| "edges_wf R S _ (Boolean _ _) \<longleftrightarrow> True"
| "edges_wf R S _ _ \<longleftrightarrow> False"

definition node_wf :: "('r, version, 'm) ranges_scheme \<Rightarrow> ('s, string, 'n) ranges_scheme \<Rightarrow> ('r, 's) node list \<Rightarrow> nat \<Rightarrow> bool" where
  "node_wf R S ns k \<longleftrightarrow>
    (let var = n_var (ns ! k); children = n_children (ns ! k); cs = edge_nodes children
     in edges_wf R S var children \<and> list_all (\<lambda>c. c < 2 * (k + 1) \<and> beyond ns var c) cs
        \<and> even (hd cs) \<and> list_ex (\<lambda>c. c \<noteq> hd cs) cs)"

definition nodes_wf :: "('r, version, 'm) ranges_scheme \<Rightarrow> ('s, string, 'n) ranges_scheme \<Rightarrow> ('r, 's) node list \<Rightarrow> bool" where
  "nodes_wf R S ns \<longleftrightarrow> list_all (node_wf R S ns) [0..<length ns]"

definition unique_wf :: "('r, 's) interner \<Rightarrow> bool" where
  "unique_wf st \<longleftrightarrow> distinct (i_nodes st)
     \<and> (\<forall>n i. i_unique st n = Some i \<longleftrightarrow> (\<exists>k < length (i_nodes st). i_nodes st ! k = n \<and> i = node_id_new k False))"

definition store_wf :: "('r, version, 'm) ranges_scheme \<Rightarrow> ('s, string, 'n) ranges_scheme \<Rightarrow> ('r, 's) interner \<Rightarrow> bool" where
  "store_wf R S st \<longleftrightarrow> nodes_wf R S (i_nodes st) \<and> unique_wf st"

definition val_ok :: "valuation \<Rightarrow> bool" where
  "val_ok val \<longleftrightarrow> (\<forall>k. wf_version (val_version val k))"

lemma nodes_wf_nth: "nodes_wf R S ns \<Longrightarrow> k < length ns \<Longrightarrow> node_wf R S ns k"
  by (simp add: nodes_wf_def list_all_iff)

lemma partitions_target:
  assumes "partitions ok has (map fst es)" "ok v"
  obtains r c where "edge_target (\<lambda>r. has r v) es = Some c" "(r, c) \<in> set es" "has r v"
proof -
  obtain r0 c0 where "(r0, c0) \<in> set es" "has r0 v" using assms by (auto simp: partitions_def)
  then have "find (\<lambda>(r, _). has r v) es \<noteq> None" by (auto simp: find_None_iff)
  then obtain r c where rc: "find (\<lambda>(r, _). has r v) es = Some (r, c)" by auto
  then have "(r, c) \<in> set es \<and> has r v" by (auto simp: find_Some_iff in_set_conv_nth)
  then show thesis using that rc by (auto simp: edge_target_def)
qed

lemma sorted_wrt_pair:
  assumes "sorted_wrt P xs" "x \<in> set xs" "y \<in> set xs" shows "x = y \<or> P x y \<or> P y x"
  using assms by (induction xs) auto

text \<open>With a partition, the target is the child of the edge that contains the value.\<close>

lemma partitions_unique:
  assumes "partitions ok has (map fst es)" "ok v" "(r, c) \<in> set es" "has r v"
  shows "edge_target (\<lambda>r. has r v) es = Some c"
proof -
  have s: "sorted_wrt (\<lambda>a b. \<not> (has (fst a) v \<and> has (fst b) v)) es"
    using assms(1,2) by (auto simp: partitions_def sorted_wrt_map elim!: sorted_wrt_mono_rel [rotated])
  obtain r' c' where t: "edge_target (\<lambda>r. has r v) es = Some c'" "(r', c') \<in> set es" "has r' v"
    using partitions_target [OF assms(1,2)] by blast
  have "(r, c) = (r', c')" using sorted_wrt_pair [OF s assms(3) t(2)] assms(4) t(3) by auto
  then show ?thesis using t(1) by simp
qed

lemma target_in:
  assumes "edges_wf R S var children" "val_ok val"
  obtains c where "target R S val var children = Some c" "c \<in> set (edge_nodes children)"
proof (cases "(R, S, var, children)" rule: edges_wf.cases)
  case (1 R S k es)
  then have "partitions wf_version (r_contains R) (map fst es)" "wf_version (val_version val k)"
    using assms by (auto simp: val_ok_def)
  then obtain r c where "edge_target (\<lambda>r. r_contains R r (val_version val k)) es = Some c" "(r, c) \<in> set es"
    by (rule partitions_target)
  then show ?thesis using that 1 by force
next
  case (2 R S k es)
  then have "partitions (\<lambda>_. True) (r_contains S) (map fst es)" using assms(1) by auto
  then obtain r c where "edge_target (\<lambda>r. r_contains S r (val_string val k)) es = Some c" "(r, c) \<in> set es"
    by (rule partitions_target) simp
  then show ?thesis using that 2 by force
qed (use assms that in auto)

lemma edge_target_not: "edge_target P (map (map_prod id id_not) es) = map_option id_not (edge_target P es)"
  unfolding edge_target_def by (induction es) (auto split: prod.splits)

lemma target_not: "target R S val var (edges_not children) = map_option id_not (target R S val var children)"
  by (cases "(R, S, val, var, children)" rule: target.cases) (simp_all add: edge_target_not)

lemma edges_wf_not [simp]: "edges_wf R S var (edges_not children) \<longleftrightarrow> edges_wf R S var children"
  by (cases "(R, S, var, children)" rule: edges_wf.cases) (simp_all add: comp_def map_prod_def split_def)

lemma edge_nodes_not [simp]: "edge_nodes (edges_not children) = map id_not (edge_nodes children)"
  by (cases children) auto

lemma edges_wf_nonempty:
  assumes "edges_wf R S var children" shows "edge_nodes children \<noteq> []"
proof
  assume e: "edge_nodes children = []"
  show False
  proof (cases children)
    case (Versions es)
    moreover have "\<exists>v. wf_version v" by (rule exI, rule wf_small_new)
    ultimately show False using assms e by (cases var) (auto simp: partitions_def)
  next
    case (Strings es)
    then show False using assms e by (cases var) (auto simp: partitions_def)
  qed (use e in simp)
qed

section \<open>Creating a node\<close>

lemma sem_node:
  assumes "nodes_wf R S ns" "k < length ns" "val_ok val" "i div 2 = k + 1"
  shows "\<exists>c. target R S val (n_var (ns ! k)) (n_children (ns ! k)) = Some c \<and> c \<in> set (edge_nodes (n_children (ns ! k)))
     \<and> (sem R S ns val i \<longleftrightarrow> (sem R S ns val c \<noteq> odd i))"
proof -
  have w: "node_wf R S ns k" using assms by (simp add: nodes_wf_nth)
  then have "edges_wf R S (n_var (ns ! k)) (n_children (ns ! k))" by (simp add: node_wf_def Let_def)
  then obtain c where c: "target R S val (n_var (ns ! k)) (n_children (ns ! k)) = Some c" "c \<in> set (edge_nodes (n_children (ns ! k)))"
    using target_in assms(3) by blast
  then have "c < 2 * (k + 1)" using w by (auto simp: node_wf_def Let_def list_all_iff)
  moreover have "node_index i = k" "\<not> i < 2" using assms(4) by (auto simp: node_index_def)
  ultimately show ?thesis using c assms(2,4) by (subst sem.simps) auto
qed

lemma sem_not:
  assumes "nodes_wf R S ns" "valid ns i" "val_ok val"
  shows "sem R S ns val (id_not i) \<longleftrightarrow> \<not> sem R S ns val i"
proof (cases "i < 2")
  case True
  then have "i = 0 \<or> i = 1" by auto
  then show ?thesis by (auto simp: id_not_def)
next
  case False
  define k where "k = i div 2 - 1"
  have k: "k < length ns" "i div 2 = k + 1" "id_not i div 2 = k + 1" using False assms(2) by (auto simp: k_def valid_def)
  then show ?thesis using sem_node [OF assms(1) k(1) assms(3) k(2)] sem_node [OF assms(1) k(1) assms(3) k(3)] by auto
qed

lemma sem_negate:
  assumes "nodes_wf R S ns" "valid ns i" "val_ok val"
  shows "sem R S ns val (id_negate i p) \<longleftrightarrow> (sem R S ns val i \<noteq> odd p)"
  using sem_not [OF assms] by (simp add: id_negate_def is_complement_def)

text \<open>Appending a well-formed node keeps the earlier ones well-formed.\<close>

lemma nodes_wf_append:
  assumes "nodes_wf R S ns" "node_wf R S (ns @ [n]) (length ns)"
  shows "nodes_wf R S (ns @ [n])"
proof -
  have "node_wf R S (ns @ [n]) k" if k: "k < length ns" for k
  proof -
    have w: "node_wf R S ns k" using assms(1) k by (simp add: nodes_wf_nth)
    have "beyond (ns @ [n]) v c \<longleftrightarrow> beyond ns v c" if "c < 2 * (k + 1)" for v c
      using that k by (intro beyond_prefix) (auto simp: valid_def)
    then show ?thesis using w k by (auto simp: node_wf_def Let_def nth_append list_all_iff)
  qed
  then show ?thesis using assms(2) by (auto simp: nodes_wf_def list_all_iff less_Suc_eq)
qed

lemma insert_node_wf:
  assumes "store_wf R S st" "edges_wf R S (n_var n) (n_children n)"
    "list_all (\<lambda>c. valid (i_nodes st) c \<and> beyond (i_nodes st) (n_var n) c) (edge_nodes (n_children n))"
    "even (hd (edge_nodes (n_children n)))" "list_ex (\<lambda>c. c \<noteq> hd (edge_nodes (n_children n))) (edge_nodes (n_children n))"
    "insert_node n st = (i, st')"
  shows "store_wf R S st' \<and> prefix (i_nodes st) (i_nodes st') \<and> i_cache st' = i_cache st \<and> i_exclusions st' = i_exclusions st
    \<and> (\<exists>k < length (i_nodes st'). i = node_id_new k False \<and> i_nodes st' ! k = n)"
proof (cases "i_unique st n")
  case (Some j)
  then have "st' = st" "i = j" using assms(6) by (simp_all add: insert_node_def)
  then show ?thesis using Some assms(1) by (auto simp: store_wf_def unique_wf_def)
next
  case None
  let ?ns = "i_nodes st"
  have st': "st' = st\<lparr>i_nodes := ?ns @ [n], i_unique := (i_unique st)(n \<mapsto> i)\<rparr>" "i = node_id_new (length ?ns) False"
    using None assms(6) by (auto simp: insert_node_def Let_def)
  have "beyond (?ns @ [n]) v c \<longleftrightarrow> beyond ?ns v c" if "valid ?ns c" for v c
    using that by (intro beyond_prefix) auto
  then have "node_wf R S (?ns @ [n]) (length ?ns)"
    using assms(2-5) by (auto simp: node_wf_def Let_def list_all_iff valid_def)
  then have nodes: "nodes_wf R S (?ns @ [n])" using assms(1) nodes_wf_append by (auto simp: store_wf_def)
  have u: "unique_wf st" using assms(1) by (simp add: store_wf_def)
  then have new: "n \<notin> set ?ns" using None unfolding unique_wf_def in_set_conv_nth by (metis option.distinct(1))
  have "((i_unique st)(n \<mapsto> i)) m = Some j \<longleftrightarrow> (\<exists>k < Suc (length ?ns). (?ns @ [n]) ! k = m \<and> j = node_id_new k False)" for m j
    using u new st'(2) by (auto simp: unique_wf_def less_Suc_eq nth_append)
  then have "unique_wf st'" using u new by (auto simp: unique_wf_def st'(1))
  then show ?thesis using nodes st' by (auto simp: store_wf_def)
qed

text \<open>What an operation that returns a node promises.\<close>

definition yields :: "('r, version, 'm) ranges_scheme \<Rightarrow> ('s, string, 'n) ranges_scheme \<Rightarrow> (valuation \<Rightarrow> bool)
    \<Rightarrow> ('st \<Rightarrow> ('r, 's) node list) \<Rightarrow> ('st \<Rightarrow> bool) \<Rightarrow> 'st \<Rightarrow> (variable \<Rightarrow> bool) \<Rightarrow> (valuation \<Rightarrow> bool)
    \<Rightarrow> (node_id \<times> 'st) option \<Rightarrow> bool" where
  "yields R S G N I st B Q m \<longleftrightarrow>
    (\<exists>i st'. m = Some (i, st') \<and> I st' \<and> prefix (N st) (N st') \<and> valid (N st') i \<and> (\<forall>v. B v \<longrightarrow> beyond (N st') v i)
       \<and> (\<forall>val. G val \<longrightarrow> sem R S (N st') val i = Q val))"

lemma yields_on:
  assumes "yields R S G N I st B Q m" "\<And>val. G' val \<Longrightarrow> G val"
  shows "yields R S G' N I st B Q m"
  using assms unfolding yields_def by blast

text \<open>The variables of the nodes are among \<open>W\<close>.\<close>

definition vars_in :: "variable set \<Rightarrow> ('r, 's) node list \<Rightarrow> bool" where
  "vars_in W ns \<longleftrightarrow> n_var ` set ns \<subseteq> W"

text \<open>The node of a variable and its children, and its meaning.\<close>

lemma create_node_wf:
  assumes "store_wf R S st" "edges_wf R S var children"
    "list_all (\<lambda>c. valid (i_nodes st) c \<and> beyond (i_nodes st) var c) (edge_nodes children)"
  obtains i st' where "create_node var children st = Some (i, st')" "store_wf R S st'" "prefix (i_nodes st) (i_nodes st')"
    "i_cache st' = i_cache st" "i_exclusions st' = i_exclusions st" "valid (i_nodes st') i"
    "\<And>v. variable_key v < variable_key var \<Longrightarrow> beyond (i_nodes st') v i"
    "\<And>val. val_ok val \<Longrightarrow> \<exists>c. target R S val var children = Some c \<and> c \<in> set (edge_nodes children)
       \<and> sem R S (i_nodes st') val i = sem R S (i_nodes st) val c"
    "\<And>W. vars_in W (i_nodes st) \<Longrightarrow> var \<in> W \<Longrightarrow> vars_in W (i_nodes st')"
proof -
  obtain first0 cs where cs: "edge_nodes children = first0 # cs" using edges_wf_nonempty [OF assms(2)] by (cases "edge_nodes children") auto
  define flipped where "flipped = is_complement first0"
  define n where "n = (if flipped then node_not (Node var children) else Node var children)"
  define first1 where "first1 = (if flipped then id_not first0 else first0)"
  define flip where "flip = (if flipped then id_not else id)"
  have nodes: "edge_nodes (n_children n) = map flip (edge_nodes children)" "n_var n = var" "first1 = flip first0"
    "edges_wf R S var (n_children n)" "flip (flip c) = c" for c
    using assms(2) by (auto simp: n_def node_not_def flip_def first1_def)
  have even: "even first1" by (auto simp: first1_def flipped_def is_complement_def)
  have nw: "nodes_wf R S (i_nodes st)" using assms(1) by (simp add: store_wf_def)
  have tgt: "\<exists>c. target R S val var children = Some c \<and> c \<in> set (edge_nodes children)" if "val_ok val" for val
    using target_in [OF assms(2) that] by blast
  have c: "create_node var children st =
     (if list_all (\<lambda>i. i = first1) (edge_nodes (n_children n)) then Some (flip first1, st)
      else case insert_node n st of (i, st') \<Rightarrow> Some (flip i, st'))"
    by (simp add: create_node_def cs Let_def flipped_def n_def first1_def flip_def)
  show thesis
  proof (cases "list_all (\<lambda>i. i = first1) (edge_nodes (n_children n))")
    case True
    have eq: "c = first0" if "c \<in> set (edge_nodes children)" for c
    proof -
      have "flip c \<in> set (edge_nodes (n_children n))" using that nodes(1) by simp
      then have "flip c = flip first0" using True nodes(3) by (simp add: list_all_iff)
      then have "flip (flip c) = flip (flip first0)" by simp
      then show ?thesis by (simp only: nodes(5))
    qed
    have "create_node var children st = Some (first0, st)" using c True nodes(3,5) by simp
    moreover have "valid (i_nodes st) first0" "beyond (i_nodes st) var first0" using assms(3) cs by simp_all
    moreover have "\<exists>c. target R S val var children = Some c \<and> c \<in> set (edge_nodes children)
       \<and> sem R S (i_nodes st) val first0 = sem R S (i_nodes st) val c" if "val_ok val" for val
      using tgt [OF that] eq by blast
    ultimately show thesis using assms(1) by (intro that) (auto elim: beyond_trans)
  next
    case False
    obtain j st' where j: "insert_node n st = (j, st')" by fastforce
    have hd: "hd (edge_nodes (n_children n)) = first1" using nodes(1,3) cs by simp
    have ex: "list_ex (\<lambda>c. c \<noteq> hd (edge_nodes (n_children n))) (edge_nodes (n_children n))"
      using False hd by (auto simp: list_ex_iff list_all_iff)
    have all: "list_all (\<lambda>c. valid (i_nodes st) c \<and> beyond (i_nodes st) (n_var n) c) (edge_nodes (n_children n))"
      using assms(3) nodes(1,2) by (auto simp: list_all_iff flip_def)
    have "even (hd (edge_nodes (n_children n)))" using hd even by simp
    from insert_node_wf [OF assms(1) _ all this ex j] nodes(2,4)
    have st': "store_wf R S st'" "prefix (i_nodes st) (i_nodes st')" "i_cache st' = i_cache st" "i_exclusions st' = i_exclusions st"
      and "\<exists>k < length (i_nodes st'). j = node_id_new k False \<and> i_nodes st' ! k = n" by simp_all
    then obtain k where k: "k < length (i_nodes st')" "j = node_id_new k False" "i_nodes st' ! k = n" by blast
    have jd: "j div 2 = k + 1" "even j" "valid (i_nodes st') j" using k by (simp_all add: node_id_new_def valid_def)
    have b: "beyond (i_nodes st') v (flip j)" if "variable_key v < variable_key var" for v
      using that k nodes(2) by (simp add: flip_def beyond_def node_id_new_def) (simp add: node_index_def)
    have t: "\<exists>c. target R S val var children = Some c \<and> c \<in> set (edge_nodes children)
       \<and> sem R S (i_nodes st') val (flip j) = sem R S (i_nodes st) val c" if val: "val_ok val" for val
    proof -
      obtain c where c: "target R S val var children = Some c" "c \<in> set (edge_nodes children)" using tgt [OF val] by blast
      have v: "valid (i_nodes st) c" using assms(3) c(2) by (simp add: list_all_iff)
      have nw': "nodes_wf R S (i_nodes st')" using st'(1) by (simp add: store_wf_def)
      have "target R S val (n_var n) (n_children n) = Some (flip c)"
        using c(1) by (simp add: n_def node_not_def flip_def target_not)
      then have "sem R S (i_nodes st') val j = sem R S (i_nodes st') val (flip c)"
        using sem_node [OF nw' k(1) val jd(1)] k(3) jd(2) by auto
      moreover have "sem R S (i_nodes st') val (flip x) \<longleftrightarrow> (sem R S (i_nodes st') val x \<noteq> flipped)" if "valid (i_nodes st') x" for x
        using sem_not [OF nw' that val] by (simp add: flip_def)
      ultimately have "sem R S (i_nodes st') val (flip j) = sem R S (i_nodes st') val c"
        using jd(3) valid_prefix [OF st'(2) v] by auto
      then show ?thesis using c sem_prefix [OF st'(2) v, of R S val] by blast
    qed
    have vars: "vars_in W (i_nodes st')" if "vars_in W (i_nodes st)" "var \<in> W" for W
      using that j nodes(2) by (auto simp: vars_in_def image_subset_iff insert_node_def Let_def split: option.splits)
    have cn: "create_node var children st = Some (flip j, st')" using c False j by simp
    have v: "valid (i_nodes st') (flip j)" using jd(3) by (simp add: flip_def)
    show thesis by (rule that) (fact cn st' v b t vars)+
  qed
qed

end
