(* ===== verification/Marker_Edges.thy ===== *)
theory Marker_Edges
  imports Marker_Semantics
begin

text \<open>
  Maps and products of edges: what the operations of \<open>Edges\<close> mean, for every implementation of
  ranges that obeys their laws, and the Shannon expansion of a conjunction.
\<close>

section \<open>Mapping and merging edges\<close>

text \<open>
  The ranges and the children of a list of edges under construction: the ranges are disjoint and
  have the values \<open>D\<close>, and the children mean \<open>Q\<close> where their ranges apply.
\<close>

definition edges_mean :: "('r, version, 'm) ranges_scheme \<Rightarrow> ('s, string, 'n) ranges_scheme \<Rightarrow> (valuation \<Rightarrow> bool)
    \<Rightarrow> ('v \<Rightarrow> bool) \<Rightarrow> ('t \<Rightarrow> 'v \<Rightarrow> bool) \<Rightarrow> (valuation \<Rightarrow> 'v) \<Rightarrow> variable \<Rightarrow> (valuation \<Rightarrow> bool) \<Rightarrow> ('r, 's) node list
    \<Rightarrow> ('t \<times> node_id) list \<Rightarrow> ('v \<Rightarrow> bool) \<Rightarrow> bool" where
  "edges_mean R S G ok has at var Q ns cs D \<longleftrightarrow>
    sorted_wrt (\<lambda>a b. \<forall>v. ok v \<longrightarrow> \<not> (has a v \<and> has b v)) (map fst cs)
    \<and> (\<forall>v. ok v \<longrightarrow> ((\<exists>r\<in>set (map fst cs). has r v) \<longleftrightarrow> D v))
    \<and> (\<forall>r c. (r, c) \<in> set cs \<longrightarrow> valid ns c \<and> beyond ns var c
        \<and> (\<forall>val. G val \<longrightarrow> has r (at val) \<longrightarrow> sem R S ns val c = Q val))"

lemma edges_mean_prefix:
  assumes "edges_mean R S G ok has at var Q ns cs D" "prefix ns ns'"
  shows "edges_mean R S G ok has at var Q ns' cs D"
  using assms(1) valid_prefix [OF assms(2)] beyond_prefix [OF assms(2)] sem_prefix [OF assms(2)]
  unfolding edges_mean_def by meson

lemma edges_mean_cong:
  assumes "edges_mean R S G ok has at var Q ns cs D" "\<And>v. ok v \<Longrightarrow> D v \<longleftrightarrow> D' v"
  shows "edges_mean R S G ok has at var Q ns cs D'"
  using assms unfolding edges_mean_def by auto

context range_laws
begin

abbreviation "mean V S G at \<equiv> edges_mean V S G ok (r_contains R) at"

lemma push_combined_mean:
  assumes m: "mean V S G at var Q ns cs D" and new: "\<And>v. ok v \<Longrightarrow> D v \<Longrightarrow> \<not> r_contains R meet v"
    and n: "valid ns n" "beyond ns var n" "\<And>val. G val \<Longrightarrow> r_contains R meet (at val) \<Longrightarrow> sem V S ns val n = Q val"
    and at: "\<And>val. G val \<Longrightarrow> ok (at val)"
  shows "mean V S G at var Q ns (push_combined c R cs meet n) (\<lambda>v. D v \<or> r_contains R meet v)"
proof (cases "cs \<noteq> [] \<and> snd (last cs) = n \<and> can_conjoin c R (fst (last cs)) meet")
  case True
  then obtain ds r where cs: "cs = ds @ [(r, n)]" by (metis append_butlast_last_id prod.collapse)
  let ?cs = "ds @ [(r_union R r meet, n)]"
  have p: "push_combined c R cs meet n = ?cs" using True cs by (simp add: push_combined_def)
  have "D v" if "ok v" "(a, b) \<in> set cs" "r_contains R a v" for a b v
    using m that by (force simp: edges_mean_def)
  then have d: "\<not> r_contains R meet v" if "ok v" "(a, b) \<in> set ds" "r_contains R a v" for a b v
    using new that cs by auto
  have "sorted_wrt (\<lambda>a b. \<forall>v. ok v \<longrightarrow> \<not> (r_contains R a v \<and> r_contains R b v)) (map fst ?cs)"
    using m d by (auto simp: edges_mean_def cs sorted_wrt_append union_law)
  moreover have "\<forall>v. ok v \<longrightarrow> ((\<exists>r\<in>set (map fst ?cs). r_contains R r v) \<longleftrightarrow> D v \<or> r_contains R meet v)"
    using m by (auto simp: edges_mean_def cs union_law)
  moreover have "\<forall>a b. (a, b) \<in> set ?cs \<longrightarrow> valid ns b \<and> beyond ns var b
      \<and> (\<forall>val. G val \<longrightarrow> r_contains R a (at val) \<longrightarrow> sem V S ns val b = Q val)"
    using m n at by (auto simp: edges_mean_def cs union_law)
  ultimately show ?thesis unfolding p edges_mean_def by blast
next
  case False
  let ?cs = "cs @ [(meet, n)]"
  have p: "push_combined c R cs meet n = ?cs" unfolding push_combined_def using False by (rule if_not_P)
  have "D v" if "ok v" "(a, b) \<in> set cs" "r_contains R a v" for a b v
    using m that by (force simp: edges_mean_def)
  then have d: "\<not> r_contains R meet v" if "ok v" "(a, b) \<in> set cs" "r_contains R a v" for a b v
    using new that by blast
  have "sorted_wrt (\<lambda>a b. \<forall>v. ok v \<longrightarrow> \<not> (r_contains R a v \<and> r_contains R b v)) (map fst ?cs)"
    using m d by (auto simp: edges_mean_def sorted_wrt_append)
  moreover have "\<forall>v. ok v \<longrightarrow> ((\<exists>r\<in>set (map fst ?cs). r_contains R r v) \<longleftrightarrow> D v \<or> r_contains R meet v)"
    using m by (auto simp: edges_mean_def)
  moreover have "\<forall>a b. (a, b) \<in> set ?cs \<longrightarrow> valid ns b \<and> beyond ns var b
      \<and> (\<forall>val. G val \<longrightarrow> r_contains R a (at val) \<longrightarrow> sem V S ns val b = Q val)"
    using m n by (auto simp: edges_mean_def)
  ultimately show ?thesis unfolding p edges_mean_def by blast
qed

text \<open>One edge on the left against the edges on the right.\<close>

lemma apply_row_mean:
  assumes "I st" "mean V S G at var Q (N st) cs D" and at: "\<And>val. G val \<Longrightarrow> ok (at val)"
    and "\<And>rr rc v. (rr, rc) \<in> set es \<Longrightarrow> ok v \<Longrightarrow> D v \<Longrightarrow> \<not> (r_contains R lr v \<and> r_contains R rr v)"
    and "sorted_wrt (\<lambda>a b. \<forall>v. ok v \<longrightarrow> \<not> (r_contains R a v \<and> r_contains R b v)) (map fst es)"
    and f: "\<And>rr rc st1. (rr, rc) \<in> set es \<Longrightarrow> I st1 \<Longrightarrow> prefix (N st) (N st1) \<Longrightarrow>
      yields V S (\<lambda>val. G val \<and> r_contains R lr (at val) \<and> r_contains R rr (at val)) N I st1 (\<lambda>v. v = var)
        (F (id_negate rc rp)) (f left (id_negate rc rp) st1)"
    and Q: "\<And>rr rc val. (rr, rc) \<in> set es \<Longrightarrow> G val \<Longrightarrow> r_contains R lr (at val) \<Longrightarrow> r_contains R rr (at val) \<Longrightarrow>
      F (id_negate rc rp) val = Q val"
  shows "\<exists>cs' st'. apply_row c R f lr left es rp cs st = Some (cs', st') \<and> I st' \<and> prefix (N st) (N st')
    \<and> mean V S G at var Q (N st') cs' (\<lambda>v. D v \<or> r_contains R lr v \<and> (\<exists>rr\<in>set (map fst es). r_contains R rr v))"
  using assms(1,2,4-)
proof (induction es arbitrary: st cs D)
  case Nil
  then show ?case by (auto elim: edges_mean_cong)
next
  case (Cons e es)
  obtain rr rc where e: "e = (rr, rc)" by (cases e)
  define meet where "meet = r_intersection R rr lr"
  have meet: "r_contains R meet v \<longleftrightarrow> r_contains R lr v \<and> r_contains R rr v" if "ok v" for v
    using that by (auto simp: meet_def intersection_law)
  show ?case
  proof (cases "r_is_empty R meet")
    case True
    then have no: "\<not> (r_contains R lr v \<and> r_contains R rr v)" if "ok v" for v
      using that is_empty_law meet by blast
    obtain cs' st' where r: "apply_row c R f lr left es rp cs st = Some (cs', st')" "I st'" "prefix (N st) (N st')"
      "mean V S G at var Q (N st') cs' (\<lambda>v. D v \<or> r_contains R lr v \<and> (\<exists>rr\<in>set (map fst es). r_contains R rr v))"
    proof -
      have "\<exists>cs' st'. apply_row c R f lr left es rp cs st = Some (cs', st') \<and> I st' \<and> prefix (N st) (N st')
        \<and> mean V S G at var Q (N st') cs' (\<lambda>v. D v \<or> r_contains R lr v \<and> (\<exists>rr\<in>set (map fst es). r_contains R rr v))"
      proof (rule Cons.IH [OF Cons.prems(1,2)])
        show "sorted_wrt (\<lambda>a b. \<forall>v. ok v \<longrightarrow> \<not> (r_contains R a v \<and> r_contains R b v)) (map fst es)" using Cons.prems(4) by simp
        show "\<not> (r_contains R lr v \<and> r_contains R r v)" if "(r, k) \<in> set es" "ok v" "D v" for r k v
          using Cons.prems(3) [of r k v] that by simp
        show "yields V S (\<lambda>val. G val \<and> r_contains R lr (at val) \<and> r_contains R r (at val)) N I st2 (\<lambda>v. v = var)
          (F (id_negate k rp)) (f left (id_negate k rp) st2)"
          if "(r, k) \<in> set es" "I st2" "prefix (N st) (N st2)" for r k st2
          using Cons.prems(5) [of r k st2] that by simp
        show "F (id_negate k rp) val = Q val" if "(r, k) \<in> set es" "G val" "r_contains R lr (at val)" "r_contains R r (at val)" for r k val
          using Cons.prems(6) [of r k val] that by simp
      qed
      then show thesis using that by blast
    qed
    have "mean V S G at var Q (N st') cs' (\<lambda>v. D v \<or> r_contains R lr v \<and> (\<exists>rr\<in>set (map fst (e # es)). r_contains R rr v))"
      by (rule edges_mean_cong [OF r(4)]) (use no in \<open>auto simp: e\<close>)
    then show ?thesis using r(1-3) True by (auto simp: e meet_def Let_def)
  next
    case False
    obtain n st1 where n: "f left (id_negate rc rp) st = Some (n, st1)" "I st1" "prefix (N st) (N st1)" "valid (N st1) n"
      "beyond (N st1) var n" "\<And>val. G val \<Longrightarrow> r_contains R lr (at val) \<Longrightarrow> r_contains R rr (at val) \<Longrightarrow>
        sem V S (N st1) val n = F (id_negate rc rp) val"
      using Cons.prems(5) [of rr rc st] Cons.prems(1) by (auto simp: e yields_def)
    let ?D = "\<lambda>v. D v \<or> r_contains R meet v"
    have m1: "mean V S G at var Q (N st1) (push_combined c R cs meet n) ?D"
    proof (rule push_combined_mean [OF edges_mean_prefix [OF Cons.prems(2) n(3)] _ n(4,5) _ at])
      show "\<not> r_contains R meet v" if "ok v" "D v" for v
        using Cons.prems(3) [of rr rc v] that meet by (auto simp: e)
      show "sem V S (N st1) val n = Q val" if "G val" "r_contains R meet (at val)" for val
        using n(6) [of val] Cons.prems(6) [of rr rc val] meet [OF at] that by (auto simp: e)
    qed
    have disj: "\<not> (r_contains R lr v \<and> r_contains R r v)" if "(r, k) \<in> set es" "ok v" "?D v" for r k v
      using that Cons.prems(3) [of r k v] Cons.prems(4) meet [of v] by (force simp: e)
    have "\<exists>cs' st'. apply_row c R f lr left es rp (push_combined c R cs meet n) st1 = Some (cs', st') \<and> I st' \<and> prefix (N st1) (N st')
      \<and> mean V S G at var Q (N st') cs' (\<lambda>v. ?D v \<or> r_contains R lr v \<and> (\<exists>rr\<in>set (map fst es). r_contains R rr v))"
    proof (rule Cons.IH [OF n(2) m1])
      show "sorted_wrt (\<lambda>a b. \<forall>v. ok v \<longrightarrow> \<not> (r_contains R a v \<and> r_contains R b v)) (map fst es)" using Cons.prems(4) by simp
      show "yields V S (\<lambda>val. G val \<and> r_contains R lr (at val) \<and> r_contains R r (at val)) N I st2 (\<lambda>v. v = var)
          (F (id_negate k rp)) (f left (id_negate k rp) st2)"
        if "(r, k) \<in> set es" "I st2" "prefix (N st1) (N st2)" for r k st2
        using Cons.prems(5) [of r k st2] that n(3) by (auto intro: prefix_order.trans)
      show "F (id_negate k rp) val = Q val" if "(r, k) \<in> set es" "G val" "r_contains R lr (at val)" "r_contains R r (at val)" for r k val
        using Cons.prems(6) [of r k val] that by simp
    qed (fact disj)
    then obtain cs' st' where r: "apply_row c R f lr left es rp (push_combined c R cs meet n) st1 = Some (cs', st')" "I st'"
      "prefix (N st1) (N st')"
      "mean V S G at var Q (N st') cs' (\<lambda>v. ?D v \<or> r_contains R lr v \<and> (\<exists>rr\<in>set (map fst es). r_contains R rr v))" by blast
    have "mean V S G at var Q (N st') cs' (\<lambda>v. D v \<or> r_contains R lr v \<and> (\<exists>rr\<in>set (map fst (e # es)). r_contains R rr v))"
      by (rule edges_mean_cong [OF r(4)]) (use meet in \<open>auto simp: e\<close>)
    moreover have "apply_row c R f lr left (e # es) rp cs st = Some (cs', st')"
      using False n(1) r(1) by (simp add: e meet_def)
    ultimately show ?thesis using r(2,3) n(3) by (blast intro: prefix_order.trans)
  qed
qed

end

context range_laws
begin

lemma apply_rows_mean:
  assumes "I st" "mean V S G at var Q (N st) cs D" and at: "\<And>val. G val \<Longrightarrow> ok (at val)"
    and "\<And>lr lc v. (lr, lc) \<in> set es \<Longrightarrow> ok v \<Longrightarrow> D v \<Longrightarrow> \<not> r_contains R lr v"
    and "sorted_wrt (\<lambda>a b. \<forall>v. ok v \<longrightarrow> \<not> (r_contains R a v \<and> r_contains R b v)) (map fst es)"
    and right: "sorted_wrt (\<lambda>a b. \<forall>v. ok v \<longrightarrow> \<not> (r_contains R a v \<and> r_contains R b v)) (map fst es')"
    and f: "\<And>lr lc rr rc st1. (lr, lc) \<in> set es \<Longrightarrow> (rr, rc) \<in> set es' \<Longrightarrow> I st1 \<Longrightarrow> prefix (N st) (N st1) \<Longrightarrow>
      yields V S (\<lambda>val. G val \<and> r_contains R lr (at val) \<and> r_contains R rr (at val)) N I st1 (\<lambda>v. v = var)
        (F (id_negate lc lp) (id_negate rc rp)) (f (id_negate lc lp) (id_negate rc rp) st1)"
    and Q: "\<And>lr lc rr rc val. (lr, lc) \<in> set es \<Longrightarrow> (rr, rc) \<in> set es' \<Longrightarrow> G val \<Longrightarrow> r_contains R lr (at val) \<Longrightarrow>
      r_contains R rr (at val) \<Longrightarrow> F (id_negate lc lp) (id_negate rc rp) val = Q val"
  shows "\<exists>cs' st'. apply_rows c R f es lp es' rp cs st = Some (cs', st') \<and> I st' \<and> prefix (N st) (N st')
    \<and> mean V S G at var Q (N st') cs'
        (\<lambda>v. D v \<or> (\<exists>lr\<in>set (map fst es). r_contains R lr v) \<and> (\<exists>rr\<in>set (map fst es'). r_contains R rr v))"
  using assms(1,2,4,5,7,8)
proof (induction es arbitrary: st cs D)
  case Nil
  then show ?case by (auto elim: edges_mean_cong)
next
  case (Cons e es)
  obtain lr lc where e: "e = (lr, lc)" by (cases e)
  let ?D = "\<lambda>v. D v \<or> r_contains R lr v \<and> (\<exists>rr\<in>set (map fst es'). r_contains R rr v)"
  have "\<exists>cs1 st1. apply_row c R f lr (id_negate lc lp) es' rp cs st = Some (cs1, st1) \<and> I st1 \<and> prefix (N st) (N st1)
    \<and> mean V S G at var Q (N st1) cs1 ?D"
  proof (rule apply_row_mean [where I = I and N = N and F = "F (id_negate lc lp)", OF Cons.prems(1,2) at _ right])
    show "\<not> (r_contains R lr v \<and> r_contains R r v)" if "(r, k) \<in> set es'" "ok v" "D v" for r k v
      using Cons.prems(3) [of lr lc v] that by (simp add: e)
    show "yields V S (\<lambda>val. G val \<and> r_contains R lr (at val) \<and> r_contains R r (at val)) N I st2 (\<lambda>v. v = var)
        (F (id_negate lc lp) (id_negate k rp)) (f (id_negate lc lp) (id_negate k rp) st2)"
      if "(r, k) \<in> set es'" "I st2" "prefix (N st) (N st2)" for r k st2
      using Cons.prems(5) [of lr lc r k st2] that by (simp add: e)
    show "F (id_negate lc lp) (id_negate k rp) val = Q val"
      if "(r, k) \<in> set es'" "G val" "r_contains R lr (at val)" "r_contains R r (at val)" for r k val
      using Cons.prems(6) [of lr lc r k val] that by (simp add: e)
  qed
  then obtain cs1 st1 where r1: "apply_row c R f lr (id_negate lc lp) es' rp cs st = Some (cs1, st1)" "I st1" "prefix (N st) (N st1)"
    "mean V S G at var Q (N st1) cs1 ?D" by blast
  have "\<exists>cs' st'. apply_rows c R f es lp es' rp cs1 st1 = Some (cs', st') \<and> I st' \<and> prefix (N st1) (N st')
    \<and> mean V S G at var Q (N st') cs'
        (\<lambda>v. ?D v \<or> (\<exists>lr\<in>set (map fst es). r_contains R lr v) \<and> (\<exists>rr\<in>set (map fst es'). r_contains R rr v))"
  proof (rule Cons.IH [OF r1(2,4)])
    show "\<not> r_contains R l v" if "(l, k) \<in> set es" "ok v" "?D v" for l k v
      using that Cons.prems(3) [of l k v] Cons.prems(4) by (force simp: e)
    show "sorted_wrt (\<lambda>a b. \<forall>v. ok v \<longrightarrow> \<not> (r_contains R a v \<and> r_contains R b v)) (map fst es)" using Cons.prems(4) by simp
    show "yields V S (\<lambda>val. G val \<and> r_contains R l (at val) \<and> r_contains R r (at val)) N I st2 (\<lambda>v. v = var)
        (F (id_negate k lp) (id_negate k' rp)) (f (id_negate k lp) (id_negate k' rp) st2)"
      if "(l, k) \<in> set es" "(r, k') \<in> set es'" "I st2" "prefix (N st1) (N st2)" for l k r k' st2
      using Cons.prems(5) [of l k r k' st2] that r1(3) by (auto intro: prefix_order.trans)
    show "F (id_negate k lp) (id_negate k' rp) val = Q val"
      if "(l, k) \<in> set es" "(r, k') \<in> set es'" "G val" "r_contains R l (at val)" "r_contains R r (at val)" for l k r k' val
      using Cons.prems(6) [of l k r k' val] that by simp
  qed
  then obtain cs' st' where r: "apply_rows c R f es lp es' rp cs1 st1 = Some (cs', st')" "I st'" "prefix (N st1) (N st')"
    "mean V S G at var Q (N st') cs'
        (\<lambda>v. ?D v \<or> (\<exists>lr\<in>set (map fst es). r_contains R lr v) \<and> (\<exists>rr\<in>set (map fst es'). r_contains R rr v))" by blast
  have "mean V S G at var Q (N st') cs'
     (\<lambda>v. D v \<or> (\<exists>lr\<in>set (map fst (e # es)). r_contains R lr v) \<and> (\<exists>rr\<in>set (map fst es'). r_contains R rr v))"
    by (rule edges_mean_cong [OF r(4)]) (auto simp: e)
  moreover have "apply_rows c R f (e # es) lp es' rp cs st = Some (cs', st')" using r1(1) r(1) by (simp add: e)
  ultimately show ?case using r(2,3) r1(3) by (blast intro: prefix_order.trans)
qed

text \<open>Merging two partitions gives a partition whose children mean the operation on the children.\<close>

lemma apply_ranges_mean:
  assumes "I st" and at: "\<And>val. G val \<Longrightarrow> ok (at val)"
    and p: "partitions ok (r_contains R) (map fst es)" "partitions ok (r_contains R) (map fst es')"
    and f: "\<And>lr lc rr rc st1. (lr, lc) \<in> set es \<Longrightarrow> (rr, rc) \<in> set es' \<Longrightarrow> I st1 \<Longrightarrow> prefix (N st) (N st1) \<Longrightarrow>
      yields V S (\<lambda>val. G val \<and> edge_target (\<lambda>r. r_contains R r (at val)) es = Some lc
          \<and> edge_target (\<lambda>r. r_contains R r (at val)) es' = Some rc) N I st1 (\<lambda>v. v = var)
        (F (id_negate lc lp) (id_negate rc rp)) (f (id_negate lc lp) (id_negate rc rp) st1)"
  shows "\<exists>cs' st'. apply_ranges c R f es lp es' rp st = Some (cs', st') \<and> I st' \<and> prefix (N st) (N st')
    \<and> partitions ok (r_contains R) (map fst cs')
    \<and> list_all (\<lambda>k. valid (N st') k \<and> beyond (N st') var k) (map snd cs')
    \<and> (\<forall>val a b. G val \<longrightarrow> edge_target (\<lambda>r. r_contains R r (at val)) es = Some a \<longrightarrow>
        edge_target (\<lambda>r. r_contains R r (at val)) es' = Some b \<longrightarrow>
        (\<exists>k. edge_target (\<lambda>r. r_contains R r (at val)) cs' = Some k \<and>
             sem V S (N st') val k = F (id_negate a lp) (id_negate b rp) val))"
proof -
  let ?t = "\<lambda>es val. the (edge_target (\<lambda>r. r_contains R r (at val)) es)"
  let ?Q = "\<lambda>val. F (id_negate (?t es val) lp) (id_negate (?t es' val) rp) val"
  have "\<exists>cs' st'. apply_rows c R f es lp es' rp [] st = Some (cs', st') \<and> I st' \<and> prefix (N st) (N st')
    \<and> mean V S G at var ?Q (N st') cs'
        (\<lambda>v. False \<or> (\<exists>lr\<in>set (map fst es). r_contains R lr v) \<and> (\<exists>rr\<in>set (map fst es'). r_contains R rr v))"
  proof (rule apply_rows_mean [where I = I and N = N and F = F, OF assms(1) _ at])
    show "mean V S G at var ?Q (N st) [] (\<lambda>_. False)" by (simp add: edges_mean_def)
    show "F (id_negate lc lp) (id_negate rc rp) val = ?Q val"
      if "(lr, lc) \<in> set es" "(rr, rc) \<in> set es'" "G val" "r_contains R lr (at val)" "r_contains R rr (at val)" for lr lc rr rc val
      using partitions_unique [OF p(1) at that(1,4)] partitions_unique [OF p(2) at that(2,5)] that(3) by simp
    show "yields V S (\<lambda>val. G val \<and> r_contains R lr (at val) \<and> r_contains R rr (at val)) N I st1 (\<lambda>v. v = var)
        (F (id_negate lc lp) (id_negate rc rp)) (f (id_negate lc lp) (id_negate rc rp) st1)"
      if "(lr, lc) \<in> set es" "(rr, rc) \<in> set es'" "I st1" "prefix (N st) (N st1)" for lr lc rr rc st1
      using f [OF that] by (rule yields_on) (use partitions_unique [OF p(1) at that(1)] partitions_unique [OF p(2) at that(2)] in auto)
  qed (use p in \<open>auto simp: partitions_def\<close>)
  then obtain cs' st' where r: "apply_ranges c R f es lp es' rp st = Some (cs', st')" "I st'" "prefix (N st) (N st')"
    and m: "mean V S G at var ?Q (N st') cs'
        (\<lambda>v. (\<exists>lr\<in>set (map fst es). r_contains R lr v) \<and> (\<exists>rr\<in>set (map fst es'). r_contains R rr v))"
    by (auto simp: apply_ranges_def)
  have part: "partitions ok (r_contains R) (map fst cs')"
    using m p unfolding partitions_def edges_mean_def by blast
  have "\<exists>k. edge_target (\<lambda>r. r_contains R r (at val)) cs' = Some k \<and> sem V S (N st') val k = F (id_negate a lp) (id_negate b rp) val"
    if g: "G val" "edge_target (\<lambda>r. r_contains R r (at val)) es = Some a" "edge_target (\<lambda>r. r_contains R r (at val)) es' = Some b" for val a b
  proof -
    obtain x k where "edge_target (\<lambda>r. r_contains R r (at val)) cs' = Some k" "(x, k) \<in> set cs'" "r_contains R x (at val)"
      using partitions_target [OF part at [OF g(1)]] by blast
    then show ?thesis using m g unfolding edges_mean_def by auto
  qed
  moreover have "list_all (\<lambda>k. valid (N st') k \<and> beyond (N st') var k) (map snd cs')"
    using m unfolding edges_mean_def list_all_iff by auto
  ultimately show ?thesis using r part by blast
qed

end

text \<open>Mapping the children keeps the ranges of the edges.\<close>

lemma map_edges_mean:
  assumes "I st"
    and "\<And>c st1. c \<in> set (map snd es) \<Longrightarrow> I st1 \<Longrightarrow> prefix (N st) (N st1) \<Longrightarrow>
      yields V S (\<lambda>val. G val \<and> edge_target (P val) es = Some c) N I st1 (\<lambda>v. v = var) (F (id_negate c p)) (f (id_negate c p) st1)"
  shows "\<exists>es' st'. map_edges f p es st = Some (es', st') \<and> I st' \<and> prefix (N st) (N st') \<and> map fst es' = map fst es
    \<and> list_all (\<lambda>k. valid (N st') k \<and> beyond (N st') var k) (map snd es')
    \<and> (\<forall>val c. G val \<longrightarrow> edge_target (P val) es = Some c \<longrightarrow>
        (\<exists>k. edge_target (P val) es' = Some k \<and> sem V S (N st') val k = F (id_negate c p) val))"
  using assms
proof (induction es arbitrary: st G)
  case (Cons e es)
  obtain r c where e: "e = (r, c)" by (cases e)
  let ?G = "\<lambda>val. G val \<and> \<not> P val r"
  obtain k st1 where k: "f (id_negate c p) st = Some (k, st1)" "I st1" "prefix (N st) (N st1)" "valid (N st1) k"
    "beyond (N st1) var k" "\<And>val. G val \<Longrightarrow> P val r \<Longrightarrow> sem V S (N st1) val k = F (id_negate c p) val"
    using Cons.prems(2) [of c st] Cons.prems(1) by (auto simp: e yields_def edge_target_def)
  have "\<exists>es' st'. map_edges f p es st1 = Some (es', st') \<and> I st' \<and> prefix (N st1) (N st') \<and> map fst es' = map fst es
    \<and> list_all (\<lambda>k. valid (N st') k \<and> beyond (N st') var k) (map snd es')
    \<and> (\<forall>val c. ?G val \<longrightarrow> edge_target (P val) es = Some c \<longrightarrow>
        (\<exists>k. edge_target (P val) es' = Some k \<and> sem V S (N st') val k = F (id_negate c p) val))"
  proof (rule Cons.IH [OF k(2)])
    fix d st2 assume d: "d \<in> set (map snd es)" "I st2" "prefix (N st1) (N st2)"
    have "yields V S (\<lambda>val. G val \<and> edge_target (P val) (e # es) = Some d) N I st2 (\<lambda>v. v = var) (F (id_negate d p)) (f (id_negate d p) st2)"
      using Cons.prems(2) [of d st2] d k(3) by (auto intro: prefix_order.trans)
    then show "yields V S (\<lambda>val. ?G val \<and> edge_target (P val) es = Some d) N I st2 (\<lambda>v. v = var) (F (id_negate d p)) (f (id_negate d p) st2)"
      by (rule yields_on) (auto simp: e edge_target_def)
  qed
  then obtain es' st' where r: "map_edges f p es st1 = Some (es', st')" "I st'" "prefix (N st1) (N st')" "map fst es' = map fst es"
    "list_all (\<lambda>k. valid (N st') k \<and> beyond (N st') var k) (map snd es')"
    and t: "\<And>val c. ?G val \<Longrightarrow> edge_target (P val) es = Some c \<Longrightarrow>
        \<exists>k. edge_target (P val) es' = Some k \<and> sem V S (N st') val k = F (id_negate c p) val" by blast
  have "\<exists>k'. edge_target (P val) ((r, k) # es') = Some k' \<and> sem V S (N st') val k' = F (id_negate d p) val"
    if "G val" "edge_target (P val) (e # es) = Some d" for val d
    using that t [of val d] k(6) [of val] sem_prefix [OF r(3) k(4), of V S val] by (cases "P val r") (auto simp: e edge_target_def)
  moreover have "valid (N st') k" "beyond (N st') var k" using k(4,5) r(3) valid_prefix beyond_prefix by blast+
  moreover have "map_edges f p (e # es) st = Some ((r, k) # es', st')" using k(1) r(1) by (simp add: e)
  moreover have "prefix (N st) (N st')" using k(3) r(3) by (rule prefix_order.trans)
  ultimately show ?case using r(2,4,5) by (auto simp: e)
qed (auto simp: edge_target_def)

lemma edges_map_mean:
  assumes "I st" "edges_wf V S var children"
    and "\<And>c st1. c \<in> set (edge_nodes children) \<Longrightarrow> I st1 \<Longrightarrow> prefix (N st) (N st1) \<Longrightarrow>
      yields V S (\<lambda>val. G val \<and> target V S val var children = Some c) N I st1 (\<lambda>v. v = var) (F (id_negate c p)) (f (id_negate c p) st1)"
  shows "\<exists>children' st'. edges_map f p children st = Some (children', st') \<and> I st' \<and> prefix (N st) (N st')
    \<and> edges_wf V S var children' \<and> list_all (\<lambda>k. valid (N st') k \<and> beyond (N st') var k) (edge_nodes children')
    \<and> (\<forall>val c. G val \<longrightarrow> target V S val var children = Some c \<longrightarrow>
        (\<exists>k. target V S val var children' = Some k \<and> sem V S (N st') val k = F (id_negate c p) val))"
proof (cases children)
  case (Versions es)
  then obtain key where key: "var = VVersion key" using assms(2) by (cases var) auto
  have "\<exists>es' st'. map_edges f p es st = Some (es', st') \<and> I st' \<and> prefix (N st) (N st') \<and> map fst es' = map fst es
    \<and> list_all (\<lambda>k. valid (N st') k \<and> beyond (N st') var k) (map snd es')
    \<and> (\<forall>val c. G val \<longrightarrow> edge_target (\<lambda>r. r_contains V r (val_version val key)) es = Some c \<longrightarrow>
        (\<exists>k. edge_target (\<lambda>r. r_contains V r (val_version val key)) es' = Some k \<and> sem V S (N st') val k = F (id_negate c p) val))"
    by (rule map_edges_mean [where I = I and N = N and P = "\<lambda>val r. r_contains V r (val_version val key)", OF assms(1)])
      (use assms(3) Versions key in simp)
  then show ?thesis using assms(2) by (auto simp: Versions key)
next
  case (Strings es)
  then obtain key where key: "var = VString key" using assms(2) by (cases var) auto
  have "\<exists>es' st'. map_edges f p es st = Some (es', st') \<and> I st' \<and> prefix (N st) (N st') \<and> map fst es' = map fst es
    \<and> list_all (\<lambda>k. valid (N st') k \<and> beyond (N st') var k) (map snd es')
    \<and> (\<forall>val c. G val \<longrightarrow> edge_target (\<lambda>r. r_contains S r (val_string val key)) es = Some c \<longrightarrow>
        (\<exists>k. edge_target (\<lambda>r. r_contains S r (val_string val key)) es' = Some k \<and> sem V S (N st') val k = F (id_negate c p) val))"
    by (rule map_edges_mean [where I = I and N = N and P = "\<lambda>val r. r_contains S r (val_string val key)", OF assms(1)])
      (use assms(3) Strings key in simp)
  then show ?thesis using assms(2) by (auto simp: Strings key)
next
  case (Boolean high low)
  have tgt: "target V S val var (Boolean h l) = Some (if val_bool val var then h else l)" for val h l
    using assms(2) by (cases var) (simp_all add: Boolean)
  obtain l st1 where l: "f (id_negate low p) st = Some (l, st1)" "I st1" "prefix (N st) (N st1)" "valid (N st1) l"
    "beyond (N st1) var l" "\<And>val. G val \<Longrightarrow> \<not> val_bool val var \<Longrightarrow> sem V S (N st1) val l = F (id_negate low p) val"
    using assms(3) [of low st] assms(1) by (auto simp: Boolean yields_def tgt)
  obtain h st2 where h: "f (id_negate high p) st1 = Some (h, st2)" "I st2" "prefix (N st1) (N st2)" "valid (N st2) h"
    "beyond (N st2) var h" "\<And>val. G val \<Longrightarrow> val_bool val var \<Longrightarrow> sem V S (N st2) val h = F (id_negate high p) val"
    using assms(3) [of high st1] l(2,3) by (auto simp: Boolean yields_def tgt)
  have "valid (N st2) l" "beyond (N st2) var l" using l(4,5) h(3) valid_prefix beyond_prefix by blast+
  moreover have "\<exists>k. target V S val var (Boolean h l) = Some k \<and> sem V S (N st2) val k = F (id_negate c p) val"
    if "G val" "target V S val var children = Some c" for val c
    using that l(6) [of val] h(6) [of val] sem_prefix [OF h(3) l(4), of V S val] by (auto simp: Boolean tgt)
  moreover have "edges_wf V S var (Boolean h l)" using assms(2) by (cases var) (auto simp: Boolean)
  moreover have "edges_map f p children st = Some (Boolean h l, st2)" using l(1) h(1) by (simp add: Boolean)
  moreover have "prefix (N st) (N st2)" using l(3) h(3) by (rule prefix_order.trans)
  ultimately show ?thesis using h(2,4,5) by auto
qed

section \<open>Ranges of versions and of strings\<close>

locale marker_ranges = lawful_ranges R + strings: range_laws S "\<lambda>_. True" "\<lambda>s. s"
  for R :: "('r, version, 'm) ranges_scheme" and S :: "('s, string, 'n) ranges_scheme"
begin

lemma edges_apply_mean:
  assumes "I st" "edges_wf R S var xs" "edges_wf R S var ys" and G: "\<And>val. G val \<Longrightarrow> val_ok val"
    and f: "\<And>a b st1. a \<in> set (edge_nodes xs) \<Longrightarrow> b \<in> set (edge_nodes ys) \<Longrightarrow> I st1 \<Longrightarrow> prefix (N st) (N st1) \<Longrightarrow>
      yields R S (\<lambda>val. G val \<and> target R S val var xs = Some a \<and> target R S val var ys = Some b) N I st1 (\<lambda>v. v = var)
        (F (id_negate a p) (id_negate b q)) (f (id_negate a p) (id_negate b q) st1)"
  shows "\<exists>children' st'. edges_apply R S f xs p ys q st = Some (children', st') \<and> I st' \<and> prefix (N st) (N st')
    \<and> edges_wf R S var children' \<and> list_all (\<lambda>k. valid (N st') k \<and> beyond (N st') var k) (edge_nodes children')
    \<and> (\<forall>val a b. G val \<longrightarrow> target R S val var xs = Some a \<longrightarrow> target R S val var ys = Some b \<longrightarrow>
        (\<exists>k. target R S val var children' = Some k \<and> sem R S (N st') val k = F (id_negate a p) (id_negate b q) val))"
proof (cases xs)
  case (Versions es)
  then obtain key where key: "var = VVersion key" using assms(2) by (cases var) auto
  then obtain es' where es': "ys = Versions es'" using assms(3) by (cases ys) auto
  have "\<exists>cs' st'. apply_ranges version_cmp R f es p es' q st = Some (cs', st') \<and> I st' \<and> prefix (N st) (N st')
    \<and> partitions wf_version (r_contains R) (map fst cs')
    \<and> list_all (\<lambda>k. valid (N st') k \<and> beyond (N st') var k) (map snd cs')
    \<and> (\<forall>val a b. G val \<longrightarrow> edge_target (\<lambda>r. r_contains R r (val_version val key)) es = Some a \<longrightarrow>
        edge_target (\<lambda>r. r_contains R r (val_version val key)) es' = Some b \<longrightarrow>
        (\<exists>k. edge_target (\<lambda>r. r_contains R r (val_version val key)) cs' = Some k \<and>
             sem R S (N st') val k = F (id_negate a p) (id_negate b q) val))"
  proof (rule apply_ranges_mean [where I = I and N = N, OF assms(1)])
    show "yields R S (\<lambda>val. G val \<and> edge_target (\<lambda>r. r_contains R r (val_version val key)) es = Some lc
          \<and> edge_target (\<lambda>r. r_contains R r (val_version val key)) es' = Some rc) N I st1 (\<lambda>v. v = var)
        (F (id_negate lc p) (id_negate rc q)) (f (id_negate lc p) (id_negate rc q) st1)"
      if "(lr, lc) \<in> set es" "(rr, rc) \<in> set es'" "I st1" "prefix (N st) (N st1)" for lr lc rr rc st1
      using f [of lc rc st1] that by (force simp: Versions es' key)
  qed (use G assms(2,3) in \<open>auto simp: val_ok_def Versions es' key\<close>)
  then show ?thesis by (auto simp: Versions es' key)
next
  case (Strings es)
  then obtain key where key: "var = VString key" using assms(2) by (cases var) auto
  then obtain es' where es': "ys = Strings es'" using assms(3) by (cases ys) auto
  have "\<exists>cs' st'. apply_ranges cmp S f es p es' q st = Some (cs', st') \<and> I st' \<and> prefix (N st) (N st')
    \<and> partitions (\<lambda>_. True) (r_contains S) (map fst cs')
    \<and> list_all (\<lambda>k. valid (N st') k \<and> beyond (N st') var k) (map snd cs')
    \<and> (\<forall>val a b. G val \<longrightarrow> edge_target (\<lambda>r. r_contains S r (val_string val key)) es = Some a \<longrightarrow>
        edge_target (\<lambda>r. r_contains S r (val_string val key)) es' = Some b \<longrightarrow>
        (\<exists>k. edge_target (\<lambda>r. r_contains S r (val_string val key)) cs' = Some k \<and>
             sem R S (N st') val k = F (id_negate a p) (id_negate b q) val))"
  proof (rule strings.apply_ranges_mean [where I = I and N = N, OF assms(1)])
    show "yields R S (\<lambda>val. G val \<and> edge_target (\<lambda>r. r_contains S r (val_string val key)) es = Some lc
          \<and> edge_target (\<lambda>r. r_contains S r (val_string val key)) es' = Some rc) N I st1 (\<lambda>v. v = var)
        (F (id_negate lc p) (id_negate rc q)) (f (id_negate lc p) (id_negate rc q) st1)"
      if "(lr, lc) \<in> set es" "(rr, rc) \<in> set es'" "I st1" "prefix (N st) (N st1)" for lr lc rr rc st1
      using f [of lc rc st1] that by (force simp: Strings es' key)
  qed (use assms(2,3) in \<open>auto simp: Strings es' key\<close>)
  then show ?thesis by (auto simp: Strings es' key)
next
  case (Boolean high low)
  then obtain high' low' where ys: "ys = Boolean high' low'" using assms(2,3) by (cases ys; cases var) auto
  have tgt: "target R S val var (Boolean h l) = Some (if val_bool val var then h else l)" for val h l
    using assms(2) by (cases var) (simp_all add: Boolean)
  obtain h st1 where h: "f (id_negate high p) (id_negate high' q) st = Some (h, st1)" "I st1" "prefix (N st) (N st1)" "valid (N st1) h"
    "beyond (N st1) var h" "\<And>val. G val \<Longrightarrow> val_bool val var \<Longrightarrow> sem R S (N st1) val h = F (id_negate high p) (id_negate high' q) val"
    using f [of high high' st] assms(1) by (auto simp: Boolean ys yields_def tgt)
  obtain l st2 where l: "f (id_negate low p) (id_negate low' q) st1 = Some (l, st2)" "I st2" "prefix (N st1) (N st2)" "valid (N st2) l"
    "beyond (N st2) var l" "\<And>val. G val \<Longrightarrow> \<not> val_bool val var \<Longrightarrow> sem R S (N st2) val l = F (id_negate low p) (id_negate low' q) val"
    using f [of low low' st1] h(2,3) by (auto simp: Boolean ys yields_def tgt)
  have "valid (N st2) h" "beyond (N st2) var h" using h(4,5) l(3) valid_prefix beyond_prefix by blast+
  moreover have "\<exists>k. target R S val var (Boolean h l) = Some k \<and> sem R S (N st2) val k = F (id_negate a p) (id_negate b q) val"
    if "G val" "target R S val var xs = Some a" "target R S val var ys = Some b" for val a b
    using that h(6) [of val] l(6) [of val] sem_prefix [OF l(3) h(4), of R S val] by (auto simp: Boolean ys tgt split: if_splits)
  moreover have "edges_wf R S var (Boolean h l)" using assms(2) by (cases var) (auto simp: Boolean)
  moreover have "edges_apply R S f xs p ys q st = Some (Boolean h l, st2)" using h(1) l(1) by (simp add: Boolean ys)
  moreover have "prefix (N st) (N st2)" using h(3) l(3) by (rule prefix_order.trans)
  ultimately show ?thesis using l(2,4,5) by auto
qed

end

section \<open>Shannon expansion\<close>

lemma canonical_string_rank_inject: "canonical_string_rank a = canonical_string_rank b \<Longrightarrow> a = b"
  by (cases a; cases b) simp_all

lemma canonical_version_rank_inject: "canonical_version_rank a = canonical_version_rank b \<Longrightarrow> a = b"
  by (cases a; cases b) simp_all

lemma list_pair_order_inject: "list_pair_order a = list_pair_order b \<Longrightarrow> a = b"
  by (cases a; cases b) (auto split: marker_value_list.splits)

lemma variable_key_inject: "variable_key v = variable_key w \<Longrightarrow> v = w"
  by (cases v; cases w) (simp_all add: canonical_string_rank_inject canonical_version_rank_inject list_pair_order_inject)

lemma variable_cmp_cases:
  "variable_cmp v w = Less \<longleftrightarrow> variable_key v < variable_key w"
  "variable_cmp v w = Greater \<longleftrightarrow> variable_key w < variable_key v"
  "variable_cmp v w = Equal \<longleftrightarrow> v = w"
  using variable_key_inject by (auto simp: variable_cmp_def cmp_def)

text \<open>The children of a valid node.\<close>

lemma child_facts:
  assumes "nodes_wf R S ns" "valid ns i" "\<not> i < 2" "c \<in> set (edge_nodes (n_children (ns ! node_index i)))"
  shows "valid ns c" "beyond ns (n_var (ns ! node_index i)) c" "\<forall>p. id_negate c p < i"
proof -
  have k: "node_index i < length ns" "2 * (node_index i + 1) = 2 * (i div 2)" using assms(2,3) by (auto simp: valid_def node_index_def)
  have w: "c < 2 * (i div 2) \<and> beyond ns (n_var (ns ! node_index i)) c"
    using nodes_wf_nth [OF assms(1) k(1)] assms(4) k(2) by (auto simp: node_wf_def Let_def list_all_iff)
  then have "\<forall>p. id_negate c p < 2 * (i div 2)" by simp
  then have "\<forall>p. id_negate c p < i" by (metis less_le_trans times_div_less_eq_dividend)
  then show "beyond ns (n_var (ns ! node_index i)) c" "\<forall>p. id_negate c p < i" "valid ns c"
    using w assms(2) by (auto simp: valid_def)
qed

lemma node_facts:
  assumes "nodes_wf R S ns" "valid ns i" "\<not> i < 2"
  shows "edges_wf R S (n_var (ns ! node_index i)) (n_children (ns ! node_index i))" "node_index i < length ns"
proof -
  show k: "node_index i < length ns" using assms(2,3) by (auto simp: valid_def node_index_def)
  show "edges_wf R S (n_var (ns ! node_index i)) (n_children (ns ! node_index i))"
    using nodes_wf_nth [OF assms(1) k] by (simp add: node_wf_def Let_def)
qed

text \<open>The meaning of a node through the child of its target.\<close>

lemma sem_child:
  assumes "nodes_wf R S ns" "valid ns i" "\<not> i < 2" "val_ok val"
  obtains c where "target R S val (n_var (ns ! node_index i)) (n_children (ns ! node_index i)) = Some c"
    "c \<in> set (edge_nodes (n_children (ns ! node_index i)))" "sem R S ns val i = sem R S ns val (id_negate c i)"
proof -
  have d: "i div 2 = node_index i + 1" using assms(3) by (auto simp: node_index_def)
  obtain c where c: "target R S val (n_var (ns ! node_index i)) (n_children (ns ! node_index i)) = Some c"
    "c \<in> set (edge_nodes (n_children (ns ! node_index i)))" "sem R S ns val i \<longleftrightarrow> (sem R S ns val c \<noteq> odd i)"
    using sem_node [OF assms(1) node_facts(2) [OF assms(1-3)] assms(4) d] by blast
  have "valid ns c" using child_facts(1) [OF assms(1-3) c(2)] .
  then show thesis using that [OF c(1,2)] c(3) sem_negate [OF assms(1) _ assms(4)] by simp
qed

lemma beyond_node:
  "\<not> i < 2 \<Longrightarrow> beyond ns v i \<longleftrightarrow> variable_key v < variable_key (n_var (ns ! node_index i))"
  by (simp add: beyond_def)

lemma interner_node_valid:
  "valid (i_nodes st) i \<Longrightarrow> \<not> i < 2 \<Longrightarrow> interner_node st i = Some (i_nodes st ! node_index i)"
  by (auto simp: interner_node_def valid_def node_index_def)

text \<open>An operation on two nodes that returns their conjunction, for arguments below a bound.\<close>

definition conjoins :: "('r, version, 'm) ranges_scheme \<Rightarrow> ('s, string, 'n) ranges_scheme \<Rightarrow> (valuation \<Rightarrow> bool)
    \<Rightarrow> ('st \<Rightarrow> ('r, 's) node list) \<Rightarrow> ('st \<Rightarrow> bool) \<Rightarrow> nat \<Rightarrow> (node_id \<Rightarrow> node_id \<Rightarrow> 'st \<Rightarrow> (node_id \<times> 'st) option) \<Rightarrow> bool" where
  "conjoins R S G N I n f \<longleftrightarrow> (\<forall>xi yi st. xi + yi < n \<longrightarrow> I st \<longrightarrow> valid (N st) xi \<longrightarrow> valid (N st) yi \<longrightarrow>
     yields R S G N I st (\<lambda>v. beyond (N st) v xi \<and> beyond (N st) v yi)
       (\<lambda>val. sem R S (N st) val xi \<and> sem R S (N st) val yi) (f xi yi st))"

lemma yields_weaken:
  assumes "yields R S G N I st B Q m" "\<And>v. B' v \<Longrightarrow> B v" "\<And>val. G val \<Longrightarrow> Q val = Q' val"
  shows "yields R S G N I st B' Q' m"
  using assms unfolding yields_def by blast

lemma conjoins_at:
  assumes "conjoins R S G N I n f" "xi + yi < n" "I st1" "prefix (N st) (N st1)" "valid (N st) xi" "valid (N st) yi"
    "beyond (N st) var xi" "beyond (N st) var yi"
  shows "yields R S G N I st1 (\<lambda>v. v = var) (\<lambda>val. sem R S (N st) val xi \<and> sem R S (N st) val yi) (f xi yi st1)"
proof -
  have v: "valid (N st1) xi" "valid (N st1) yi" "beyond (N st1) var xi" "beyond (N st1) var yi"
    using assms(4-8) valid_prefix beyond_prefix by blast+
  have "yields R S G N I st1 (\<lambda>v. beyond (N st1) v xi \<and> beyond (N st1) v yi)
     (\<lambda>val. sem R S (N st1) val xi \<and> sem R S (N st1) val yi) (f xi yi st1)"
    using assms(1-3) v unfolding conjoins_def by blast
  then show ?thesis
    by (rule yields_weaken) (simp_all add: v sem_prefix [OF assms(4,5)] sem_prefix [OF assms(4,6)])
qed

text \<open>The children a Shannon expansion returns mean the conjunction.\<close>

definition expands :: "('r, version, 'm) ranges_scheme \<Rightarrow> ('s, string, 'n) ranges_scheme \<Rightarrow> (valuation \<Rightarrow> bool)
    \<Rightarrow> ('st \<Rightarrow> ('r, 's) node list) \<Rightarrow> ('st \<Rightarrow> bool) \<Rightarrow> ('r, 's) node list \<Rightarrow> node_id \<Rightarrow> node_id
    \<Rightarrow> variable \<Rightarrow> ('r, 's) edges \<Rightarrow> 'st \<Rightarrow> bool" where
  "expands R S G N I ns xi yi var children st' \<longleftrightarrow> I st' \<and> prefix ns (N st') \<and> var \<in> n_var ` set ns
    \<and> edges_wf R S var children \<and> list_all (\<lambda>k. valid (N st') k \<and> beyond (N st') var k) (edge_nodes children)
    \<and> (\<forall>v. beyond ns v xi \<and> beyond ns v yi \<longrightarrow> variable_key v < variable_key var)
    \<and> (\<forall>val. G val \<longrightarrow> (\<exists>c. target R S val var children = Some c
        \<and> sem R S (N st') val c = (sem R S ns val xi \<and> sem R S ns val yi)))"

context marker_ranges
begin

lemma shannon_mean:
  assumes "I st" "nodes_wf R S (N st)" "conjoins R S G N I n f" "xi + yi \<le> n" "valid (N st) xi" "valid (N st) yi"
    "\<not> xi < 2" "\<not> yi < 2" and G: "\<And>val. G val \<Longrightarrow> val_ok val"
  defines "x \<equiv> N st ! node_index xi" and "y \<equiv> N st ! node_index yi"
  shows "\<exists>var children st'. shannon R S f xi x yi y st = Some ((var, children), st')
    \<and> expands R S G N I (N st) xi yi var children st'"
proof -
  note xf = child_facts [OF assms(2,5,7), folded x_def] and yf = child_facts [OF assms(2,6,8), folded y_def]
  note xw = node_facts(1) [OF assms(2,5,7), folded x_def] and yw = node_facts(1) [OF assms(2,6,8), folded y_def]
  note xs = sem_child [OF assms(2,5,7) G, folded x_def] and ys = sem_child [OF assms(2,6,8) G, folded y_def]
  have vx: "n_var x \<in> n_var ` set (N st)" "n_var y \<in> n_var ` set (N st)"
    using node_facts(2) [OF assms(2,5,7)] node_facts(2) [OF assms(2,6,8)] by (simp_all add: x_def y_def)
  note bx = beyond_node [OF assms(7), of "N st", folded x_def] and byy = beyond_node [OF assms(8), of "N st", folded y_def]
  let ?sem = "\<lambda>a b val. sem R S (N st) val a \<and> sem R S (N st) val b"
  consider "variable_cmp (n_var x) (n_var y) = Less" | "variable_cmp (n_var x) (n_var y) = Greater"
    | "variable_cmp (n_var x) (n_var y) = Equal" by (cases "variable_cmp (n_var x) (n_var y)")
  then show ?thesis
  proof cases
    case 1
    then have lt: "variable_key (n_var x) < variable_key (n_var y)" by (simp add: variable_cmp_cases)
    have "\<exists>children st'. edges_map (\<lambda>n. f n yi) xi (n_children x) st = Some (children, st') \<and> I st' \<and> prefix (N st) (N st')
      \<and> edges_wf R S (n_var x) children \<and> list_all (\<lambda>k. valid (N st') k \<and> beyond (N st') (n_var x) k) (edge_nodes children)
      \<and> (\<forall>val c. G val \<longrightarrow> target R S val (n_var x) (n_children x) = Some c \<longrightarrow>
        (\<exists>k. target R S val (n_var x) children = Some k \<and> sem R S (N st') val k = ?sem (id_negate c xi) yi val))"
    proof (rule edges_map_mean [where I = I and N = N and F = "\<lambda>a. ?sem a yi", OF assms(1) xw])
      show "yields R S (\<lambda>val. G val \<and> target R S val (n_var x) (n_children x) = Some c) N I st1 (\<lambda>v. v = n_var x)
          (?sem (id_negate c xi) yi) (f (id_negate c xi) yi st1)"
        if "c \<in> set (edge_nodes (n_children x))" "I st1" "prefix (N st) (N st1)" for c st1
        using xf(1,2) [OF that(1)] xf(3) [OF that(1), rule_format, of xi] assms(4,6) lt by (intro yields_on [OF conjoins_at [OF assms(3) _ that(2,3)]]) (auto simp: byy)
    qed
    then obtain children st' where r: "edges_map (\<lambda>n. f n yi) xi (n_children x) st = Some (children, st')" "I st'" "prefix (N st) (N st')"
      "edges_wf R S (n_var x) children" "list_all (\<lambda>k. valid (N st') k \<and> beyond (N st') (n_var x) k) (edge_nodes children)"
      and t: "\<And>val c. G val \<Longrightarrow> target R S val (n_var x) (n_children x) = Some c \<Longrightarrow>
        \<exists>k. target R S val (n_var x) children = Some k \<and> sem R S (N st') val k = ?sem (id_negate c xi) yi val" by blast
    have "\<exists>c. target R S val (n_var x) children = Some c \<and> sem R S (N st') val c = ?sem xi yi val" if g: "G val" for val
      using xs [OF g] t [OF g] by metis
    then show ?thesis using r 1 bx vx by (auto simp: shannon_def expands_def)
  next
    case 2
    then have lt: "variable_key (n_var y) < variable_key (n_var x)" by (simp add: variable_cmp_cases)
    have "\<exists>children st'. edges_map (\<lambda>n. f n xi) yi (n_children y) st = Some (children, st') \<and> I st' \<and> prefix (N st) (N st')
      \<and> edges_wf R S (n_var y) children \<and> list_all (\<lambda>k. valid (N st') k \<and> beyond (N st') (n_var y) k) (edge_nodes children)
      \<and> (\<forall>val c. G val \<longrightarrow> target R S val (n_var y) (n_children y) = Some c \<longrightarrow>
        (\<exists>k. target R S val (n_var y) children = Some k \<and> sem R S (N st') val k = ?sem (id_negate c yi) xi val))"
    proof (rule edges_map_mean [where I = I and N = N and F = "\<lambda>a. ?sem a xi", OF assms(1) yw])
      show "yields R S (\<lambda>val. G val \<and> target R S val (n_var y) (n_children y) = Some c) N I st1 (\<lambda>v. v = n_var y)
          (?sem (id_negate c yi) xi) (f (id_negate c yi) xi st1)"
        if "c \<in> set (edge_nodes (n_children y))" "I st1" "prefix (N st) (N st1)" for c st1
        using yf(1,2) [OF that(1)] yf(3) [OF that(1), rule_format, of yi] assms(4,5) lt by (intro yields_on [OF conjoins_at [OF assms(3) _ that(2,3)]]) (auto simp: bx)
    qed
    then obtain children st' where r: "edges_map (\<lambda>n. f n xi) yi (n_children y) st = Some (children, st')" "I st'" "prefix (N st) (N st')"
      "edges_wf R S (n_var y) children" "list_all (\<lambda>k. valid (N st') k \<and> beyond (N st') (n_var y) k) (edge_nodes children)"
      and t: "\<And>val c. G val \<Longrightarrow> target R S val (n_var y) (n_children y) = Some c \<Longrightarrow>
        \<exists>k. target R S val (n_var y) children = Some k \<and> sem R S (N st') val k = ?sem (id_negate c yi) xi val" by blast
    have "\<exists>c. target R S val (n_var y) children = Some c \<and> sem R S (N st') val c = ?sem xi yi val" if g: "G val" for val
      using ys [OF g] t [OF g] by metis
    then show ?thesis using r 2 byy vx by (auto simp: shannon_def expands_def)
  next
    case 3
    then have eq: "n_var y = n_var x" by (simp add: variable_cmp_cases)
    have "\<exists>children st'. edges_apply R S f (n_children x) xi (n_children y) yi st = Some (children, st') \<and> I st' \<and> prefix (N st) (N st')
      \<and> edges_wf R S (n_var x) children \<and> list_all (\<lambda>k. valid (N st') k \<and> beyond (N st') (n_var x) k) (edge_nodes children)
      \<and> (\<forall>val a b. G val \<longrightarrow> target R S val (n_var x) (n_children x) = Some a \<longrightarrow> target R S val (n_var x) (n_children y) = Some b \<longrightarrow>
        (\<exists>k. target R S val (n_var x) children = Some k \<and> sem R S (N st') val k = ?sem (id_negate a xi) (id_negate b yi) val))"
    proof (rule edges_apply_mean [where I = I and N = N and F = ?sem, OF assms(1) xw _ G])
      show "edges_wf R S (n_var x) (n_children y)" using yw eq by simp
      show "yields R S (\<lambda>val. G val \<and> target R S val (n_var x) (n_children x) = Some a \<and> target R S val (n_var x) (n_children y) = Some b)
          N I st1 (\<lambda>v. v = n_var x) (?sem (id_negate a xi) (id_negate b yi)) (f (id_negate a xi) (id_negate b yi) st1)"
        if "a \<in> set (edge_nodes (n_children x))" "b \<in> set (edge_nodes (n_children y))" "I st1" "prefix (N st) (N st1)" for a b st1
        using xf(1,2) [OF that(1)] yf(1,2) [OF that(2)] xf(3) [OF that(1), rule_format, of xi]
          yf(3) [OF that(2), rule_format, of yi] assms(4) eq by (intro yields_on [OF conjoins_at [OF assms(3) _ that(3,4)]]) auto
    qed
    then obtain children st' where r: "edges_apply R S f (n_children x) xi (n_children y) yi st = Some (children, st')" "I st'"
      "prefix (N st) (N st')" "edges_wf R S (n_var x) children"
      "list_all (\<lambda>k. valid (N st') k \<and> beyond (N st') (n_var x) k) (edge_nodes children)"
      and t: "\<And>val a b. G val \<Longrightarrow> target R S val (n_var x) (n_children x) = Some a \<Longrightarrow> target R S val (n_var x) (n_children y) = Some b \<Longrightarrow>
        \<exists>k. target R S val (n_var x) children = Some k \<and> sem R S (N st') val k = ?sem (id_negate a xi) (id_negate b yi) val" by blast
    have "\<exists>c. target R S val (n_var x) children = Some c \<and> sem R S (N st') val c = ?sem xi yi val" if g: "G val" for val
      using xs [OF g] ys [OF g] t [OF g] eq by metis
    then show ?thesis using r 3 bx vx by (auto simp: shannon_def expands_def)
  qed
qed

end

end
