(* ===== verification/Marker_Conjunction.thy ===== *)
theory Marker_Conjunction
  imports Marker_Edges
begin

text \<open>
  Conjunction, disjunction and the disjointness test without the known incompatibilities: enough fuel
  for them and what they return.
\<close>

section \<open>Conjunction\<close>

lemma and_shortcut_sound:
  assumes "nodes_wf R S ns" "valid ns xi" "valid ns yi" "and_shortcut xi yi = Some i"
  shows "valid ns i" "beyond ns v xi \<Longrightarrow> beyond ns v yi \<Longrightarrow> beyond ns v i"
    "val_ok val \<Longrightarrow> sem R S ns val i = (sem R S ns val xi \<and> sem R S ns val yi)"
  using assms sem_not [OF assms(1,2), of val] by (auto simp: and_shortcut_def split: if_splits)

lemma and_shortcut_None: "and_shortcut xi yi = None \<Longrightarrow> \<not> xi < 2 \<and> \<not> yi < 2"
  by (auto simp: and_shortcut_def less_2_cases_iff split: if_splits)

definition cache_ok :: "('r, version, 'm) ranges_scheme \<Rightarrow> ('s, string, 'n) ranges_scheme \<Rightarrow> (valuation \<Rightarrow> bool)
    \<Rightarrow> ('r, 's) node list \<Rightarrow> and_cache \<Rightarrow> bool" where
  "cache_ok R S G ns cache \<longleftrightarrow> (\<forall>xi yi i. cache (xi, yi) = Some i \<longrightarrow> valid ns xi \<and> valid ns yi \<and> valid ns i
     \<and> (\<forall>v. beyond ns v xi \<longrightarrow> beyond ns v yi \<longrightarrow> beyond ns v i)
     \<and> (\<forall>val. G val \<longrightarrow> sem R S ns val i = (sem R S ns val xi \<and> sem R S ns val yi)))"

lemma cache_ok_empty [simp]: "cache_ok R S G ns Map.empty"
  by (simp add: cache_ok_def)

lemma cache_ok_prefix:
  assumes "cache_ok R S G ns cache" "prefix ns ns'" shows "cache_ok R S G ns' cache"
  unfolding cache_ok_def
proof (intro allI impI)
  fix xi yi i assume "cache (xi, yi) = Some i"
  then have v: "valid ns xi" "valid ns yi" "valid ns i" and b: "\<forall>v. beyond ns v xi \<longrightarrow> beyond ns v yi \<longrightarrow> beyond ns v i"
    and s: "\<forall>val. G val \<longrightarrow> sem R S ns val i = (sem R S ns val xi \<and> sem R S ns val yi)"
    using assms(1) unfolding cache_ok_def by blast+
  show "valid ns' xi \<and> valid ns' yi \<and> valid ns' i \<and> (\<forall>v. beyond ns' v xi \<longrightarrow> beyond ns' v yi \<longrightarrow> beyond ns' v i)
     \<and> (\<forall>val. G val \<longrightarrow> sem R S ns' val i = (sem R S ns' val xi \<and> sem R S ns' val yi))"
    using s b valid_prefix [OF assms(2)] v
    by (simp add: sem_prefix [OF assms(2) v(1)] sem_prefix [OF assms(2) v(2)] sem_prefix [OF assms(2) v(3)]
      beyond_prefix [OF assms(2) v(1)] beyond_prefix [OF assms(2) v(2)] beyond_prefix [OF assms(2) v(3)])
qed

lemma cache_ok_insert:
  assumes "cache_ok R S G ns cache" "valid ns xi" "valid ns yi" "valid ns i"
    "\<And>v. beyond ns v xi \<Longrightarrow> beyond ns v yi \<Longrightarrow> beyond ns v i"
    "\<And>val. G val \<Longrightarrow> sem R S ns val i = (sem R S ns val xi \<and> sem R S ns val yi)"
  shows "cache_ok R S G ns (cache((xi, yi) \<mapsto> i))"
  using assms unfolding cache_ok_def by auto

text \<open>The results of shortcuts and of the cache.\<close>

lemma yields_known:
  assumes "I st" "valid (N st) i" "\<And>v. B v \<Longrightarrow> beyond (N st) v i" "\<And>val. G val \<Longrightarrow> sem R S (N st) val i = Q val"
  shows "yields R S G N I st B Q (Some (i, st))"
  using assms unfolding yields_def by simp

text \<open>The node of an expansion.\<close>

lemma expands_create:
  assumes "expands R S G N I ns xi yi var children s" "store_wf R S st" "N s = i_nodes st" "\<And>val. G val \<Longrightarrow> val_ok val"
  obtains i st' where "create_node var children st = Some (i, st')" "store_wf R S st'" "prefix (i_nodes st) (i_nodes st')"
    "prefix ns (i_nodes st')" "i_cache st' = i_cache st" "i_exclusions st' = i_exclusions st" "valid (i_nodes st') i"
    "\<And>v. beyond ns v xi \<Longrightarrow> beyond ns v yi \<Longrightarrow> beyond (i_nodes st') v i"
    "\<And>val. G val \<Longrightarrow> sem R S (i_nodes st') val i = (sem R S ns val xi \<and> sem R S ns val yi)"
    "\<And>W. vars_in W (i_nodes st) \<Longrightarrow> vars_in W (i_nodes st')"
proof -
  note e = assms(1) [unfolded expands_def assms(3)]
  obtain i st' where c: "create_node var children st = Some (i, st')" "store_wf R S st'" "prefix (i_nodes st) (i_nodes st')"
    "i_cache st' = i_cache st" "i_exclusions st' = i_exclusions st" "valid (i_nodes st') i"
    and b: "\<And>v. variable_key v < variable_key var \<Longrightarrow> beyond (i_nodes st') v i"
    and t: "\<And>val. val_ok val \<Longrightarrow> \<exists>c. target R S val var children = Some c \<and> c \<in> set (edge_nodes children)
       \<and> sem R S (i_nodes st') val i = sem R S (i_nodes st) val c"
    and vars: "\<And>W. vars_in W (i_nodes st) \<Longrightarrow> var \<in> W \<Longrightarrow> vars_in W (i_nodes st')"
    by (rule create_node_wf [OF assms(2), of var children]) (use e in \<open>simp_all\<close>)
  have "sem R S (i_nodes st') val i = (sem R S ns val xi \<and> sem R S ns val yi)" if g: "G val" for val
  proof -
    obtain c where "target R S val var children = Some c" "sem R S (i_nodes st) val c = (sem R S ns val xi \<and> sem R S ns val yi)"
      using e g by blast
    then show ?thesis using t [OF assms(4) [OF g]] by auto
  qed
  moreover have "prefix ns (i_nodes st')" using e c(3) by (auto intro: prefix_order.trans)
  moreover have "beyond (i_nodes st') v i" if "beyond ns v xi" "beyond ns v yi" for v using that e b by simp
  moreover have "vars_in W (i_nodes st')" if "vars_in W (i_nodes st)" for W
  proof (rule vars [OF that])
    have "set ns \<subseteq> set (i_nodes st)" using e set_mono_prefix by blast
    then show "var \<in> W" using e that by (auto simp: vars_in_def)
  qed
  ultimately show thesis using that c by blast
qed

text \<open>
  What \<open>conjunction\<close> keeps: the store is well-formed, its local cache is right, and the fields of
  the interner it does not use stay as they are.
\<close>

definition conj_state :: "('r, version, 'm) ranges_scheme \<Rightarrow> ('s, string, 'n) ranges_scheme \<Rightarrow> variable set \<Rightarrow> and_cache \<Rightarrow> node_id option
    \<Rightarrow> and_cache \<times> ('r, 's) interner \<Rightarrow> bool" where
  "conj_state R S W C E = (\<lambda>(cache, st). store_wf R S st \<and> vars_in W (i_nodes st) \<and> cache_ok R S val_ok (i_nodes st) cache \<and> i_cache st = C \<and> i_exclusions st = E)"

abbreviation snd_nodes :: "'c \<times> ('r, 's) interner \<Rightarrow> ('r, 's) node list" where
  "snd_nodes \<equiv> \<lambda>s. i_nodes (snd s)"

context marker_ranges
begin

lemma conjunction_conjoins: "conjoins R S val_ok snd_nodes (conj_state R S W C E) n (conjunction_fuel n R S)"
proof (induction n)
  case 0
  then show ?case by (simp add: conjoins_def)
next
  case (Suc n)
  show ?case unfolding conjoins_def
  proof (intro allI impI)
    fix xi yi and s :: "and_cache \<times> ('r, 's) interner"
    assume n: "xi + yi < Suc n" and I: "conj_state R S W C E s" and v: "valid (snd_nodes s) xi" "valid (snd_nodes s) yi"
    obtain cache st where s: "s = (cache, st)" by (cases s)
    have w: "nodes_wf R S (i_nodes st)" "store_wf R S st" "cache_ok R S val_ok (i_nodes st) cache" "i_cache st = C" "i_exclusions st = E" "vars_in W (i_nodes st)"
      using I by (auto simp: s conj_state_def store_wf_def)
    note vs = v [unfolded s snd_conv]
    let ?B = "\<lambda>v. beyond (snd_nodes s) v xi \<and> beyond (snd_nodes s) v yi"
    let ?Q = "\<lambda>val. sem R S (snd_nodes s) val xi \<and> sem R S (snd_nodes s) val yi"
    show "yields R S val_ok snd_nodes (conj_state R S W C E) s ?B ?Q (conjunction_fuel (Suc n) R S xi yi s)"
    proof (cases "and_shortcut xi yi")
      case (Some i)
      have "yields R S val_ok snd_nodes (conj_state R S W C E) s ?B ?Q (Some (i, s))"
        using and_shortcut_sound [OF w(1) vs Some] I by (intro yields_known) (simp_all add: s)
      then show ?thesis using Some by (simp add: s)
    next
      case None
      show ?thesis
      proof (cases "cache (xi, yi)")
        case (Some i)
        have "yields R S val_ok snd_nodes (conj_state R S W C E) s ?B ?Q (Some (i, s))"
          using w(3) Some I by (intro yields_known) (auto simp: s cache_ok_def)
        then show ?thesis using Some None by (simp add: s)
      next
        case nc: None
        have ge: "\<not> xi < 2" "\<not> yi < 2" using and_shortcut_None [OF None] by auto
        have "xi + yi \<le> n" using n by simp
        from shannon_mean [where N = snd_nodes and I = "conj_state R S W C E" and G = val_ok and st = s, OF I _ Suc.IH this v ge]
        obtain var children s' where sh: "shannon R S (conjunction_fuel n R S) xi (i_nodes st ! node_index xi) yi (i_nodes st ! node_index yi) (cache, st)
            = Some ((var, children), s')" "expands R S val_ok snd_nodes (conj_state R S W C E) (i_nodes st) xi yi var children s'"
          using w(1) by (auto simp: s)
        obtain cache' st1 where s': "s' = (cache', st1)" by (cases s')
        have w1: "store_wf R S st1" "cache_ok R S val_ok (i_nodes st1) cache'" "i_cache st1 = C" "i_exclusions st1 = E" "vars_in W (i_nodes st1)"
          using sh(2) by (auto simp: s' conj_state_def expands_def)
        obtain i st2 where c: "create_node var children st1 = Some (i, st2)" "store_wf R S st2" "prefix (i_nodes st1) (i_nodes st2)"
          "i_cache st2 = i_cache st1" "i_exclusions st2 = i_exclusions st1" "valid (i_nodes st2) i"
          and p: "prefix (i_nodes st) (i_nodes st2)"
          and b: "\<And>v. beyond (i_nodes st) v xi \<Longrightarrow> beyond (i_nodes st) v yi \<Longrightarrow> beyond (i_nodes st2) v i"
          and sem: "\<And>val. val_ok val \<Longrightarrow> sem R S (i_nodes st2) val i = (sem R S (i_nodes st) val xi \<and> sem R S (i_nodes st) val yi)"
          and vars: "vars_in W (i_nodes st2)"
          by (rule expands_create [OF sh(2) w1(1)]) (simp_all add: s' w1(5))
        have "cache_ok R S val_ok (i_nodes st2) (cache'((xi, yi) \<mapsto> i))"
          by (rule cache_ok_insert [OF cache_ok_prefix [OF w1(2) c(3)] valid_prefix [OF p vs(1)] valid_prefix [OF p vs(2)] c(6)])
            (simp_all add: b sem sem_prefix [OF p vs(1)] sem_prefix [OF p vs(2)] beyond_prefix [OF p vs(1)] beyond_prefix [OF p vs(2)])
        then have "conj_state R S W C E (cache'((xi, yi) \<mapsto> i), st2)" using c(2,4,5) w1(3,4) vars by (simp add: conj_state_def)
        moreover have "conjunction_fuel (Suc n) R S xi yi s = Some (i, cache'((xi, yi) \<mapsto> i), st2)"
          using None nc sh(1) c(1) by (simp add: s s' interner_node_valid vs ge)
        ultimately show ?thesis unfolding yields_def using p c(6) b sem by (simp add: s)
      qed
    qed
  qed
qed

lemma conjunction_yields:
  assumes "conj_state R S W C E s" "valid (snd_nodes s) xi" "valid (snd_nodes s) yi"
  shows "yields R S val_ok snd_nodes (conj_state R S W C E) s (\<lambda>_. False)
    (\<lambda>val. sem R S (snd_nodes s) val xi \<and> sem R S (snd_nodes s) val yi) (conjunction R S xi yi s)"
proof -
  have "yields R S val_ok snd_nodes (conj_state R S W C E) s (\<lambda>v. beyond (snd_nodes s) v xi \<and> beyond (snd_nodes s) v yi)
    (\<lambda>val. sem R S (snd_nodes s) val xi \<and> sem R S (snd_nodes s) val yi) (conjunction R S xi yi s)"
    using conjunction_conjoins [of W C E "Suc (xi + yi)"] assms unfolding conjoins_def conjunction_def by blast
  then show ?thesis by (rule yields_weaken) simp_all
qed

lemma disjunction_yields:
  assumes "conj_state R S W C E s" "valid (snd_nodes s) xi" "valid (snd_nodes s) yi"
  shows "yields R S val_ok snd_nodes (conj_state R S W C E) s (\<lambda>_. False)
    (\<lambda>val. sem R S (snd_nodes s) val xi \<or> sem R S (snd_nodes s) val yi) (disjunction R S xi yi s)"
proof -
  have w: "nodes_wf R S (snd_nodes s)" using assms(1) by (auto simp: conj_state_def store_wf_def)
  obtain i s' where r: "conjunction R S (id_not xi) (id_not yi) s = Some (i, s')" "conj_state R S W C E s'"
    "prefix (snd_nodes s) (snd_nodes s')" "valid (snd_nodes s') i"
    "\<And>val. val_ok val \<Longrightarrow> sem R S (snd_nodes s') val i = (sem R S (snd_nodes s) val (id_not xi) \<and> sem R S (snd_nodes s) val (id_not yi))"
    using conjunction_yields [OF assms(1), of "id_not xi" "id_not yi"] assms(2,3) by (auto simp: yields_def)
  have w': "nodes_wf R S (snd_nodes s')" using r(2) by (auto simp: conj_state_def store_wf_def)
  show ?thesis using r sem_not [OF w' r(4)] sem_not [OF w assms(2)] sem_not [OF w assms(3)]
    by (auto simp: yields_def disjunction_def)
qed

section \<open>Disjointness\<close>

lemma all_opt_Some: "(\<And>x. x \<in> set xs \<Longrightarrow> f x \<noteq> None) \<Longrightarrow> all_opt f xs \<noteq> None"
  by (induction xs) (auto split: Option.bind_splits)

lemma all_opt_True: "all_opt f xs = Some True \<Longrightarrow> x \<in> set xs \<Longrightarrow> f x = Some True"
  by (induction xs) (auto split: Option.bind_splits if_splits)

lemma is_disjoint_ranges_sound:
  assumes "is_disjoint_ranges P f es p es' q = Some True" "(lr, lc) \<in> set es" "(rr, rc) \<in> set es'" "\<not> r_is_disjoint P rr lr"
  shows "f (id_negate lc p) (id_negate rc q) = Some True"
  using all_opt_True [OF assms(1) [unfolded is_disjoint_ranges_def] assms(2)] assms(3,4) by (auto dest: all_opt_True)

lemma edge_target_edge:
  assumes "edge_target P es = Some c" obtains r where "(r, c) \<in> set es" "P r"
proof -
  obtain r where "find (\<lambda>(r, _). P r) es = Some (r, c)" using assms by (auto simp: edge_target_def)
  then have "(r, c) \<in> set es \<and> P r" by (auto simp: find_Some_iff in_set_conv_nth)
  then show thesis using that by blast
qed

lemma edges_is_disjoint_sound:
  assumes "edges_is_disjoint R S f xs p ys q = Some True" "edges_wf R S var xs" "edges_wf R S var ys" "val_ok val"
    "target R S val var xs = Some a" "target R S val var ys = Some b"
  shows "f (id_negate a p) (id_negate b q) = Some True"
proof (cases xs)
  case (Versions es)
  then obtain key where key: "var = VVersion key" using assms(2) by (cases var) auto
  then obtain es' where es': "ys = Versions es'" using assms(3) by (cases ys) auto
  have ok: "wf_version (val_version val key)" using assms(4) by (simp add: val_ok_def)
  obtain lr where l: "(lr, a) \<in> set es" "r_contains R lr (val_version val key)"
    using assms(5) by (auto simp: Versions key elim: edge_target_edge)
  obtain rr where r: "(rr, b) \<in> set es'" "r_contains R rr (val_version val key)"
    using assms(6) by (auto simp: es' key elim: edge_target_edge)
  have "\<not> r_is_disjoint R rr lr" using is_disjoint_law [OF ok] l(2) r(2) by blast
  then show ?thesis using is_disjoint_ranges_sound [OF _ l(1) r(1)] assms(1) by (simp add: Versions es')
next
  case (Strings es)
  then obtain key where key: "var = VString key" using assms(2) by (cases var) auto
  then obtain es' where es': "ys = Strings es'" using assms(3) by (cases ys) auto
  obtain lr where l: "(lr, a) \<in> set es" "r_contains S lr (val_string val key)"
    using assms(5) by (auto simp: Strings key elim: edge_target_edge)
  obtain rr where r: "(rr, b) \<in> set es'" "r_contains S rr (val_string val key)"
    using assms(6) by (auto simp: es' key elim: edge_target_edge)
  have "\<not> r_is_disjoint S rr lr" using strings.is_disjoint_law l(2) r(2) by blast
  then show ?thesis using is_disjoint_ranges_sound [OF _ l(1) r(1)] assms(1) by (simp add: Strings es')
next
  case (Boolean high low)
  then obtain high' low' where ys: "ys = Boolean high' low'" using assms(2,3) by (cases ys; cases var) auto
  have "(a, b) \<in> {(high, high'), (low, low')}" using assms(5,6) by (cases var) (auto simp: Boolean ys split: if_splits)
  then show ?thesis using all_opt_True [of "\<lambda>(a, b). f (id_negate a p) (id_negate b q)" "[(high, high'), (low, low')]" "(a, b)"] assms(1)
    by (simp add: Boolean ys del: all_opt.simps)
qed

lemma is_disjoint_ranges_Some:
  assumes "\<And>a b. a \<in> set (map snd es) \<Longrightarrow> b \<in> set (map snd es') \<Longrightarrow> f (id_negate a p) (id_negate b q) \<noteq> None"
  shows "is_disjoint_ranges P f es p es' q \<noteq> None"
  unfolding is_disjoint_ranges_def
proof (rule all_opt_Some)
  fix e assume e: "e \<in> set es"
  obtain l a where ea: "e = (l, a)" by (cases e)
  have "all_opt (\<lambda>(r, b). if r_is_disjoint P r l then Some True else f (id_negate a p) (id_negate b q)) es' \<noteq> None"
  proof (rule all_opt_Some)
    fix e' assume e': "e' \<in> set es'"
    then have "a \<in> set (map snd es)" "snd e' \<in> set (map snd es')" using e by (force simp: ea)+
    then show "(case e' of (r, b) \<Rightarrow> if r_is_disjoint P r l then Some True else f (id_negate a p) (id_negate b q)) \<noteq> None"
      using assms [of a "snd e'"] by (cases e') auto
  qed
  then show "(case e of (l, a) \<Rightarrow> all_opt (\<lambda>(r, b). if r_is_disjoint P r l then Some True
      else f (id_negate a p) (id_negate b q)) es') \<noteq> None" by (simp add: ea)
qed

lemma edges_is_disjoint_Some:
  assumes "edges_wf R S var xs" "edges_wf R S var ys"
    "\<And>a b. a \<in> set (edge_nodes xs) \<Longrightarrow> b \<in> set (edge_nodes ys) \<Longrightarrow> f (id_negate a p) (id_negate b q) \<noteq> None"
  shows "edges_is_disjoint R S f xs p ys q \<noteq> None"
proof (cases "(R, S, f, xs, p, ys, q)" rule: edges_is_disjoint.cases)
  case (1 R' S' f' es p' es' q')
  then have "is_disjoint_ranges R f es p es' q \<noteq> None" using assms(3) by (intro is_disjoint_ranges_Some) simp
  then show ?thesis using 1 by simp
next
  case (2 R' S' f' es p' es' q')
  then have "is_disjoint_ranges S f es p es' q \<noteq> None" using assms(3) by (intro is_disjoint_ranges_Some) simp
  then show ?thesis using 2 by simp
next
  case (3 R' S' f' high low p' high' low' q')
  then have "all_opt (\<lambda>(a, b). f (id_negate a p) (id_negate b q)) [(high, high'), (low, low')] \<noteq> None"
    using assms(3) by (intro all_opt_Some) auto
  then show ?thesis using 3 by (simp del: all_opt.simps)
qed (use assms(1,2) in \<open>cases var; simp\<close>)+

end

context marker_ranges
begin

lemma disjoint_shortcut_sound:
  assumes "nodes_wf R S ns" "valid ns xi" "val_ok val" "disjoint_shortcut xi yi = Some True"
  shows "\<not> (sem R S ns val xi \<and> sem R S ns val yi)"
  using assms sem_not [OF assms(1-3)] by (auto simp: disjoint_shortcut_def split: if_splits)

lemma option_sound: "m \<noteq> None \<Longrightarrow> (m = Some True \<Longrightarrow> P) \<Longrightarrow> \<exists>r. m = Some r \<and> (r \<longrightarrow> P)"
  by (cases m) auto

lemma disjoint_shortcut_None: "disjoint_shortcut xi yi = None \<Longrightarrow> \<not> xi < 2 \<and> \<not> yi < 2"
  by (auto simp: disjoint_shortcut_def less_2_cases_iff split: if_splits)

text \<open>Disjointness of the children on every path gives disjointness of the nodes.\<close>

lemma shannon_disjoint_sound:
  assumes "nodes_wf R S ns" "valid ns xi" "valid ns yi" "\<not> xi < 2" "\<not> yi < 2"
    and f: "\<And>a b. a + b < xi + yi \<Longrightarrow> valid ns a \<Longrightarrow> valid ns b \<Longrightarrow>
      \<exists>r. f a b = Some r \<and> (r \<longrightarrow> (\<forall>val. val_ok val \<longrightarrow> \<not> (sem R S ns val a \<and> sem R S ns val b)))"
  defines "x \<equiv> ns ! node_index xi" and "y \<equiv> ns ! node_index yi"
  shows "\<exists>r. shannon_disjoint R S f xi x yi y = Some r \<and> (r \<longrightarrow> (\<forall>val. val_ok val \<longrightarrow> \<not> (sem R S ns val xi \<and> sem R S ns val yi)))"
proof -
  note xf = child_facts [OF assms(1,2,4), folded x_def] and yf = child_facts [OF assms(1,3,5), folded y_def]
  note xw = node_facts(1) [OF assms(1,2,4), folded x_def] and yw = node_facts(1) [OF assms(1,3,5), folded y_def]
  note xs = sem_child [OF assms(1,2,4), folded x_def] and ys = sem_child [OF assms(1,3,5), folded y_def]
  have lx: "id_negate c xi + yi < xi + yi" "valid ns (id_negate c xi)" if "c \<in> set (edge_nodes (n_children x))" for c
    using xf(1,3) [OF that] by simp_all
  have ly: "id_negate c yi + xi < xi + yi" "valid ns (id_negate c yi)" if "c \<in> set (edge_nodes (n_children y))" for c
    using yf(1,3) [OF that] by simp_all
  have one: "\<not> (sem R S ns val a \<and> sem R S ns val b)" if "f a b = Some True" "a + b < xi + yi" "valid ns a" "valid ns b" "val_ok val" for a b val
    using f [OF that(2-4)] that(1,5) by auto
  have some: "f a b \<noteq> None" if "a + b < xi + yi" "valid ns a" "valid ns b" for a b
    using f [OF that] by (elim exE conjE) simp
  show ?thesis
  proof (cases "variable_cmp (n_var x) (n_var y)")
    case Less
    let ?f = "\<lambda>n. f (id_negate n xi) yi"
    have "all_opt ?f (edge_nodes (n_children x)) \<noteq> None"
      by (rule all_opt_Some) (rule some [OF lx assms(3)])
    moreover have "\<not> (sem R S ns val xi \<and> sem R S ns val yi)" if g: "all_opt ?f (edge_nodes (n_children x)) = Some True" "val_ok val" for val
    proof -
      obtain c where c: "target R S val (n_var x) (n_children x) = Some c" "c \<in> set (edge_nodes (n_children x))"
        "sem R S ns val xi = sem R S ns val (id_negate c xi)" by (rule xs [OF g(2)])
      then show ?thesis using one [OF all_opt_True [OF g(1) c(2)] lx [OF c(2)] assms(3) g(2)] by simp
    qed
    ultimately show ?thesis unfolding shannon_disjoint_def Less ordering.case by (intro option_sound) blast+
  next
    case Greater
    let ?f = "\<lambda>n. f (id_negate n yi) xi"
    have "all_opt ?f (edge_nodes (n_children y)) \<noteq> None"
      by (rule all_opt_Some) (rule some [OF ly assms(2)])
    moreover have "\<not> (sem R S ns val xi \<and> sem R S ns val yi)" if g: "all_opt ?f (edge_nodes (n_children y)) = Some True" "val_ok val" for val
    proof -
      obtain c where c: "target R S val (n_var y) (n_children y) = Some c" "c \<in> set (edge_nodes (n_children y))"
        "sem R S ns val yi = sem R S ns val (id_negate c yi)" by (rule ys [OF g(2)])
      then show ?thesis using one [OF all_opt_True [OF g(1) c(2)] ly [OF c(2)] assms(2) g(2)] by auto
    qed
    ultimately show ?thesis unfolding shannon_disjoint_def Greater ordering.case by (intro option_sound) blast+
  next
    case Equal
    then have eq: "n_var y = n_var x" by (simp add: variable_cmp_cases)
    have yw': "edges_wf R S (n_var x) (n_children y)" using yw eq by simp
    have both: "id_negate a xi + id_negate b yi < xi + yi" if "a \<in> set (edge_nodes (n_children x))" "b \<in> set (edge_nodes (n_children y))" for a b
      using xf(3) [OF that(1), rule_format, of xi] yf(3) [OF that(2), rule_format, of yi] by simp
    have "edges_is_disjoint R S f (n_children x) xi (n_children y) yi \<noteq> None"
      by (rule edges_is_disjoint_Some [OF xw yw']) (rule some [OF both lx(2) ly(2)])
    moreover have "\<not> (sem R S ns val xi \<and> sem R S ns val yi)"
      if g: "edges_is_disjoint R S f (n_children x) xi (n_children y) yi = Some True" "val_ok val" for val
    proof -
      obtain a where a: "target R S val (n_var x) (n_children x) = Some a" "a \<in> set (edge_nodes (n_children x))"
        "sem R S ns val xi = sem R S ns val (id_negate a xi)" by (rule xs [OF g(2)])
      obtain b where b: "target R S val (n_var x) (n_children y) = Some b" "b \<in> set (edge_nodes (n_children y))"
        "sem R S ns val yi = sem R S ns val (id_negate b yi)" by (rule ys [OF g(2), unfolded eq])
      show ?thesis
        using one [OF edges_is_disjoint_sound [OF g(1) xw yw' g(2) a(1) b(1)] both [OF a(2) b(2)] lx(2) [OF a(2)] ly(2) [OF b(2)] g(2)] a(3) b(3)
        by simp
    qed
    ultimately show ?thesis unfolding shannon_disjoint_def Equal ordering.case by (intro option_sound) blast+
  qed
qed

lemma disjointness_fuel_sound:
  assumes "nodes_wf R S (i_nodes st)" "xi + yi < n" "valid (i_nodes st) xi" "valid (i_nodes st) yi"
  shows "\<exists>b. disjointness_fuel n R S st xi yi = Some b
    \<and> (b \<longrightarrow> (\<forall>val. val_ok val \<longrightarrow> \<not> (sem R S (i_nodes st) val xi \<and> sem R S (i_nodes st) val yi)))"
  using assms(2-4)
proof (induction n arbitrary: xi yi)
  case (Suc n)
  show ?case
  proof (cases "disjoint_shortcut xi yi")
    case None
    then have ge: "\<not> xi < 2" "\<not> yi < 2" using disjoint_shortcut_None by blast+
    have "\<exists>r. shannon_disjoint R S (disjointness_fuel n R S st) xi (i_nodes st ! node_index xi) yi (i_nodes st ! node_index yi) = Some r
      \<and> (r \<longrightarrow> (\<forall>val. val_ok val \<longrightarrow> \<not> (sem R S (i_nodes st) val xi \<and> sem R S (i_nodes st) val yi)))"
      by (rule shannon_disjoint_sound [OF assms(1) Suc.prems(2,3) ge]) (rule Suc.IH, use Suc.prems(1) in simp_all)
    then show ?thesis using None Suc.prems ge by (simp add: interner_node_valid)
  next
    case (Some b)
    then show ?thesis using disjoint_shortcut_sound [OF assms(1) Suc.prems(2)] by auto
  qed
qed simp

lemma disjointness_sound:
  assumes "nodes_wf R S (i_nodes st)" "valid (i_nodes st) xi" "valid (i_nodes st) yi"
  obtains b where "disjointness R S xi yi st = Some b"
    "b \<Longrightarrow> val_ok val \<Longrightarrow> \<not> (sem R S (i_nodes st) val xi \<and> sem R S (i_nodes st) val yi)"
  using disjointness_fuel_sound [OF assms(1) _ assms(2,3), of "Suc (xi + yi)"] unfolding disjointness_def by blast

end

section \<open>Edges of a range\<close>

lemma sorted_wrt_insert_by:
  assumes "\<And>x y. P x y \<longleftrightarrow> P y x" "sorted_wrt P xs" "\<forall>y\<in>set xs. P x y"
  shows "sorted_wrt P (insert_by f x xs)"
proof -
  have "set (insert_by f x ys) = insert x (set ys)" for ys
    by (metis mset_insert_by set_mset_add_mset_insert set_mset_mset)
  then show ?thesis using assms by (induction xs) auto
qed

lemma sorted_wrt_sort_by:
  assumes "\<And>x y. P x y \<longleftrightarrow> P y x" "sorted_wrt P xs"
  shows "sorted_wrt P (sort_by f xs)"
  using assms(2)
proof (induction xs)
  case (Cons x xs)
  have "sorted_wrt P (insert_by f x (sort_by f xs))"
    using Cons by (intro sorted_wrt_insert_by [OF assms(1)]) auto
  then show ?case by (simp add: sort_by_def)
qed (simp add: sort_by_def)

context range_laws
begin

lemma segment_range_contains:
  assumes "(l, u) \<in> set (r_iter R r)" "ok v"
  shows "r_contains R (r_from_range_bounds R l u) v \<longleftrightarrow> within key v (l, u)"
  using assms iter_wf [of r] from_range_bounds_law by (auto simp: list_all_iff wf_segment_def)

lemma from_range_edges:
  obtains es where "from_range c R r = Some es" "partitions ok (r_contains R) (map fst es)"
    "\<And>v. ok v \<Longrightarrow> edge_target (\<lambda>x. r_contains R x v) es = Some (if r_contains R r v then id_true else id_false)"
    "\<And>i. i \<in> set (map snd es) \<Longrightarrow> i = id_true \<or> i = id_false"
proof -
  let ?f = "\<lambda>i (l, u). (r_from_range_bounds R l u, i :: node_id)"
  define xs where "xs = map (?f id_true) (r_iter R r) @ map (?f id_false) (r_iter R (r_complement R r))"
  define es where "es = sort_by (\<lambda>(r1, _) (r2, _). the (compare_disjoint_range_start c R r1 r2)) xs"
  have set: "set es = set xs" by (simp add: es_def)
  have "r_bounding_range R x \<noteq> None" if "(x, i) \<in> set xs" for x i
    using that iter_segment by (auto simp: xs_def bounding_range_law)
  then have e: "\<not> list_ex (\<lambda>(x, _). r_bounding_range R x = None) xs" by (auto simp: list_ex_iff)
  have r: "from_range c R r = Some es"
    unfolding from_range_def Let_def xs_def [symmetric] es_def [symmetric] using e by simp
  have has: "\<exists>s\<in>set (r_iter R (if i = id_true then r else r_complement R r)). r_contains R x v \<longleftrightarrow> within key v s"
    and val: "i = id_true \<or> i = id_false" and sound: "r_contains R x v \<Longrightarrow> (i = id_true \<longleftrightarrow> r_contains R r v)"
    if "(x, i) \<in> set xs" "ok v" for x i v
  proof -
    have "\<exists>l u. (l, u) \<in> set (r_iter R (if i = id_true then r else r_complement R r)) \<and> x = r_from_range_bounds R l u \<and> (i = id_true \<or> i = id_false)"
      using that(1) by (auto simp: xs_def)
    then obtain l u where lu: "(l, u) \<in> set (r_iter R (if i = id_true then r else r_complement R r))" "x = r_from_range_bounds R l u" "i = id_true \<or> i = id_false"
      by blast
    then have c: "r_contains R x v \<longleftrightarrow> within key v (l, u)" using segment_range_contains [OF lu(1) that(2)] by simp
    then show "\<exists>s\<in>set (r_iter R (if i = id_true then r else r_complement R r)). r_contains R x v \<longleftrightarrow> within key v s" "i = id_true \<or> i = id_false"
      using lu(1,3) by blast+
    show "i = id_true \<longleftrightarrow> r_contains R r v" if "r_contains R x v"
      using that c lu(1,3) iter_law [OF \<open>ok v\<close>] complement_law [OF \<open>ok v\<close>] by (auto simp: list_ex_iff split: if_splits)
  qed
  have cover: "\<exists>x i. (x, i) \<in> set xs \<and> r_contains R x v" if v: "ok v" for v
  proof -
    let ?q = "if r_contains R r v then r else r_complement R r"
    have "r_contains R ?q v" using complement_law [OF v] by simp
    then obtain l u where lu: "(l, u) \<in> set (r_iter R ?q)" "within key v (l, u)" using iter_law [OF v] by (auto simp: list_ex_iff)
    then have "r_contains R (r_from_range_bounds R l u) v" using segment_range_contains [OF lu(1) v] by simp
    moreover have "(r_from_range_bounds R l u, if r_contains R r v then id_true else id_false) \<in> set xs"
      using lu(1) by (force simp: xs_def split: if_splits)
    ultimately show ?thesis by blast
  qed
  let ?D = "\<lambda>a b. \<forall>v. ok v \<longrightarrow> \<not> (r_contains R (fst a) v \<and> r_contains R (fst b) v)"
  have asc: "sorted_wrt ?D (map (?f i) (r_iter R q))" for i q
    unfolding sorted_wrt_map
  proof (rule sorted_wrt_mono_rel [OF _ iter_ascending])
    fix s t assume st: "s \<in> set (r_iter R q)" "t \<in> set (r_iter R q)"
      and lt: "\<forall>v w. ok v \<longrightarrow> ok w \<longrightarrow> within key v s \<longrightarrow> within key w t \<longrightarrow> key v < key w"
    have "\<not> (within key v s \<and> within key v t)" if "ok v" for v using lt that less_irrefl by blast
    then show "?D (?f i s) (?f i t)"
      using st segment_range_contains [of "fst s" "snd s" q] segment_range_contains [of "fst t" "snd t" q] by (cases s; cases t) simp
  qed
  have "?D a b" if a: "a \<in> set (map (?f id_true) (r_iter R r))" and b: "b \<in> set (map (?f id_false) (r_iter R (r_complement R r)))" for a b
  proof -
    have "snd a = id_true" "snd b = id_false" using a b by auto
    moreover have "(fst a, snd a) \<in> set xs" "(fst b, snd b) \<in> set xs" using a b by (auto simp: xs_def)
    ultimately show ?thesis using sound [of "fst a" "snd a"] sound [of "fst b" "snd b"] by auto
  qed
  then have "sorted_wrt ?D xs" unfolding xs_def sorted_wrt_append using asc by blast
  then have "sorted_wrt ?D es" unfolding es_def by (intro sorted_wrt_sort_by) auto
  then have p: "partitions ok (r_contains R) (map fst es)"
    using cover unfolding partitions_def sorted_wrt_map set_map set by (fastforce intro: rev_bexI)
  show thesis
  proof (rule that [OF r p])
    fix v assume v: "ok v"
    obtain x i where xi: "(x, i) \<in> set xs" "r_contains R x v" using cover [OF v] by blast
    then show "edge_target (\<lambda>x. r_contains R x v) es = Some (if r_contains R r v then id_true else id_false)"
      using partitions_unique [OF p v] set val [OF xi(1) v] sound [OF xi(1) v xi(2)] by auto
  next
    fix i assume "i \<in> set (map snd es)"
    then show "i = id_true \<or> i = id_false" by (auto simp: set xs_def)
  qed
qed

end

end
