(* ===== verification/Marker_Interner.thy ===== *)
theory Marker_Interner
  imports Marker_Conjunction
begin

text \<open>
  The interner with its caches and its exclusions: the markers of the exclusion table mean the pairs
  of values that no platform has, and conjunction is exact on the environments that can exist.
\<close>

section \<open>Expressions\<close>

text \<open>
  What the code promises about an operation that adds nodes to the interner: the store stays
  well-formed, the old nodes stay, the cache and the exclusions are untouched, only the variables \<open>V\<close>
  are new, and the result means \<open>Q\<close>.
\<close>

definition adds :: "('r, version, 'm) ranges_scheme \<Rightarrow> ('s, string, 'n) ranges_scheme \<Rightarrow> variable set \<Rightarrow> ('r, 's) interner
    \<Rightarrow> (valuation \<Rightarrow> bool) \<Rightarrow> node_id \<times> ('r, 's) interner \<Rightarrow> bool" where
  "adds R S V st Q res \<longleftrightarrow> (\<forall>W. vars_in W (i_nodes st) \<longrightarrow> V \<subseteq> W \<longrightarrow> vars_in W (i_nodes (snd res))) \<and> store_wf R S (snd res) \<and> prefix (i_nodes st) (i_nodes (snd res)) \<and> i_cache (snd res) = i_cache st
     \<and> i_exclusions (snd res) = i_exclusions st \<and> valid (i_nodes (snd res)) (fst res)
     \<and> (\<forall>val. val_ok val \<longrightarrow> sem R S (i_nodes (snd res)) val (fst res) = Q val)"

text \<open>Children that are constants.\<close>

lemma create_constant_children:
  assumes "store_wf R S st" "edges_wf R S var children" "\<And>i. i \<in> set (edge_nodes children) \<Longrightarrow> i = id_true \<or> i = id_false"
    "\<And>val. val_ok val \<Longrightarrow> target R S val var children = Some (if Q val then id_true else id_false)"
  shows "\<exists>res. create_node var children st = Some res \<and> adds R S {var} st Q res"
proof -
  have "list_all (\<lambda>c. valid (i_nodes st) c \<and> beyond (i_nodes st) var c) (edge_nodes children)"
    using assms(3) by (fastforce simp: list_all_iff)
  from create_node_wf [OF assms(1,2) this] obtain i st' where c: "create_node var children st = Some (i, st')"
    "store_wf R S st'" "prefix (i_nodes st) (i_nodes st')" "i_cache st' = i_cache st" "i_exclusions st' = i_exclusions st" "valid (i_nodes st') i"
    and t: "\<And>val. val_ok val \<Longrightarrow> \<exists>c. target R S val var children = Some c \<and> c \<in> set (edge_nodes children)
       \<and> sem R S (i_nodes st') val i = sem R S (i_nodes st) val c"
    and vars: "\<And>W. vars_in W (i_nodes st) \<Longrightarrow> var \<in> W \<Longrightarrow> vars_in W (i_nodes st')" by metis
  have "sem R S (i_nodes st') val i = Q val" if "val_ok val" for val
    using t [OF that] assms(4) [OF that] by (auto split: if_splits)
  then show ?thesis using c vars by (simp add: adds_def)
qed

text \<open>The value of an expression, for the keys that are not versions.\<close>

definition string_holds :: "canonical_string \<Rightarrow> marker_operator \<Rightarrow> string \<Rightarrow> string \<Rightarrow> bool" where
  "string_holds key op s v \<longleftrightarrow>
    (let ordered = key = CsPlatformRelease \<or> key = CsPlatformVersion
     in case op of
          MEqual \<Rightarrow> v = s
        | MNotEqual \<Rightarrow> v \<noteq> s
        | MGreaterThan \<Rightarrow> ordered \<and> s < v
        | MGreaterEqual \<Rightarrow> (if ordered then s \<le> v else v = s)
        | MLessThan \<Rightarrow> ordered \<and> v < s
        | MLessEqual \<Rightarrow> (if ordered then v \<le> s else v = s)
        | _ \<Rightarrow> False)"

context marker_ranges
begin

lemma from_string_edges:
  assumes "op \<in> {MEqual, MNotEqual, MGreaterThan, MGreaterEqual, MLessThan, MLessEqual}"
  shows "\<exists>es. (from_string S key op s :: ('r, 's) edges option) = Some (Strings es) \<and> partitions (\<lambda>_. True) (r_contains S) (map fst es)
    \<and> (\<forall>v. edge_target (\<lambda>x. r_contains S x v) es = Some (if string_holds key op s v then id_true else id_false))
    \<and> (\<forall>i\<in>set (map snd es). i = id_true \<or> i = id_false)"
proof -
  define r where "r = (case op of
      MGreaterThan \<Rightarrow> if key = CsPlatformRelease \<or> key = CsPlatformVersion then r_strictly_higher_than S s else r_empty S
    | MGreaterEqual \<Rightarrow> if key = CsPlatformRelease \<or> key = CsPlatformVersion then r_higher_than S s else r_singleton S s
    | MLessThan \<Rightarrow> if key = CsPlatformRelease \<or> key = CsPlatformVersion then r_strictly_lower_than S s else r_empty S
    | MLessEqual \<Rightarrow> if key = CsPlatformRelease \<or> key = CsPlatformVersion then r_lower_than S s else r_singleton S s
    | MEqual \<Rightarrow> r_singleton S s
    | _ \<Rightarrow> r_complement S (r_singleton S s))"
  have f: "(from_string S key op s :: ('r, 's) edges option) = do { es \<leftarrow> from_range cmp S r; Some (Strings es) }"
    using assms by (auto simp: from_string_def r_def Let_def)
  have h: "r_contains S r v \<longleftrightarrow> string_holds key op s v" for v
    using assms by (auto simp: r_def string_holds_def Let_def strings.singleton_law strings.complement_law strings.higher_than_law
      strings.strictly_higher_than_law strings.lower_than_law strings.strictly_lower_than_law strings.empty_law)
  obtain es where es: "from_range cmp S r = Some es" "partitions (\<lambda>_. True) (r_contains S) (map fst es)"
    "\<And>v. edge_target (\<lambda>x. r_contains S x v) es = Some (if r_contains S r v then id_true else id_false)"
    "\<And>i. i \<in> set (map snd es) \<Longrightarrow> i = id_true \<or> i = id_false"
    by (rule strings.from_range_edges [of cmp r]) simp_all
  show ?thesis
    by (rule exI [of _ es]) (use es f h in \<open>simp add: Ball_def\<close>)
qed

lemma string_expression:
  assumes "store_wf R S st" "op \<in> {MEqual, MNotEqual, MGreaterThan, MGreaterEqual, MLessThan, MLessEqual}"
    "normalize_platform key s = (key', s')"
  shows "\<exists>res. expression R S (EString key op s) st = Some res \<and> adds R S {VString key'} st (\<lambda>val. string_holds key' op s' (val_string val key')) res"
proof -
  obtain es where es: "(from_string S key' op s' :: ('r, 's) edges option) = Some (Strings es)" "partitions (\<lambda>_. True) (r_contains S) (map fst es)"
    "\<forall>v. edge_target (\<lambda>x. r_contains S x v) es = Some (if string_holds key' op s' v then id_true else id_false)"
    "\<forall>i\<in>set (map snd es). i = id_true \<or> i = id_false"
    using from_string_edges [OF assms(2), of key' s'] by blast
  have c: "\<exists>res. create_node (VString key') (Strings es) st = Some res \<and> adds R S {VString key'} st (\<lambda>val. string_holds key' op s' (val_string val key')) res"
    by (rule create_constant_children [OF assms(1)]) (use es in auto)
  have "expression R S (EString key op s) st = create_node (VString key') (Strings es) st"
    using assms(2,3) es(1) by (auto simp: expression_def expression_edges_def)
  then show ?thesis using c by simp
qed

end

section \<open>Known incompatible markers\<close>

text \<open>The pairs of values that no platform has, as a predicate on environments.\<close>

definition incompatible_pairs :: "((canonical_string \<times> string) \<times> canonical_string \<times> string) list" where
  "incompatible_pairs =
    [((CsOsName, ''nt''), CsSysPlatform, ''linux''), ((CsOsName, ''nt''), CsSysPlatform, ''darwin''),
     ((CsOsName, ''nt''), CsSysPlatform, ''ios''), ((CsOsName, ''posix''), CsSysPlatform, ''win32'')]
    @ filter (\<lambda>((_, p), _, s). \<not> (s = ''ios'' \<and> (p = ''iOS'' \<or> p = ''iPadOS'')))
       (concat (map (\<lambda>p. map (\<lambda>s. ((CsPlatformSystem, p), CsSysPlatform, s))
          [''aix'', ''android'', ''emscripten'', ''ios'', ''linux'', ''darwin'', ''win32'', ''cygwin'', ''wasi''])
          [''FreeBSD'', ''NetBSD'', ''OpenBSD'', ''SunOS'', ''iOS'', ''iPadOS'']))"

definition known_incompatible :: "valuation \<Rightarrow> bool" where
  "known_incompatible val \<longleftrightarrow> list_ex (\<lambda>((k, a), k', b). val_string val k = a \<and> val_string val k' = b) incompatible_pairs"

lemma adds_trans:
  assumes "adds R S V st Q (i, st1)" "store_wf R S st2" "prefix (i_nodes st1) (i_nodes st2)" "i_cache st2 = i_cache st1" "i_exclusions st2 = i_exclusions st1"
    "\<And>W. vars_in W (i_nodes st1) \<Longrightarrow> V' \<subseteq> W \<Longrightarrow> vars_in W (i_nodes st2)"
  shows "adds R S (V \<union> V') st Q (i, st2)"
proof -
  have v: "valid (i_nodes st1) i" "prefix (i_nodes st) (i_nodes st1)" using assms(1) by (simp_all add: adds_def)
  have "prefix (i_nodes st) (i_nodes st2)" using v(2) assms(3) by (rule prefix_order.trans)
  moreover have "valid (i_nodes st2) i" using valid_prefix [OF assms(3) v(1)] .
  ultimately show ?thesis using assms(1,2,4-6) sem_prefix [OF assms(3) v(1), of R S] by (auto simp: adds_def)
qed

context marker_ranges
begin

lemma expressions_adds:
  assumes "store_wf R S st" "list_all (\<lambda>(k, s). normalize_platform k s = (canonical_of k, s)) ms"
  shows "\<exists>ids st'. expressions R S (map (\<lambda>(k, s). EString k MEqual s) ms) st = Some (ids, st') \<and> store_wf R S st'
    \<and> prefix (i_nodes st) (i_nodes st') \<and> i_cache st' = i_cache st \<and> i_exclusions st' = i_exclusions st
    \<and> (\<forall>W. vars_in W (i_nodes st) \<longrightarrow> (\<lambda>(k, _). VString (canonical_of k)) ` set ms \<subseteq> W \<longrightarrow> vars_in W (i_nodes st'))
    \<and> list_all2 (\<lambda>i (k, s). adds R S UNIV st (\<lambda>val. val_string val (canonical_of k) = s) (i, st')) ids ms"
  using assms
proof (induction ms arbitrary: st)
  case (Cons m ms)
  obtain k s where m: "m = (k, s)" by (cases m)
  obtain i st1 where i: "expression R S (EString k MEqual s) st = Some (i, st1)"
    "adds R S {VString (canonical_of k)} st (\<lambda>val. val_string val (canonical_of k) = s) (i, st1)"
    using string_expression [OF Cons.prems(1), of MEqual k s "canonical_of k" s] Cons.prems(2) by (auto simp: m string_holds_def)
  have w1: "store_wf R S st1" "prefix (i_nodes st) (i_nodes st1)" "i_cache st1 = i_cache st" "i_exclusions st1 = i_exclusions st"
    using i(2) by (simp_all add: adds_def)
  obtain ids st' where r: "expressions R S (map (\<lambda>(k, s). EString k MEqual s) ms) st1 = Some (ids, st')" "store_wf R S st'"
    "prefix (i_nodes st1) (i_nodes st')" "i_cache st' = i_cache st1" "i_exclusions st' = i_exclusions st1"
    "list_all2 (\<lambda>i (k, s). adds R S UNIV st1 (\<lambda>val. val_string val (canonical_of k) = s) (i, st')) ids ms"
    and vars: "\<And>W. vars_in W (i_nodes st1) \<Longrightarrow> (\<lambda>(k, _). VString (canonical_of k)) ` set ms \<subseteq> W \<Longrightarrow> vars_in W (i_nodes st')"
    using Cons.IH [OF w1(1)] Cons.prems(2) by auto
  have p: "prefix (i_nodes st) (i_nodes st')" using w1(2) r(3) by (rule prefix_order.trans)
  have "list_all2 (\<lambda>i (k, s). adds R S UNIV st (\<lambda>val. val_string val (canonical_of k) = s) (i, st')) ids ms"
    using r(6) by (rule list_all2_mono) (auto simp: adds_def p w1(3,4) vars_in_def)
  moreover have "adds R S ({VString (canonical_of k)} \<union> UNIV) st (\<lambda>val. val_string val (canonical_of k) = s) (i, st')"
    by (rule adds_trans [OF i(2) r(2-5)]) (auto simp: vars_in_def)
  moreover have "vars_in W (i_nodes st')"
    if "vars_in W (i_nodes st)" "(\<lambda>(k, _). VString (canonical_of k)) ` set (m # ms) \<subseteq> W" for W
    using that i(2) by (intro vars) (auto simp: m adds_def)
  ultimately show ?case using i(1) r(1,2,4,5) p w1(3,4) by (simp add: m)
qed simp

lemma exclude_pairs_mean:
  assumes "conj_state R S W C E s" "valid (snd_nodes s) tree" "list_all (\<lambda>(a, b). valid (snd_nodes s) a \<and> valid (snd_nodes s) b) ps"
  shows "yields R S val_ok snd_nodes (conj_state R S W C E) s (\<lambda>_. False)
    (\<lambda>val. sem R S (snd_nodes s) val tree \<or> list_ex (\<lambda>(a, b). sem R S (snd_nodes s) val a \<and> sem R S (snd_nodes s) val b) ps)
    (exclude_pairs R S ps tree s)"
  using assms
proof (induction ps arbitrary: tree s)
  case Nil
  then show ?case by (auto simp: yields_def)
next
  case (Cons q ps)
  obtain a b where q: "q = (a, b)" by (cases q)
  note v = Cons.prems(3) [unfolded q, simplified]
  obtain i s1 where c: "conjunction R S a b s = Some (i, s1)" "conj_state R S W C E s1" "prefix (snd_nodes s) (snd_nodes s1)" "valid (snd_nodes s1) i"
    "\<And>val. val_ok val \<Longrightarrow> sem R S (snd_nodes s1) val i = (sem R S (snd_nodes s) val a \<and> sem R S (snd_nodes s) val b)"
    using conjunction_yields [OF Cons.prems(1), of a b] v by (auto simp: yields_def)
  have t1: "valid (snd_nodes s1) tree" using valid_prefix [OF c(3) Cons.prems(2)] .
  obtain t s2 where d: "disjunction R S tree i s1 = Some (t, s2)" "conj_state R S W C E s2" "prefix (snd_nodes s1) (snd_nodes s2)" "valid (snd_nodes s2) t"
    "\<And>val. val_ok val \<Longrightarrow> sem R S (snd_nodes s2) val t = (sem R S (snd_nodes s1) val tree \<or> sem R S (snd_nodes s1) val i)"
    using disjunction_yields [OF c(2) t1 c(4)] by (auto simp: yields_def)
  have p: "prefix (snd_nodes s) (snd_nodes s2)" using c(3) d(3) by (rule prefix_order.trans)
  have "list_all (\<lambda>(a, b). valid (snd_nodes s2) a \<and> valid (snd_nodes s2) b) ps"
    using v valid_prefix [OF p] by (auto simp: list_all_iff)
  from Cons.IH [OF d(2,4) this]
  obtain t' s3 where e: "exclude_pairs R S ps t s2 = Some (t', s3)" "conj_state R S W C E s3" "prefix (snd_nodes s2) (snd_nodes s3)" "valid (snd_nodes s3) t'"
    and es: "\<And>val. val_ok val \<Longrightarrow> sem R S (snd_nodes s3) val t' = (sem R S (snd_nodes s2) val t \<or>
        list_ex (\<lambda>(a, b). sem R S (snd_nodes s2) val a \<and> sem R S (snd_nodes s2) val b) ps)"
    by (auto simp: yields_def)
  have "list_ex (\<lambda>(a, b). sem R S (snd_nodes s2) val a \<and> sem R S (snd_nodes s2) val b) ps
    \<longleftrightarrow> list_ex (\<lambda>(a, b). sem R S (snd_nodes s) val a \<and> sem R S (snd_nodes s) val b) ps" for val
    using v by (intro list_ex_cong refl) (auto simp: list_all_iff sem_prefix [OF p])
  then have "sem R S (snd_nodes s3) val t' = (sem R S (snd_nodes s) val tree
      \<or> list_ex (\<lambda>(a, b). sem R S (snd_nodes s) val a \<and> sem R S (snd_nodes s) val b) (q # ps))" if "val_ok val" for val
    using es [OF that] d(5) [OF that] c(5) [OF that] sem_prefix [OF c(3) Cons.prems(2), of R S val] by (auto simp: q)
  moreover have "prefix (snd_nodes s) (snd_nodes s3)" using p e(3) by (rule prefix_order.trans)
  ultimately show ?case using c(1) d(1) e(1,2,4) by (simp add: yields_def q)
qed

end

text \<open>
  The invariant of the interner: a well-formed store, a cache of conjunctions that agree with the
  conjunction on every environment that can exist, and exclusions that mean the incompatible pairs.
\<close>

definition possible :: "valuation \<Rightarrow> bool" where
  "possible val \<longleftrightarrow> val_ok val \<and> \<not> known_incompatible val"

definition exclusions_ok :: "('r, version, 'm) ranges_scheme \<Rightarrow> ('s, string, 'n) ranges_scheme \<Rightarrow> ('r, 's) interner \<Rightarrow> bool" where
  "exclusions_ok R S st \<longleftrightarrow> (\<forall>e. i_exclusions st = Some e \<longrightarrow>
     valid (i_nodes st) e \<and> (\<forall>val. val_ok val \<longrightarrow> sem R S (i_nodes st) val e = known_incompatible val))"

definition interner_ok :: "('r, version, 'm) ranges_scheme \<Rightarrow> ('s, string, 'n) ranges_scheme \<Rightarrow> ('r, 's) interner \<Rightarrow> bool" where
  "interner_ok R S st \<longleftrightarrow> store_wf R S st \<and> cache_ok R S possible (i_nodes st) (i_cache st) \<and> exclusions_ok R S st"

definition interner_in :: "('r, version, 'm) ranges_scheme \<Rightarrow> ('s, string, 'n) ranges_scheme \<Rightarrow> variable set \<Rightarrow> ('r, 's) interner \<Rightarrow> bool" where
  "interner_in R S W st \<longleftrightarrow> interner_ok R S st \<and> vars_in W (i_nodes st)"

lemma exclusions_ok_prefix:
  assumes "exclusions_ok R S st" "prefix (i_nodes st) (i_nodes st')" "i_exclusions st' = i_exclusions st"
  shows "exclusions_ok R S st'"
  using assms valid_prefix [OF assms(2)] sem_prefix [OF assms(2)] unfolding exclusions_ok_def by metis

lemma interner_ok_extend:
  assumes "interner_ok R S st" "store_wf R S st'" "prefix (i_nodes st) (i_nodes st')" "i_cache st' = i_cache st" "i_exclusions st' = i_exclusions st"
  shows "interner_ok R S st'"
  using assms cache_ok_prefix exclusions_ok_prefix unfolding interner_ok_def by metis

lemma interner_default_ok: "interner_ok R S interner_default"
  by (simp add: interner_ok_def interner_default_def store_wf_def nodes_wf_def unique_wf_def exclusions_ok_def)

lemma possible_ok: "possible val \<Longrightarrow> val_ok val"
  by (simp add: possible_def)

text \<open>Different markers of the table have different identifiers.\<close>

lemma list_all2_nth: "list_all2 P xs ys \<Longrightarrow> j < length ys \<Longrightarrow> P (xs ! j) (ys ! j)"
  by (simp add: list_all2_conv_all_nth)

definition sample_valuation :: "canonical_string \<Rightarrow> string \<Rightarrow> valuation" where
  "sample_valuation k s = \<lparr>val_version = (\<lambda>_. Small small_new), val_string = (\<lambda>k'. if k' = k then s else ''''), val_bool = (\<lambda>_. False)\<rparr>"

lemma adds_distinct:
  assumes "adds R S V st (\<lambda>val. val_string val k = s) (i, st')" "adds R S V st (\<lambda>val. val_string val k' = s') (j, st')" "s \<noteq> s'" "s' \<noteq> ''''"
  shows "i \<noteq> j"
proof
  assume "i = j"
  have v: "val_ok (sample_valuation k s)" "val_string (sample_valuation k s) k = s" "val_string (sample_valuation k s) k' \<noteq> s'"
    using assms(3,4) wf_small_new by (auto simp: val_ok_def sample_valuation_def)
  then show False using assms(1,2) \<open>i = j\<close> unfolding adds_def by (metis fst_conv snd_conv)
qed

definition exclusion_vars :: "variable set" where
  "exclusion_vars = {VString CsOsName, VString CsSysPlatform, VString CsPlatformSystem}"

lemma exclusion_vars_eq: "exclusion_vars = (\<lambda>(k, _). VString (canonical_of k)) ` set exclusion_markers"
  by (auto simp: exclusion_vars_def exclusion_markers_def)

lemma exclusion_markers_plain: "list_all (\<lambda>(k, s). normalize_platform k s = (canonical_of k, s)) exclusion_markers"
  by code_simp

context marker_ranges
begin

lemma exclusion_pairs_mean:
  assumes "list_all2 (\<lambda>i (k, s). adds R S UNIV st (\<lambda>val. val_string val (canonical_of k) = s) (i, st')) ids exclusion_markers"
  shows "list_all (\<lambda>(a, b). valid (i_nodes st') a \<and> valid (i_nodes st') b) (exclusion_pairs ids)"
    "val_ok val \<Longrightarrow> list_ex (\<lambda>(a, b). sem R S (i_nodes st') val a \<and> sem R S (i_nodes st') val b) (exclusion_pairs ids) \<longleftrightarrow> known_incompatible val"
proof -
  have a: "adds R S UNIV st (\<lambda>val. val_string val (canonical_of (fst (exclusion_markers ! j))) = snd (exclusion_markers ! j)) (ids ! j, st')"
    if "j < 17" for j
    using list_all2_nth [OF assms, of j] that by (simp add: exclusion_markers_def split: prod.splits)
  have len: "length exclusion_markers = 17" by (simp add: exclusion_markers_def)
  have v: "valid (i_nodes st') (ids ! j)" if "j < 17" for j using a [OF that] by (simp add: adds_def)
  have s: "sem R S (i_nodes st') val (ids ! j) \<longleftrightarrow> val_string val (canonical_of (fst (exclusion_markers ! j))) = snd (exclusion_markers ! j)"
    if "j < 17" "val_ok val" for j val
    using a [OF that(1)] that(2) by (simp add: adds_def)
  have d: "ids ! j \<noteq> ids ! l" if "j < 17" "l < 17" "snd (exclusion_markers ! j) \<noteq> snd (exclusion_markers ! l)" "snd (exclusion_markers ! l) \<noteq> ''''" for j l
    using adds_distinct [OF a [OF that(1)] a [OF that(2)] that(3,4)] .
  have ne: "ids ! j \<noteq> ids ! 4" if "j \<in> {2, 3, 5, 12, 13, 14, 15, 16}" for j
    using that by (intro d) (auto simp: exclusion_markers_def)
  have np: "ids ! j \<noteq> ids ! 10" "ids ! j \<noteq> ids ! 11" if "j \<in> {6, 7, 8, 9}" for j
    using that by (intro d; auto simp: exclusion_markers_def)+
  have ps: "exclusion_pairs ids =
    map (map_prod ((!) ids) ((!) ids)) ([(0, 2), (0, 3), (0, 4), (1, 5)]
      @ concat (map (\<lambda>p. map (Pair p) [12, 13, 14, 4, 2, 3, 5, 15, 16]) [6, 7, 8, 9])
      @ concat (map (\<lambda>p. map (Pair p) [12, 13, 14, 2, 3, 5, 15, 16]) [10, 11]))"
    using ne np by (simp add: exclusion_pairs_def)
  show "list_all (\<lambda>(a, b). valid (i_nodes st') a \<and> valid (i_nodes st') b) (exclusion_pairs ids)"
    unfolding ps by (simp add: v)
  show "list_ex (\<lambda>(a, b). sem R S (i_nodes st') val a \<and> sem R S (i_nodes st') val b) (exclusion_pairs ids) \<longleftrightarrow> known_incompatible val"
    if "val_ok val"
    unfolding ps known_incompatible_def incompatible_pairs_def
    by (simp add: s [OF _ that] exclusion_markers_def)
qed

lemma exclusions_mean:
  assumes "interner_ok R S st"
  obtains e st' where "exclusions R S st = Some (e, st')" "interner_ok R S st'" "prefix (i_nodes st) (i_nodes st')"
    "valid (i_nodes st') e" "\<And>val. val_ok val \<Longrightarrow> sem R S (i_nodes st') val e = known_incompatible val" "i_cache st' = i_cache st"
    "\<And>W. vars_in W (i_nodes st) \<Longrightarrow> exclusion_vars \<subseteq> W \<Longrightarrow> vars_in W (i_nodes st')"
proof (cases "i_exclusions st")
  case (Some e)
  then have "valid (i_nodes st) e \<and> (\<forall>val. val_ok val \<longrightarrow> sem R S (i_nodes st) val e = known_incompatible val)"
    using assms by (simp add: interner_ok_def exclusions_ok_def)
  then show thesis using that [of e st] Some assms by (simp add: exclusions_def)
next
  case None
  have w: "store_wf R S st" using assms by (simp add: interner_ok_def)
  obtain ids st1 where r: "expressions R S (map (\<lambda>(k, s). EString k MEqual s) exclusion_markers) st = Some (ids, st1)" "store_wf R S st1"
    "prefix (i_nodes st) (i_nodes st1)" "i_cache st1 = i_cache st" "i_exclusions st1 = i_exclusions st"
    "list_all2 (\<lambda>i (k, s). adds R S UNIV st (\<lambda>val. val_string val (canonical_of k) = s) (i, st1)) ids exclusion_markers"
    and rv: "\<And>W. vars_in W (i_nodes st) \<Longrightarrow> exclusion_vars \<subseteq> W \<Longrightarrow> vars_in W (i_nodes st1)"
    using expressions_adds [OF w exclusion_markers_plain] unfolding exclusion_vars_eq by blast
  note pm = exclusion_pairs_mean [OF r(6)]
  have cs: "conj_state R S (n_var ` set (i_nodes st1)) (i_cache st) (i_exclusions st) (Map.empty, st1)"
    using r(2,4,5) by (simp add: conj_state_def vars_in_def)
  obtain t cache st2 where x: "exclude_pairs R S (exclusion_pairs ids) id_false (Map.empty, st1) = Some (t, cache, st2)"
    "conj_state R S (n_var ` set (i_nodes st1)) (i_cache st) (i_exclusions st) (cache, st2)" "prefix (i_nodes st1) (i_nodes st2)" "valid (i_nodes st2) t"
    "\<And>val. val_ok val \<Longrightarrow> sem R S (i_nodes st2) val t = known_incompatible val"
    using exclude_pairs_mean [OF cs, of id_false "exclusion_pairs ids"] pm by (auto simp: yields_def)
  let ?st = "st2\<lparr>i_exclusions := Some t\<rparr>"
  have p: "prefix (i_nodes st) (i_nodes st2)" using r(3) x(3) by (rule prefix_order.trans)
  have w2: "store_wf R S st2" "i_cache st2 = i_cache st" using x(2) by (simp_all add: conj_state_def)
  have "store_wf R S ?st" using w2(1) by (simp add: store_wf_def unique_wf_def)
  moreover have "cache_ok R S possible (i_nodes ?st) (i_cache ?st)"
    using assms cache_ok_prefix [OF _ p, of R S possible "i_cache st"] w2(2) by (simp add: interner_ok_def)
  ultimately have "interner_ok R S ?st" using x(4,5) by (simp add: interner_ok_def exclusions_ok_def)
  moreover have "exclusions R S st = Some (t, ?st)" using None r(1) x(1) by (simp add: exclusions_def)
  moreover have "vars_in W (i_nodes st2)" if "vars_in W (i_nodes st)" "exclusion_vars \<subseteq> W" for W
    using rv [OF that] x(2) unfolding conj_state_def vars_in_def by (blast dest: subset_trans)
  ultimately show thesis using that [of t ?st] p x(4,5) w2(2) by simp
qed

section \<open>Conjunction under the known incompatibilities\<close>

lemma drop_excluded_mean:
  assumes "interner_ok R S st" "valid (i_nodes st) i"
  obtains i' st' where "drop_excluded R S conflicts i st = Some (i', st')" "interner_ok R S st'" "prefix (i_nodes st) (i_nodes st')"
    "valid (i_nodes st') i'" "\<And>v. beyond (i_nodes st') v i \<Longrightarrow> beyond (i_nodes st') v i'" "i_cache st' = i_cache st"
    "\<And>val. possible val \<Longrightarrow> sem R S (i_nodes st') val i' = sem R S (i_nodes st) val i"
    "\<And>W. vars_in W (i_nodes st) \<Longrightarrow> exclusion_vars \<subseteq> W \<Longrightarrow> vars_in W (i_nodes st')"
proof (cases conflicts)
  case True
  obtain e st1 where e: "exclusions R S st = Some (e, st1)" "interner_ok R S st1" "prefix (i_nodes st) (i_nodes st1)" "valid (i_nodes st1) e"
    "\<And>val. val_ok val \<Longrightarrow> sem R S (i_nodes st1) val e = known_incompatible val" "i_cache st1 = i_cache st"
    "\<And>W. vars_in W (i_nodes st) \<Longrightarrow> exclusion_vars \<subseteq> W \<Longrightarrow> vars_in W (i_nodes st1)"
    using exclusions_mean [OF assms(1)] by blast
  have w: "nodes_wf R S (i_nodes st1)" using e(2) by (simp add: interner_ok_def store_wf_def)
  have v: "valid (i_nodes st1) i" using valid_prefix [OF e(3) assms(2)] .
  have "\<exists>b. disjointness R S i (id_not e) st1 = Some b
      \<and> (b \<longrightarrow> (\<forall>val. val_ok val \<longrightarrow> \<not> (sem R S (i_nodes st1) val i \<and> sem R S (i_nodes st1) val (id_not e))))"
    unfolding disjointness_def by (rule disjointness_fuel_sound [OF w _ v]) (simp_all add: e(4))
  then obtain b where b: "disjointness R S i (id_not e) st1 = Some b"
    "b \<Longrightarrow> val_ok val \<Longrightarrow> \<not> (sem R S (i_nodes st1) val i \<and> sem R S (i_nodes st1) val (id_not e))" for val by blast
  have "sem R S (i_nodes st1) val (if b then id_false else i) = sem R S (i_nodes st) val i" if "possible val" for val
    using b(2) [of val] e(5) [of val] sem_not [OF w e(4), of val] sem_prefix [OF e(3) assms(2), of R S val] that by (auto simp: possible_def)
  then show thesis using that [of "if b then id_false else i" st1] e b(1) v True by (simp add: drop_excluded_def)
next
  case False
  then show thesis using that [of i st] assms by (simp add: drop_excluded_def)
qed

lemma and_conjoins:
  assumes "exclusion_vars \<subseteq> W"
  shows "conjoins R S possible i_nodes (interner_in R S W) n (and_fuel n R S)"
proof (induction n)
  case 0
  then show ?case by (simp add: conjoins_def)
next
  case (Suc n)
  show ?case unfolding conjoins_def
  proof (intro allI impI)
    fix xi yi and st :: "('r, 's) interner"
    assume n: "xi + yi < Suc n" and I: "interner_in R S W st" and v: "valid (i_nodes st) xi" "valid (i_nodes st) yi"
    have w: "nodes_wf R S (i_nodes st)" using I by (simp add: interner_in_def interner_ok_def store_wf_def)
    let ?B = "\<lambda>v. beyond (i_nodes st) v xi \<and> beyond (i_nodes st) v yi"
    let ?Q = "\<lambda>val. sem R S (i_nodes st) val xi \<and> sem R S (i_nodes st) val yi"
    show "yields R S possible i_nodes (interner_in R S W) st ?B ?Q (and_fuel (Suc n) R S xi yi st)"
    proof (cases "and_shortcut xi yi")
      case (Some i)
      have "yields R S possible i_nodes (interner_in R S W) st ?B ?Q (Some (i, st))"
        using and_shortcut_sound [OF w v Some] I by (intro yields_known) (simp_all add: possible_ok)
      then show ?thesis using Some by simp
    next
      case None
      show ?thesis
      proof (cases "i_cache st (xi, yi)")
        case (Some i)
        have "yields R S possible i_nodes (interner_in R S W) st ?B ?Q (Some (i, st))"
          using I Some by (intro yields_known) (auto simp: interner_in_def interner_ok_def cache_ok_def)
        then show ?thesis using Some None by simp
      next
        case nc: None
        have ge: "\<not> xi < 2" "\<not> yi < 2" using and_shortcut_None [OF None] by auto
        have "xi + yi \<le> n" using n by simp
        from shannon_mean [where N = i_nodes and I = "interner_in R S W" and G = possible, OF I w Suc.IH this v ge possible_ok]
        obtain var children st1 where sh: "shannon R S (and_fuel n R S) xi (i_nodes st ! node_index xi) yi (i_nodes st ! node_index yi) st
            = Some ((var, children), st1)" "expands R S possible i_nodes (interner_in R S W) (i_nodes st) xi yi var children st1" by blast
        have w1: "interner_ok R S st1" "store_wf R S st1" "vars_in W (i_nodes st1)" using sh(2) by (simp_all add: expands_def interner_in_def interner_ok_def)
        obtain i st2 where c: "create_node var children st1 = Some (i, st2)" "store_wf R S st2" "prefix (i_nodes st1) (i_nodes st2)"
          "i_cache st2 = i_cache st1" "i_exclusions st2 = i_exclusions st1" "valid (i_nodes st2) i"
          and p: "prefix (i_nodes st) (i_nodes st2)"
          and b: "\<And>v. beyond (i_nodes st) v xi \<Longrightarrow> beyond (i_nodes st) v yi \<Longrightarrow> beyond (i_nodes st2) v i"
          and sem: "\<And>val. possible val \<Longrightarrow> sem R S (i_nodes st2) val i = (sem R S (i_nodes st) val xi \<and> sem R S (i_nodes st) val yi)"
          and vars: "vars_in W (i_nodes st2)"
          by (rule expands_create [OF sh(2) w1(2)]) (simp_all add: possible_ok w1(3))
        have I2: "interner_ok R S st2" by (rule interner_ok_extend [OF w1(1) c(2-5)])
        let ?conf = "is_conflicting_variable (n_var (i_nodes st ! node_index xi)) \<and> is_conflicting_variable (n_var (i_nodes st ! node_index yi))"
        obtain i' st3 where d: "drop_excluded R S ?conf i st2 = Some (i', st3)" "interner_ok R S st3" "prefix (i_nodes st2) (i_nodes st3)"
          "valid (i_nodes st3) i'" "\<And>v. beyond (i_nodes st3) v i \<Longrightarrow> beyond (i_nodes st3) v i'" "i_cache st3 = i_cache st2"
          "\<And>val. possible val \<Longrightarrow> sem R S (i_nodes st3) val i' = sem R S (i_nodes st2) val i"
          "\<And>W. vars_in W (i_nodes st2) \<Longrightarrow> exclusion_vars \<subseteq> W \<Longrightarrow> vars_in W (i_nodes st3)"
          using drop_excluded_mean [where conflicts = ?conf, OF I2 c(6)] by blast
        have p3: "prefix (i_nodes st) (i_nodes st3)" using p d(3) by (rule prefix_order.trans)
        have b3: "beyond (i_nodes st3) v i'" if "beyond (i_nodes st) v xi" "beyond (i_nodes st) v yi" for v
          using d(5) b [OF that] beyond_prefix [OF d(3) c(6)] by blast
        let ?st = "st3\<lparr>i_cache := (i_cache st3)((xi, yi) \<mapsto> i')\<rparr>"
        have "cache_ok R S possible (i_nodes st3) ((i_cache st3)((xi, yi) \<mapsto> i'))"
          by (rule cache_ok_insert [OF _ valid_prefix [OF p3 v(1)] valid_prefix [OF p3 v(2)] d(4)])
            (use d(2) in \<open>simp_all add: interner_ok_def b3 sem d(7) sem_prefix [OF p3 v(1)] sem_prefix [OF p3 v(2)]
              beyond_prefix [OF p3 v(1)] beyond_prefix [OF p3 v(2)]\<close>)
        then have "interner_in R S W ?st" using d(2) d(8) [OF vars assms]
          by (simp add: interner_in_def interner_ok_def store_wf_def unique_wf_def exclusions_ok_def)
        moreover have "and_fuel (Suc n) R S xi yi st = Some (i', ?st)"
          using None nc sh(1) c(1) d(1) by (simp add: interner_node_valid v ge)
        ultimately show ?thesis unfolding yields_def using p3 d(4) b3 sem d(7) by simp
      qed
    qed
  qed
qed

lemma marker_and_yields:
  assumes "interner_in R S W st" "exclusion_vars \<subseteq> W" "valid (i_nodes st) xi" "valid (i_nodes st) yi"
  shows "yields R S possible i_nodes (interner_in R S W) st (\<lambda>v. beyond (i_nodes st) v xi \<and> beyond (i_nodes st) v yi)
    (\<lambda>val. sem R S (i_nodes st) val xi \<and> sem R S (i_nodes st) val yi) (marker_and R S xi yi st)"
  using and_conjoins [OF assms(2), of "Suc (xi + yi)"] assms unfolding conjoins_def marker_and_def by blast

lemma marker_or_yields:
  assumes "interner_in R S W st" "exclusion_vars \<subseteq> W" "valid (i_nodes st) xi" "valid (i_nodes st) yi"
  shows "yields R S possible i_nodes (interner_in R S W) st (\<lambda>v. beyond (i_nodes st) v xi \<and> beyond (i_nodes st) v yi)
    (\<lambda>val. sem R S (i_nodes st) val xi \<or> sem R S (i_nodes st) val yi) (marker_or R S xi yi st)"
proof -
  have w: "nodes_wf R S (i_nodes st)" using assms(1) by (simp add: interner_in_def interner_ok_def store_wf_def)
  obtain i st' where r: "marker_and R S (id_not xi) (id_not yi) st = Some (i, st')" "interner_in R S W st'"
    "prefix (i_nodes st) (i_nodes st')" "valid (i_nodes st') i"
    and b: "\<And>v. beyond (i_nodes st) v xi \<Longrightarrow> beyond (i_nodes st) v yi \<Longrightarrow> beyond (i_nodes st') v i"
    and s: "\<And>val. possible val \<Longrightarrow> sem R S (i_nodes st') val i = (sem R S (i_nodes st) val (id_not xi) \<and> sem R S (i_nodes st) val (id_not yi))"
    using marker_and_yields [OF assms(1,2), of "id_not xi" "id_not yi"] assms(3,4) by (auto simp: yields_def)
  have w': "nodes_wf R S (i_nodes st')" using r(2) by (simp add: interner_in_def interner_ok_def store_wf_def)
  have "sem R S (i_nodes st') val (id_not i) = (sem R S (i_nodes st) val xi \<or> sem R S (i_nodes st) val yi)" if "possible val" for val
    using s [OF that] sem_not [OF w' r(4) possible_ok [OF that]] sem_not [OF w assms(3) possible_ok [OF that]]
      sem_not [OF w assms(4) possible_ok [OF that]] by simp
  then show ?thesis using r b by (simp add: yields_def marker_or_def)
qed

lemma is_disjoint_mean:
  assumes "interner_in R S W st" "exclusion_vars \<subseteq> W" "valid (i_nodes st) xi" "valid (i_nodes st) yi"
  obtains b st' where "is_disjoint R S xi yi st = Some (b, st')" "interner_in R S W st'" "prefix (i_nodes st) (i_nodes st')"
    "\<And>val. b \<Longrightarrow> possible val \<Longrightarrow> \<not> (sem R S (i_nodes st) val xi \<and> sem R S (i_nodes st) val yi)"
proof (cases "disjoint_shortcut xi yi")
  case (Some b)
  have w: "nodes_wf R S (i_nodes st)" using assms(1) by (simp add: interner_in_def interner_ok_def store_wf_def)
  show thesis using that [of b st] Some assms disjoint_shortcut_sound [OF w assms(3)] possible_ok by (simp add: is_disjoint_def)
next
  case None
  have w: "nodes_wf R S (i_nodes st)" using assms(1) by (simp add: interner_in_def interner_ok_def store_wf_def)
  have ge: "\<not> xi < 2" "\<not> yi < 2" using disjoint_shortcut_None [OF None] by auto
  let ?x = "i_nodes st ! node_index xi" and ?y = "i_nodes st ! node_index yi"
  have n: "interner_node st xi = Some ?x" "interner_node st yi = Some ?y" using assms(3,4) ge by (simp_all add: interner_node_valid)
  show thesis
  proof (cases "is_conflicting_variable (n_var ?x) \<and> is_conflicting_variable (n_var ?y)")
    case True
    obtain i st' where r: "marker_and R S xi yi st = Some (i, st')" "interner_in R S W st'" "prefix (i_nodes st) (i_nodes st')"
      "\<And>val. possible val \<Longrightarrow> sem R S (i_nodes st') val i = (sem R S (i_nodes st) val xi \<and> sem R S (i_nodes st) val yi)"
      using marker_and_yields [OF assms] by (auto simp: yields_def)
    have "\<not> (sem R S (i_nodes st) val xi \<and> sem R S (i_nodes st) val yi)" if "i = id_false" "possible val" for val
      using r(4) [OF that(2)] that(1) by simp
    then show thesis using that [of "i = id_false" st'] r(1-3) n True None by (simp add: is_disjoint_def)
  next
    case False
    have "\<exists>r. shannon_disjoint R S (\<lambda>a b. disjointness R S a b st) xi ?x yi ?y = Some r
      \<and> (r \<longrightarrow> (\<forall>val. val_ok val \<longrightarrow> \<not> (sem R S (i_nodes st) val xi \<and> sem R S (i_nodes st) val yi)))"
      by (rule shannon_disjoint_sound [OF w assms(3,4) ge], unfold disjointness_def) (rule disjointness_fuel_sound [OF w]; simp)
    then obtain b where b: "shannon_disjoint R S (\<lambda>a b. disjointness R S a b st) xi ?x yi ?y = Some b"
      "b \<Longrightarrow> val_ok val \<Longrightarrow> \<not> (sem R S (i_nodes st) val xi \<and> sem R S (i_nodes st) val yi)" for val by blast
    have "is_disjoint R S xi yi st = Some (b, st)" using n False None b(1) by (auto simp: is_disjoint_def)
    then show thesis using that [of b st] assms(1) b(2) possible_ok by blast
  qed
qed

end

end
