(* ===== verification/Marker_Tree.thy ===== *)
theory Marker_Tree
  imports Marker_Ops
begin

text \<open>
  Marker trees (\<open>crates/uv-pep508/src/marker/tree.rs\<close>): the kind of the root node, evaluation in an
  environment, and evaluation with extras only. Warnings go to a reporter and do not change the
  result; they are left out.
\<close>

section \<open>The kind of a node\<close>

datatype ('r, 's) marker_kind =
  KTrue
| KFalse
| KindVersion canonical_version "('r \<times> node_id) list"
| KindString canonical_string "('s \<times> node_id) list"
| KindIn canonical_string string node_id node_id
| KindContains canonical_string string node_id node_id
| KindList list_pair node_id node_id
| KindExtra string node_id node_id

text \<open>The children of the kinds are the trees below the root: the complement of the root is pushed into them.\<close>

definition marker_kind_of :: "('r, 's) interner \<Rightarrow> node_id \<Rightarrow> ('r, 's) marker_kind option" where
  "marker_kind_of st i =
    (if i = id_true then Some KTrue
     else if i = id_false then Some KFalse
     else do {
       n \<leftarrow> interner_node st i;
       (case (n_var n, n_children n) of
          (VVersion key, Versions es) \<Rightarrow> Some (KindVersion key (map (\<lambda>(r, c). (r, id_negate c i)) es))
        | (VString key, Strings es) \<Rightarrow> Some (KindString key (map (\<lambda>(r, c). (r, id_negate c i)) es))
        | (VIn key s, Boolean high low) \<Rightarrow> Some (KindIn key s (id_negate high i) (id_negate low i))
        | (VContains key s, Boolean high low) \<Rightarrow> Some (KindContains key s (id_negate high i) (id_negate low i))
        | (VList pair, Boolean high low) \<Rightarrow> Some (KindList pair (id_negate high i) (id_negate low i))
        | (VExtra name, Boolean high low) \<Rightarrow> Some (KindExtra name (id_negate high i) (id_negate low i))
        | _ \<Rightarrow> None)
     })"

section \<open>Evaluation\<close>

text \<open>The first edge whose range contains the value; no such edge is \<open>false\<close>.\<close>

fun first_edge :: "('r \<Rightarrow> bool) \<Rightarrow> (node_id \<Rightarrow> bool option) \<Rightarrow> ('r \<times> node_id) list \<Rightarrow> bool option" where
  "first_edge has f [] = Some False"
| "first_edge has f ((r, c) # es) = (if has r then f c else first_edge has f es)"

primrec evaluate_fuel :: "nat \<Rightarrow> ('r, version, 'm) ranges_scheme \<Rightarrow> ('s, string, 'n) ranges_scheme \<Rightarrow> ('r, 's) interner
    \<Rightarrow> marker_environment \<Rightarrow> extras_environment \<Rightarrow> node_id \<Rightarrow> bool option" where
  "evaluate_fuel 0 R S st env extras = (\<lambda>i. None)"
| "evaluate_fuel (Suc fuel) R S st env extras = (\<lambda>i.
    (let rec = evaluate_fuel fuel R S st env extras
     in case marker_kind_of st i of
          None \<Rightarrow> None
        | Some KTrue \<Rightarrow> Some True
        | Some KFalse \<Rightarrow> Some False
        | Some (KindVersion key es) \<Rightarrow> first_edge (\<lambda>r. r_contains R r (get_version env key)) rec es
        | Some (KindString key es) \<Rightarrow> first_edge (\<lambda>r. r_contains S r (get_string env key)) rec es
        | Some (KindIn key s high low) \<Rightarrow> rec (if str_contains s (get_string env key) then high else low)
        | Some (KindContains key s high low) \<Rightarrow> rec (if str_contains (get_string env key) s then high else low)
        | Some (KindExtra name high low) \<Rightarrow> rec (if name \<in> set (env_extra extras) then high else low)
        | Some (KindList pair high low) \<Rightarrow>
            (case pair of
               PairExtras extra \<Rightarrow> rec (if extra \<in> set (env_extras extras) then high else low)
             | PairDependencyGroup name \<Rightarrow> rec (if name \<in> set (env_dependency_groups extras) then high else low)
             | PairArbitrary _ _ \<Rightarrow> Some False)))"

definition evaluate_reporter_impl where
  "evaluate_reporter_impl R S st env extras i = evaluate_fuel (Suc i) R S st env extras i"

definition evaluate where
  "evaluate R S st env extras i = evaluate_reporter_impl R S st env (FromExtras extras) i"

definition evaluate_pep751 where
  "evaluate_pep751 R S st env extras groups i = evaluate_reporter_impl R S st env (FromPep751 extras groups) i"

text \<open>A disjunction that stops at the first \<open>true\<close>, as \<open>Iterator::any\<close> does.\<close>

fun any_opt :: "('a \<Rightarrow> bool option) \<Rightarrow> 'a list \<Rightarrow> bool option" where
  "any_opt f [] = Some False"
| "any_opt f (x # xs) = do { b \<leftarrow> f x; if b then Some True else any_opt f xs }"

primrec evaluate_extras_fuel :: "nat \<Rightarrow> ('r, 's) interner \<Rightarrow> string list \<Rightarrow> node_id \<Rightarrow> bool option" where
  "evaluate_extras_fuel 0 st extras = (\<lambda>i. None)"
| "evaluate_extras_fuel (Suc fuel) st extras = (\<lambda>i.
    (let rec = evaluate_extras_fuel fuel st extras
     in case marker_kind_of st i of
          None \<Rightarrow> None
        | Some KTrue \<Rightarrow> Some True
        | Some KFalse \<Rightarrow> Some False
        | Some (KindVersion key es) \<Rightarrow> any_opt rec (map snd es)
        | Some (KindString key es) \<Rightarrow> any_opt rec (map snd es)
        | Some (KindIn key s high low) \<Rightarrow> any_opt rec [high, low]
        | Some (KindContains key s high low) \<Rightarrow> any_opt rec [high, low]
        | Some (KindList pair high low) \<Rightarrow> any_opt rec [high, low]
        | Some (KindExtra name high low) \<Rightarrow> rec (if name \<in> set extras then high else low)))"

definition evaluate_extras where
  "evaluate_extras st extras i = evaluate_extras_fuel (Suc i) st extras i"

definition evaluate_optional_environment where
  "evaluate_optional_environment R S st env extras i =
    (case env of None \<Rightarrow> evaluate_extras st extras i | Some e \<Rightarrow> evaluate_reporter_impl R S st e (FromExtras extras) i)"

primrec evaluate_only_extras_fuel :: "nat \<Rightarrow> ('r, 's) interner \<Rightarrow> string list \<Rightarrow> node_id \<Rightarrow> bool option" where
  "evaluate_only_extras_fuel 0 st extras = (\<lambda>i. None)"
| "evaluate_only_extras_fuel (Suc fuel) st extras = (\<lambda>i.
    (let rec = evaluate_only_extras_fuel fuel st extras
     in case marker_kind_of st i of
          None \<Rightarrow> None
        | Some KTrue \<Rightarrow> Some True
        | Some KFalse \<Rightarrow> Some False
        | Some (KindVersion key es) \<Rightarrow> all_opt rec (map snd es)
        | Some (KindString key es) \<Rightarrow> all_opt rec (map snd es)
        | Some (KindIn key s high low) \<Rightarrow> all_opt rec [high, low]
        | Some (KindContains key s high low) \<Rightarrow> all_opt rec [high, low]
        | Some (KindList pair high low) \<Rightarrow> all_opt rec [high, low]
        | Some (KindExtra name high low) \<Rightarrow> rec (if name \<in> set extras then high else low)))"

definition evaluate_only_extras where
  "evaluate_only_extras st extras i = evaluate_only_extras_fuel (Suc i) st extras i"

end
