(* ===== verification/Marker_Evaluation.thy ===== *)
theory Marker_Evaluation
  imports Marker_Interner Marker_Tree
begin

text \<open>
  Restriction of boolean variables and evaluation in an environment, in terms of the meaning of the
  diagram.
\<close>

section \<open>Restriction of boolean variables\<close>

definition override :: "(variable \<Rightarrow> bool option) \<Rightarrow> valuation \<Rightarrow> valuation" where
  "override f val = val\<lparr>val_bool := \<lambda>v. case f v of Some b \<Rightarrow> b | None \<Rightarrow> val_bool val v\<rparr>"

lemma val_ok_override [simp]: "val_ok (override f val) \<longleftrightarrow> val_ok val"
  by (simp add: val_ok_def override_def)

lemma beyond_child:
  assumes "nodes_wf R S ns" "valid ns i" "\<not> i < 2" "c \<in> set (edge_nodes (n_children (ns ! node_index i)))" "beyond ns v i"
  shows "beyond ns v (id_negate c p)"
  using child_facts(2) [OF assms(1-4)] assms(5) beyond_node [OF assms(3), of ns v] by (auto elim: beyond_trans)

lemma create_node_yields:
  assumes "interner_in R S W st1" "edges_wf R S var children" "var \<in> W"
    "list_all (\<lambda>k. valid (i_nodes st1) k \<and> beyond (i_nodes st1) var k) (edge_nodes children)" "prefix (i_nodes st) (i_nodes st1)"
    "\<And>val. G val \<Longrightarrow> val_ok val" "\<And>v. B v \<Longrightarrow> variable_key v < variable_key var"
    "\<And>val. G val \<Longrightarrow> \<exists>c. target R S val var children = Some c \<and> sem R S (i_nodes st1) val c = Q val"
  shows "yields R S G i_nodes (interner_in R S W) st B Q (create_node var children st1)"
proof -
  have w: "store_wf R S st1" using assms(1) by (simp add: interner_in_def interner_ok_def)
  obtain i st2 where c: "create_node var children st1 = Some (i, st2)" "store_wf R S st2" "prefix (i_nodes st1) (i_nodes st2)"
    "i_cache st2 = i_cache st1" "i_exclusions st2 = i_exclusions st1" "valid (i_nodes st2) i"
    "\<And>v. variable_key v < variable_key var \<Longrightarrow> beyond (i_nodes st2) v i"
    "\<And>W. vars_in W (i_nodes st1) \<Longrightarrow> var \<in> W \<Longrightarrow> vars_in W (i_nodes st2)"
    and t: "\<And>val. val_ok val \<Longrightarrow> \<exists>c. target R S val var children = Some c \<and> c \<in> set (edge_nodes children)
             \<and> sem R S (i_nodes st2) val i = sem R S (i_nodes st1) val c"
    using create_node_wf [OF w assms(2,4)] by metis
  have "sem R S (i_nodes st2) val i = Q val" if "G val" for val
    using t [OF assms(6) [OF that]] assms(8) [OF that] by auto
  moreover have "interner_in R S W st2"
    using interner_ok_extend [OF _ c(2-5)] c(8) assms(1,3) by (simp add: interner_in_def)
  moreover have "prefix (i_nodes st) (i_nodes st2)" using assms(5) c(3) by (rule prefix_order.trans)
  ultimately show ?thesis using c(1,6,7) assms(7) by (simp add: yields_def)
qed

lemma restrict_by_fuel_yields:
  assumes "i < n" "interner_in R S W st" "valid (i_nodes st) i"
  shows "yields R S val_ok i_nodes (interner_in R S W) st (\<lambda>v. beyond (i_nodes st) v i)
    (\<lambda>val. sem R S (i_nodes st) (override f val) i) (restrict_by_fuel n f i st)"
  using assms
proof (induction n arbitrary: i st)
  case (Suc n)
  show ?case
  proof (cases "i < 2")
    case True
    then have "i = id_true \<or> i = id_false" by auto
    then show ?thesis using Suc.prems by (auto simp: yields_def)
  next
    case ge: False
    define x where "x = i_nodes st ! node_index i"
    have w: "nodes_wf R S (i_nodes st)" using Suc.prems(2) by (simp add: interner_in_def interner_ok_def store_wf_def)
    note xf = child_facts [OF w Suc.prems(3) ge, folded x_def] and xw = node_facts(1) [OF w Suc.prems(3) ge, folded x_def]
    note xs = sem_child [OF w Suc.prems(3) ge, folded x_def] and bc = beyond_child [OF w Suc.prems(3) ge, folded x_def]
    have var: "n_var x \<in> W"
      using Suc.prems(2) node_facts(2) [OF w Suc.prems(3) ge] by (auto simp: x_def interner_in_def vars_in_def)
    have n: "interner_node st i = Some x" unfolding x_def by (rule interner_node_valid [OF Suc.prems(3) ge])
    have ih: "yields R S val_ok i_nodes (interner_in R S W) st1 (\<lambda>v. beyond (i_nodes st) v (id_negate c i))
        (\<lambda>val. sem R S (i_nodes st) (override f val) (id_negate c i)) (restrict_by_fuel n f (id_negate c i) st1)"
      if c: "c \<in> set (edge_nodes (n_children x))" and st1: "interner_in R S W st1" "prefix (i_nodes st) (i_nodes st1)" for c st1
    proof -
      have v: "valid (i_nodes st) (id_negate c i)" using xf(1) [OF c] by simp
      have "id_negate c i < n" using xf(3) [OF c, rule_format, of i] Suc.prems(1) by simp
      from Suc.IH [OF this st1(1) valid_prefix [OF st1(2) v]] show ?thesis
        unfolding beyond_prefix [OF st1(2) v] sem_prefix [OF st1(2) v] .
    qed
    show ?thesis
    proof (cases "\<exists>high low b. n_children x = Boolean high low \<and> f (n_var x) = Some b")
      case True
      then obtain high low b where hl: "n_children x = Boolean high low" "f (n_var x) = Some b" by blast
      let ?c = "if b then high else low"
      have c: "?c \<in> set (edge_nodes (n_children x))" by (simp add: hl)
      have "sem R S (i_nodes st) (override f val) i = sem R S (i_nodes st) (override f val) (id_negate ?c i)" if "val_ok val" for val
      proof -
        obtain d where d: "target R S (override f val) (n_var x) (n_children x) = Some d" "d \<in> set (edge_nodes (n_children x))"
          "sem R S (i_nodes st) (override f val) i = sem R S (i_nodes st) (override f val) (id_negate d i)"
          by (rule xs [of "override f val"]) (use \<open>val_ok val\<close> in simp)
        moreover have "d = ?c" using d(1) xw hl by (cases "n_var x") (auto simp: override_def)
        ultimately show ?thesis by simp
      qed
      then have "yields R S val_ok i_nodes (interner_in R S W) st (\<lambda>v. beyond (i_nodes st) v i)
        (\<lambda>val. sem R S (i_nodes st) (override f val) i) (restrict_by_fuel n f (id_negate ?c i) st)"
        by (intro yields_weaken [OF ih [OF c Suc.prems(2)]]) (erule bc [OF c] | simp)+
      then show ?thesis using n hl ge by (simp del: id_negate_less split: if_splits)
    next
      case False
      have "\<exists>children st'. edges_map (restrict_by_fuel n f) i (n_children x) st = Some (children, st') \<and> interner_in R S W st'
        \<and> prefix (i_nodes st) (i_nodes st') \<and> edges_wf R S (n_var x) children
        \<and> list_all (\<lambda>k. valid (i_nodes st') k \<and> beyond (i_nodes st') (n_var x) k) (edge_nodes children)
        \<and> (\<forall>val c. val_ok val \<longrightarrow> target R S val (n_var x) (n_children x) = Some c \<longrightarrow>
          (\<exists>k. target R S val (n_var x) children = Some k
             \<and> sem R S (i_nodes st') val k = sem R S (i_nodes st) (override f val) (id_negate c i)))"
      proof (rule edges_map_mean [where N = i_nodes and I = "interner_in R S W" and F = "\<lambda>c val. sem R S (i_nodes st) (override f val) c",
            OF Suc.prems(2) xw])
        show "yields R S (\<lambda>val. val_ok val \<and> target R S val (n_var x) (n_children x) = Some c) i_nodes (interner_in R S W) st1 (\<lambda>v. v = n_var x)
            (\<lambda>val. sem R S (i_nodes st) (override f val) (id_negate c i)) (restrict_by_fuel n f (id_negate c i) st1)"
          if "c \<in> set (edge_nodes (n_children x))" "interner_in R S W st1" "prefix (i_nodes st) (i_nodes st1)" for c st1
          by (rule yields_on [OF yields_weaken [OF ih [OF that]]]) (use xf(2) [OF that(1)] in simp_all)
      qed
      then obtain children st' where r: "edges_map (restrict_by_fuel n f) i (n_children x) st = Some (children, st')" "interner_in R S W st'"
        "prefix (i_nodes st) (i_nodes st')" "edges_wf R S (n_var x) children"
        "list_all (\<lambda>k. valid (i_nodes st') k \<and> beyond (i_nodes st') (n_var x) k) (edge_nodes children)"
        and t: "\<And>val c. val_ok val \<Longrightarrow> target R S val (n_var x) (n_children x) = Some c \<Longrightarrow>
          \<exists>k. target R S val (n_var x) children = Some k \<and> sem R S (i_nodes st') val k = sem R S (i_nodes st) (override f val) (id_negate c i)"
        by blast
      have same: "target R S (override f val) (n_var x) (n_children x) = target R S val (n_var x) (n_children x)" for val
        using False xw by (cases "n_var x"; cases "n_children x") (auto simp: override_def split: option.splits)
      have "yields R S val_ok i_nodes (interner_in R S W) st (\<lambda>v. beyond (i_nodes st) v i)
        (\<lambda>val. sem R S (i_nodes st) (override f val) i) (create_node (n_var x) children st')"
      proof (rule create_node_yields [OF r(2,4) var r(5,3)])
        show "variable_key v < variable_key (n_var x)" if "beyond (i_nodes st) v i" for v
          using that ge by (simp add: beyond_def x_def)
        show "\<exists>c. target R S val (n_var x) children = Some c \<and> sem R S (i_nodes st') val c = sem R S (i_nodes st) (override f val) i"
          if val: "val_ok val" for val
        proof -
          obtain d where d: "target R S (override f val) (n_var x) (n_children x) = Some d" "d \<in> set (edge_nodes (n_children x))"
            "sem R S (i_nodes st) (override f val) i = sem R S (i_nodes st) (override f val) (id_negate d i)"
            by (rule xs [of "override f val"]) (use val in simp)
          then show ?thesis using t [OF val, of d] same by simp
        qed
      qed
      moreover have "restrict_by_fuel (Suc n) f i st = create_node (n_var x) children st'"
      proof (cases "n_children x")
        case (Boolean high low)
        then have "f (n_var x) = None" using False by (cases "f (n_var x)") auto
        then show ?thesis using n ge r(1) Boolean by simp
      qed (use n ge r(1) in \<open>simp_all split: option.splits\<close>)
      ultimately show ?thesis by simp
    qed
  qed
qed simp

lemma restrict_by_yields:
  assumes "interner_in R S W st" "valid (i_nodes st) i"
  shows "yields R S val_ok i_nodes (interner_in R S W) st (\<lambda>v. beyond (i_nodes st) v i)
    (\<lambda>val. sem R S (i_nodes st) (override f val) i) (restrict_by f i st)"
  unfolding restrict_by_def by (rule restrict_by_fuel_yields [OF _ assms]) simp

section \<open>Evaluation\<close>

definition env_valuation :: "marker_environment \<Rightarrow> extras_environment \<Rightarrow> valuation" where
  "env_valuation env extras =
    \<lparr>val_version = get_version env, val_string = get_string env,
     val_bool = (\<lambda>v. case v of
         VIn key s \<Rightarrow> str_contains s (get_string env key)
       | VContains key s \<Rightarrow> str_contains (get_string env key) s
       | VExtra name \<Rightarrow> name \<in> set (env_extra extras)
       | VList (PairExtras extra) \<Rightarrow> extra \<in> set (env_extras extras)
       | VList (PairDependencyGroup name) \<Rightarrow> name \<in> set (env_dependency_groups extras)
       | _ \<Rightarrow> False)\<rparr>"

definition env_wf :: "marker_environment \<Rightarrow> bool" where
  "env_wf env \<longleftrightarrow> wf_version (sv_version (implementation_version env)) \<and> wf_version (sv_version (python_full_version env))"

lemma env_valuation_ok: "env_wf env \<Longrightarrow> val_ok (env_valuation env extras)"
proof -
  assume "env_wf env"
  then have "wf_version (get_version env k)" for k by (cases k) (simp_all add: env_wf_def)
  then show ?thesis by (simp add: val_ok_def env_valuation_def)
qed

fun is_arbitrary :: "variable \<Rightarrow> bool" where
  "is_arbitrary (VList (PairArbitrary _ _)) = True"
| "is_arbitrary _ = False"

definition arbitrary_free :: "('r, 's) interner \<Rightarrow> bool" where
  "arbitrary_free st \<longleftrightarrow> list_all (\<lambda>n. \<not> is_arbitrary (n_var n)) (i_nodes st)"

lemma first_edge_target:
  "first_edge has f (map (\<lambda>(r, c). (r, g c)) es) = (case edge_target has es of None \<Rightarrow> Some False | Some c \<Rightarrow> f (g c))"
  by (induction es) (auto simp: edge_target_def)

lemma evaluate_step:
  assumes "interner_node st i = Some n" "\<not> i < 2" "target R S (env_valuation env extras) (n_var n) (n_children n) = Some c"
    "\<not> is_arbitrary (n_var n)"
  shows "evaluate_fuel (Suc fuel) R S st env extras i = evaluate_fuel fuel R S st env extras (id_negate c i)"
proof -
  have ne: "i \<noteq> 0" "i \<noteq> Suc 0" using assms(2) by auto
  note s = marker_kind_of_def Let_def first_edge_target env_valuation_def
  show ?thesis
  proof (cases "n_var n")
    case (VVersion k)
    then show ?thesis using assms ne by (cases "n_children n") (simp_all add: s)
  next
    case (VString k)
    then show ?thesis using assms ne by (cases "n_children n") (simp_all add: s)
  next
    case (VIn k t)
    then show ?thesis using assms ne by (cases "n_children n") (auto simp: s)
  next
    case (VContains k t)
    then show ?thesis using assms ne by (cases "n_children n") (auto simp: s)
  next
    case (VExtra k)
    then show ?thesis using assms ne by (cases "n_children n") (auto simp: s)
  next
    case (VList p)
    then show ?thesis using assms ne by (cases "n_children n"; cases p) (auto simp: s)
  qed
qed

lemma evaluate_fuel_sem:
  assumes "nodes_wf R S (i_nodes st)" "arbitrary_free st" "env_wf env" "valid (i_nodes st) i" "i < fuel"
  shows "evaluate_fuel fuel R S st env extras i = Some (sem R S (i_nodes st) (env_valuation env extras) i)"
  using assms(4,5)
proof (induction fuel arbitrary: i)
  case (Suc fuel)
  show ?case
  proof (cases "i < 2")
    case True
    then have "i = 0 \<or> i = Suc 0" by auto
    then show ?thesis by (auto simp: marker_kind_of_def)
  next
    case False
    let ?x = "i_nodes st ! node_index i"
    obtain c where c: "target R S (env_valuation env extras) (n_var ?x) (n_children ?x) = Some c" "c \<in> set (edge_nodes (n_children ?x))"
      "sem R S (i_nodes st) (env_valuation env extras) i = sem R S (i_nodes st) (env_valuation env extras) (id_negate c i)"
      by (rule sem_child [OF assms(1) Suc.prems(1) False env_valuation_ok [OF assms(3)]])
    have "\<not> is_arbitrary (n_var ?x)"
      using assms(2) node_facts(2) [OF assms(1) Suc.prems(1) False] by (simp add: arbitrary_free_def list_all_length)
    then have "evaluate_fuel (Suc fuel) R S st env extras i = evaluate_fuel fuel R S st env extras (id_negate c i)"
      by (rule evaluate_step [OF interner_node_valid [OF Suc.prems(1) False] False c(1)])
    moreover have "id_negate c i < fuel" "valid (i_nodes st) (id_negate c i)"
      using child_facts(1,3) [OF assms(1) Suc.prems(1) False c(2)] Suc.prems(2) by (auto dest: spec [of _ i] simp del: id_negate_less)
    ultimately show ?thesis using Suc.IH [of "id_negate c i"] c(3) by simp
  qed
qed simp

lemma evaluate_reporter_impl_sem:
  assumes "nodes_wf R S (i_nodes st)" "arbitrary_free st" "env_wf env" "valid (i_nodes st) i"
  shows "evaluate_reporter_impl R S st env extras i = Some (sem R S (i_nodes st) (env_valuation env extras) i)"
  unfolding evaluate_reporter_impl_def by (rule evaluate_fuel_sem [OF assms]) simp

section \<open>Evaluation with extras only\<close>

lemma any_opt_Some: "list_all (\<lambda>x. \<exists>b. f x = Some b) xs \<Longrightarrow> \<exists>b. any_opt f xs = Some b"
  by (induction xs) auto

lemma any_opt_True: "list_all (\<lambda>x. \<exists>b. f x = Some b) xs \<Longrightarrow> any_opt f xs = Some (list_ex (\<lambda>x. f x = Some True) xs)"
  by (induction xs) auto

lemma all_opt_all: "list_all (\<lambda>x. \<exists>b. f x = Some b) xs \<Longrightarrow> all_opt f xs = Some (list_all (\<lambda>x. f x = Some True) xs)"
  by (induction xs) auto

definition extras_agree :: "string list \<Rightarrow> valuation \<Rightarrow> bool" where
  "extras_agree extras val \<longleftrightarrow> (\<forall>name. val_bool val (VExtra name) \<longleftrightarrow> name \<in> set extras)"

text \<open>Both evaluations go to one child at an extra and to all of them elsewhere.\<close>

definition extra_children :: "string list \<Rightarrow> ('r, 's) node \<Rightarrow> node_id list" where
  "extra_children extras n =
    (case (n_var n, n_children n) of
       (VExtra name, Boolean high low) \<Rightarrow> [if name \<in> set extras then high else low]
     | _ \<Rightarrow> edge_nodes (n_children n))"

lemma any_opt_single: "any_opt f [x] = f x"
  by (simp split: bind_splits) 

lemma all_opt_single: "all_opt f [x] = f x"
  by (simp split: bind_splits)

lemma extras_step:
  assumes "interner_node st i = Some n" "\<not> i < 2" "edges_wf R S (n_var n) (n_children n)"
  shows "evaluate_extras_fuel (Suc fuel) st extras i
      = any_opt (evaluate_extras_fuel fuel st extras) (map (\<lambda>c. id_negate c i) (extra_children extras n))"
    "evaluate_only_extras_fuel (Suc fuel) st extras i
      = all_opt (evaluate_only_extras_fuel fuel st extras) (map (\<lambda>c. id_negate c i) (extra_children extras n))"
proof -
  have ne: "i \<noteq> 0" "i \<noteq> Suc 0" using assms(2) by auto
  have m: "map snd (map (\<lambda>(r, c). (r, id_negate c i)) es) = map (\<lambda>c. id_negate c i) (map snd es)" for es :: "('x \<times> nat) list"
    by (simp add: case_prod_beta comp_def)
  note s = marker_kind_of_def Let_def extra_children_def m any_opt_single all_opt_single
  show "evaluate_extras_fuel (Suc fuel) st extras i
      = any_opt (evaluate_extras_fuel fuel st extras) (map (\<lambda>c. id_negate c i) (extra_children extras n))"
    using assms ne by (cases "n_var n"; cases "n_children n") (simp_all add: s del: map_map any_opt.simps)
  show "evaluate_only_extras_fuel (Suc fuel) st extras i
      = all_opt (evaluate_only_extras_fuel fuel st extras) (map (\<lambda>c. id_negate c i) (extra_children extras n))"
    using assms ne by (cases "n_var n"; cases "n_children n") (simp_all add: s del: map_map all_opt.simps)
qed

lemma extra_children_target:
  assumes "edges_wf R S (n_var n) (n_children n)" "extras_agree extras val" "target R S val (n_var n) (n_children n) = Some c"
    "c \<in> set (edge_nodes (n_children n))"
  shows "c \<in> set (extra_children extras n)"
  using assms by (cases "n_var n"; cases "n_children n") (auto simp: extra_children_def extras_agree_def)

lemma extra_children_subset: "set (extra_children extras n) \<subseteq> set (edge_nodes (n_children n))"
  by (auto simp: extra_children_def split: variable.splits edges.splits if_splits)

lemma evaluate_extras_fuel_sound:
  assumes "nodes_wf R S (i_nodes st)" "valid (i_nodes st) i" "i < fuel"
  shows "\<exists>b d. evaluate_extras_fuel fuel st extras i = Some b \<and> evaluate_only_extras_fuel fuel st extras i = Some d
    \<and> (\<forall>val. val_ok val \<longrightarrow> extras_agree extras val \<longrightarrow> (d \<longrightarrow> sem R S (i_nodes st) val i) \<and> (sem R S (i_nodes st) val i \<longrightarrow> b))"
  using assms(2,3)
proof (induction fuel arbitrary: i)
  case (Suc fuel)
  show ?case
  proof (cases "i < 2")
    case True
    then have "i = 0 \<or> i = Suc 0" by auto
    then show ?thesis by (auto simp: marker_kind_of_def)
  next
    case False
    define x where "x = i_nodes st ! node_index i"
    note xf = child_facts [OF assms(1) Suc.prems(1) False, folded x_def] and xw = node_facts(1) [OF assms(1) Suc.prems(1) False, folded x_def]
    have n: "interner_node st i = Some x" unfolding x_def by (rule interner_node_valid [OF Suc.prems(1) False])
    let ?cs = "map (\<lambda>c. id_negate c i) (extra_children extras x)"
    have ih: "\<exists>b d. evaluate_extras_fuel fuel st extras (id_negate c i) = Some b \<and> evaluate_only_extras_fuel fuel st extras (id_negate c i) = Some d
        \<and> (\<forall>val. val_ok val \<longrightarrow> extras_agree extras val \<longrightarrow> (d \<longrightarrow> sem R S (i_nodes st) val (id_negate c i)) \<and> (sem R S (i_nodes st) val (id_negate c i) \<longrightarrow> b))"
      if "c \<in> set (extra_children extras x)" for c
    proof (rule Suc.IH)
      have c: "c \<in> set (edge_nodes (n_children x))" using that extra_children_subset by blast
      show "valid (i_nodes st) (id_negate c i)" using xf(1) [OF c] by simp
      show "id_negate c i < fuel" using xf(3) [OF c, rule_format, of i] Suc.prems(2) by simp
    qed
    have "list_all (\<lambda>k. \<exists>b. evaluate_extras_fuel fuel st extras k = Some b) ?cs" "list_all (\<lambda>k. \<exists>b. evaluate_only_extras_fuel fuel st extras k = Some b) ?cs"
      using ih by (fastforce simp: list_all_iff)+
    note r = any_opt_True [OF this(1)] all_opt_all [OF this(2)]
    have "(list_all (\<lambda>k. evaluate_only_extras_fuel fuel st extras k = Some True) ?cs \<longrightarrow> sem R S (i_nodes st) val i)
        \<and> (sem R S (i_nodes st) val i \<longrightarrow> list_ex (\<lambda>k. evaluate_extras_fuel fuel st extras k = Some True) ?cs)"
      if val: "val_ok val" "extras_agree extras val" for val
    proof -
      obtain c where c: "target R S val (n_var x) (n_children x) = Some c" "c \<in> set (edge_nodes (n_children x))"
        "sem R S (i_nodes st) val i = sem R S (i_nodes st) val (id_negate c i)"
        unfolding x_def by (rule sem_child [OF assms(1) Suc.prems(1) False val(1)])
      have e: "c \<in> set (extra_children extras x)" by (rule extra_children_target [OF xw val(2) c(1,2)])
      show ?thesis using ih [OF e] e val c(3) by (auto simp: list_all_iff list_ex_iff)
    qed
    then show ?thesis unfolding extras_step [OF n False xw] r by blast
  qed
qed simp

end
