(* ===== verification/Marker_Expressions.thy ===== *)
theory Marker_Expressions
  imports Marker_Evaluation
begin

text \<open>
  The diagram of a single expression means what the expression says, comparisons of \<open>python_version\<close>
  included.
\<close>

section \<open>Python versions\<close>

text \<open>
  The value of \<open>python_version\<close> is the full version cut to its major and minor segment. On
  releases, the specifiers are comparisons of the segments.
\<close>

definition major_minor :: "u64 list \<Rightarrow> u64 list" where
  "major_minor xs = [get_or_zero xs 0, get_or_zero xs 1]"

fun release_holds :: "operator \<Rightarrow> u64 list \<Rightarrow> u64 list \<Rightarrow> bool" where
  "release_holds OpEqual ns xs \<longleftrightarrow> trim_release xs = trim_release ns"
| "release_holds OpExactEqual ns xs \<longleftrightarrow> trim_release xs = trim_release ns"
| "release_holds OpNotEqual ns xs \<longleftrightarrow> trim_release xs \<noteq> trim_release ns"
| "release_holds OpEqualStar ns xs \<longleftrightarrow> release_prefix ns xs"
| "release_holds OpNotEqualStar ns xs \<longleftrightarrow> \<not> release_prefix ns xs"
| "release_holds OpTildeEqual ns xs \<longleftrightarrow> trim_release ns \<le> trim_release xs \<and> release_prefix (butlast ns) xs"
| "release_holds OpLessThan ns xs \<longleftrightarrow> trim_release xs < trim_release ns"
| "release_holds OpLessThanEqual ns xs \<longleftrightarrow> trim_release xs \<le> trim_release ns"
| "release_holds OpGreaterThan ns xs \<longleftrightarrow> trim_release ns < trim_release xs"
| "release_holds OpGreaterThanEqual ns xs \<longleftrightarrow> trim_release ns \<le> trim_release xs"

definition release_specifier :: "version_specifier \<Rightarrow> bool" where
  "release_specifier s \<longleftrightarrow> release_only_version (sp_version s) \<and> version_release (sp_version s) \<noteq> []
     \<and> u64_max \<notin> set (version_release (sp_version s)) \<and> sp_operator s \<noteq> OpExactEqual
     \<and> (sp_operator s = OpTildeEqual \<longrightarrow> 1 < length (version_release (sp_version s)))"

lemma contains_release_holds:
  assumes "release_specifier s" "release_only_version v"
  shows "contains s v = Some (release_holds (sp_operator s) (version_release (sp_version s)) (version_release v))"
proof -
  have s: "s = spec (sp_operator s) (sp_version s)" by simp
  have a: "release_only_version (sp_version s)" "sp_operator s \<noteq> OpExactEqual"
    "sp_operator s = OpTildeEqual \<Longrightarrow> 1 < length (version_release (sp_version s))"
    using assms(1) by (auto simp: release_specifier_def)
  show ?thesis
    using contains_release_only [OF a(1) assms(2)] contains_tilde_release_only [OF a(1) assms(2) a(3)] a(2)
    by (subst s) (cases "sp_operator s"; simp)
qed

text \<open>Comparisons with two segments.\<close>

lemma get_two [simp]: "get_or_zero [a, b] 0 = a" "get_or_zero [a, b] (Suc 0) = b" "get_or_zero [a, b] (Suc (Suc i)) = 0"
  by (simp_all add: get_or_zero_def)

lemma all_segments: "(\<forall>i. P i) \<longleftrightarrow> P 0 \<and> P (Suc 0) \<and> (\<forall>i. P (Suc (Suc i)))" for P :: "nat \<Rightarrow> bool"
  by (metis not0_implies_Suc)

lemma ex_segments: "(\<exists>i. P i) \<longleftrightarrow> P 0 \<or> P (Suc 0) \<or> (\<exists>i. P (Suc (Suc i)))" for P :: "nat \<Rightarrow> bool"
  by (metis not0_implies_Suc)

lemma all_less_segments: "(\<forall>j < Suc (Suc i). P j) \<longleftrightarrow> P 0 \<and> P (Suc 0) \<and> (\<forall>j < i. P (Suc (Suc j)))" for P :: "nat \<Rightarrow> bool"
  by (auto simp: less_Suc_eq_0_disj)

lemma trim_less_two:
  "trim_release xs < trim_release [a, b] \<longleftrightarrow> get_or_zero xs 0 < a \<or> get_or_zero xs 0 = a \<and> get_or_zero xs 1 < b"
  unfolding trim_release_less_iff by (subst ex_segments) (simp add: all_less_segments)

lemma trim_two_less:
  "trim_release [a, b] < trim_release ys \<longleftrightarrow> a < get_or_zero ys 0
     \<or> a = get_or_zero ys 0 \<and> (b < get_or_zero ys 1 \<or> b = get_or_zero ys 1 \<and> (\<exists>i. get_or_zero ys (Suc (Suc i)) \<noteq> 0))"
proof -
  have "(\<exists>i. (\<forall>j < i. 0 = get_or_zero ys (Suc (Suc j))) \<and> 0 < get_or_zero ys (Suc (Suc i))) \<longleftrightarrow> (\<exists>i. get_or_zero ys (Suc (Suc i)) \<noteq> 0)"
    (is "?l \<longleftrightarrow> ?r")
  proof
    assume ?r
    then have "get_or_zero ys (Suc (Suc (LEAST i. get_or_zero ys (Suc (Suc i)) \<noteq> 0))) \<noteq> 0" by (rule LeastI_ex)
    moreover have "0 = get_or_zero ys (Suc (Suc j))" if "j < (LEAST i. get_or_zero ys (Suc (Suc i)) \<noteq> 0)" for j
      using not_less_Least [OF that] by simp
    ultimately show ?l by (metis word_coorder.not_eq_extremum)
  qed (metis order_less_irrefl)
  then show ?thesis unfolding trim_release_less_iff by (subst ex_segments) (auto simp: all_less_segments)
qed

lemma trim_two_eq:
  "trim_release [a, b] = trim_release ys \<longleftrightarrow> a = get_or_zero ys 0 \<and> b = get_or_zero ys 1 \<and> \<not> (\<exists>i. get_or_zero ys (Suc (Suc i)) \<noteq> 0)"
  unfolding trim_release_eq_iff by (subst all_segments) auto

lemma prefix_two: "release_prefix [a, b] xs \<longleftrightarrow> get_or_zero xs 0 = a \<and> get_or_zero xs 1 = b"
  unfolding release_prefix_iff by (auto simp: less_Suc_eq_0_disj)

lemma word_less_Suc: "b \<noteq> u64_max \<Longrightarrow> a < b + 1 \<longleftrightarrow> a \<le> b" for a b :: u64
  using unat_plus_one [of b] by (simp add: word_less_nat_alt word_le_nat_alt less_Suc_eq_le)

lemma pair_less: "(a < x \<or> a = x \<and> b < y) \<longleftrightarrow> \<not> (x < a \<or> x = a \<and> y \<le> b)" for a x :: "'a :: linorder" and b y :: "'b :: linorder"
  by auto

lemma get_beyond: "get_or_zero (a # b # zs) (Suc (Suc i)) = get_or_zero zs i"
  by (simp add: get_or_zero_def)

lemma ex_nonzero: "(\<exists>i. get_or_zero zs i \<noteq> 0) \<longleftrightarrow> \<not> list_all (\<lambda>x. x = 0) zs"
  by (auto simp: get_or_zero_def list_all_length)

lemma prefix_major_minor:
  "release_prefix [a] (major_minor xs) \<longleftrightarrow> get_or_zero xs 0 = a"
  "release_prefix (a # b # zs) (major_minor xs) \<longleftrightarrow> get_or_zero xs 0 = a \<and> get_or_zero xs 1 = b \<and> list_all (\<lambda>x. x = 0) zs"
  by (simp add: release_prefix_iff major_minor_def)
    (simp only: release_prefix_iff major_minor_def list.size add_0_right One_nat_def add_Suc_right all_less_segments get_two nth_Cons_0 nth_Cons_Suc list_all_length,
      auto)

section \<open>From Python versions to full versions\<close>

definition full_version_meets :: "version_specifier \<Rightarrow> u64 list \<Rightarrow> (version_specifier, node_id) outcome \<Rightarrow> bool" where
  "full_version_meets s xs res \<longleftrightarrow>
    (case res of
       Ok s' \<Rightarrow> release_specifier s' \<and> (release_holds (sp_operator s') (version_release (sp_version s')) xs
                  \<longleftrightarrow> release_holds (sp_operator s) (version_release (sp_version s)) (major_minor xs))
     | Err i \<Rightarrow> i = (if release_holds (sp_operator s) (version_release (sp_version s)) (major_minor xs) then id_true else id_false)
     | Panic \<Rightarrow> False)"

lemma release_cases:
  assumes "ns \<noteq> []"
  obtains (one) a where "ns = [a]" | (more) a b zs where "ns = a # b # zs"
  using assms by (metis list.exhaust)

lemma from_version_two:
  assumes "release_only_version v" "version_release v = [a, b]"
  shows "from_version op v = Ok (spec op v)"
  using assms by (simp add: from_version_def is_local_def release_only_version_def)

lemma full_version_star_meets:
  assumes "release_specifier s" "is_star (sp_operator s)"
    "sp_operator s = OpNotEqualStar \<longrightarrow> list_all (\<lambda>x. x = 0) (drop 2 (version_release (sp_version s)))"
  shows "full_version_meets s xs (full_version_star s)"
proof -
  have op: "sp_operator s = OpEqualStar \<or> sp_operator s = OpNotEqualStar" using assms(2) by (cases "sp_operator s") (simp_all add: is_star_def)
  have "version_release (sp_version s) \<noteq> []" using assms(1) by (simp add: release_specifier_def)
  then show ?thesis
  proof (cases rule: release_cases)
    case (one a)
    have "release_prefix [a] xs \<longleftrightarrow> get_or_zero xs 0 = a" by (simp add: release_prefix_iff)
    then show ?thesis using one op assms(1) prefix_major_minor(1) by (auto simp: full_version_star_def full_version_meets_def)
  next
    case (more a b zs)
    obtain v where v: "version_new [a, b] = Some v" "release_only_version v" "version_release v = [a, b]"
      by (rule version_new_release_only [of "[a, b]"]) simp
    have "release_specifier (spec (sp_operator s) v)" using assms(1) v more op by (auto simp: release_specifier_def)
    then show ?thesis
      using op v from_version_two [OF v(2,3)] assms(3) more prefix_major_minor(2) [of a b zs xs] prefix_two
      by (auto simp: full_version_star_def full_version_meets_def unwrap_def)
  qed
qed

lemma full_version_tilde_meets:
  assumes "release_specifier s" "sp_operator s = OpTildeEqual"
  shows "full_version_meets s xs (full_version_tilde s)"
proof -
  have "1 < length (version_release (sp_version s))" using assms by (simp add: release_specifier_def)
  then obtain a b zs where r: "version_release (sp_version s) = a # b # zs"
    using release_cases [of "version_release (sp_version s)"] by (metis length_0_conv length_Cons less_irrefl less_nat_zero_code One_nat_def)
  obtain v where v: "version_new [a, b] = Some v" "release_only_version v" "version_release v = [a, b]"
    by (rule version_new_release_only [of "[a, b]"]) simp
  show ?thesis
  proof (cases zs)
    case Nil
    have "release_prefix [a] xs \<longleftrightarrow> get_or_zero xs 0 = a" by (simp add: release_prefix_iff)
    moreover have "trim_release [a, b] \<le> trim_release xs \<longleftrightarrow> trim_release [a, b] \<le> trim_release (major_minor xs)"
      unfolding linorder_not_less [symmetric] trim_less_two by (simp add: major_minor_def)
    ultimately show ?thesis using Nil r assms prefix_major_minor(1) by (simp add: full_version_tilde_def full_version_meets_def)
  next
    case (Cons z zs')
    have b: "butlast (a # b # zs) = a # b # butlast zs" using Cons by simp
    have "trim_release (a # b # zs) \<le> trim_release (major_minor xs) \<longleftrightarrow> \<not> trim_release (major_minor xs) < trim_release (a # b # zs)"
      by (simp add: linorder_not_less)
    then have t: "release_holds OpTildeEqual (a # b # zs) (major_minor xs) \<longleftrightarrow>
        get_or_zero xs 0 = a \<and> get_or_zero xs 1 = b \<and> list_all (\<lambda>x. x = 0) zs"
      unfolding release_holds.simps b prefix_major_minor(2) unfolding major_minor_def trim_two_less get_beyond ex_nonzero
      by (auto simp: list_all_iff dest: in_set_butlastD)
    have "release_specifier (spec OpEqualStar v)" using assms(1) v r by (auto simp: release_specifier_def)
    then show ?thesis using Cons r v assms(2) t prefix_two by (auto simp: full_version_tilde_def full_version_meets_def)
  qed
qed

lemma full_version_exact_meets:
  assumes "release_specifier s" "\<not> is_star (sp_operator s)" "sp_operator s \<noteq> OpTildeEqual"
    "trim_release (version_release (sp_version s)) = trim_release [a, b]" "u64_max \<notin> {a, b, b + 1}"
  shows "full_version_meets s xs (full_version_exact a b s)"
proof -
  have b: "b \<noteq> u64_max" using assms(5) by blast
  obtain v where v: "version_new [a, b] = Some v" "release_only_version v" "version_release v = [a, b]"
    by (rule version_new_release_only [of "[a, b]"]) simp
  obtain v1 where v1: "version_new [a, b + 1] = Some v1" "release_only_version v1" "version_release v1 = [a, b + 1]"
    by (rule version_new_release_only [of "[a, b + 1]"]) simp
  have ok: "release_specifier (spec op v)" "release_specifier (spec op v1)" if "op \<noteq> OpExactEqual" "op \<noteq> OpTildeEqual" for op
    using v v1 that assms(5) by (auto simp: release_specifier_def)
  have e: "trim_release (major_minor xs) = trim_release [a, b] \<longleftrightarrow> get_or_zero xs 0 = a \<and> get_or_zero xs 1 = b"
    unfolding major_minor_def trim_two_eq by simp
  have l: "trim_release (major_minor xs) < trim_release [a, b] \<longleftrightarrow> trim_release xs < trim_release [a, b]"
    unfolding trim_less_two by (simp add: major_minor_def)
  have g: "trim_release [a, b] < trim_release (major_minor xs) \<longleftrightarrow> \<not> trim_release xs < trim_release [a, b + 1]"
    unfolding trim_less_two major_minor_def trim_two_less One_nat_def word_less_Suc [OF b] by (simp add: pair_less)
  have l': "trim_release [a, b] \<le> trim_release (major_minor xs) \<longleftrightarrow> trim_release [a, b] \<le> trim_release xs"
    using l by (metis linorder_not_less)
  have g': "trim_release (major_minor xs) \<le> trim_release [a, b] \<longleftrightarrow> trim_release xs < trim_release [a, b + 1]"
    "trim_release [a, b] < trim_release (major_minor xs) \<longleftrightarrow> trim_release [a, b + 1] \<le> trim_release xs"
    using g by (metis linorder_not_less)+
  have op: "sp_operator s \<noteq> OpExactEqual" using assms(1) by (simp add: release_specifier_def)
  show ?thesis
    unfolding full_version_meets_def full_version_exact_def assms(4)
    using assms(1-3) v v1 ok e l g l' g' prefix_two [of a b xs] op
    by (cases "sp_operator s") (simp_all add: is_star_def assms(4))
qed

lemma full_version_longer_meets:
  assumes "release_specifier s" "\<not> is_star (sp_operator s)" "sp_operator s \<noteq> OpTildeEqual"
    "version_release (sp_version s) = a # b # zs" "\<not> list_all (\<lambda>x. x = 0) zs" "u64_max \<notin> {a, b, b + 1}"
  shows "full_version_meets s xs (full_version_longer s)"
proof -
  have b: "b \<noteq> u64_max" using assms(6) by blast
  obtain v1 where v1: "version_new [a, b + 1] = Some v1" "release_only_version v1" "version_release v1 = [a, b + 1]"
    by (rule version_new_release_only [of "[a, b + 1]"]) simp
  have ok: "release_specifier (spec op v1)" if "op \<noteq> OpExactEqual" "op \<noteq> OpTildeEqual" for op
    using v1 that assms(6) by (auto simp: release_specifier_def)
  have e: "trim_release (major_minor xs) \<noteq> trim_release (a # b # zs)"
    unfolding major_minor_def trim_two_eq get_beyond ex_nonzero using assms(5) by simp
  have l: "trim_release (major_minor xs) < trim_release (a # b # zs) \<longleftrightarrow> trim_release xs < trim_release [a, b + 1]"
    unfolding major_minor_def trim_two_less get_beyond ex_nonzero trim_less_two One_nat_def word_less_Suc [OF b] using assms(5)
    by (simp add: order_le_less)
  have g: "trim_release (a # b # zs) \<le> trim_release (major_minor xs) \<longleftrightarrow> \<not> trim_release xs < trim_release [a, b + 1]"
    "trim_release (major_minor xs) \<le> trim_release (a # b # zs) \<longleftrightarrow> trim_release xs < trim_release [a, b + 1]"
    "trim_release (a # b # zs) < trim_release (major_minor xs) \<longleftrightarrow> \<not> trim_release xs < trim_release [a, b + 1]"
    using e l by (metis linorder_not_less order_le_less)+
  have op: "sp_operator s \<noteq> OpExactEqual" using assms(1) by (simp add: release_specifier_def)
  show ?thesis
    unfolding full_version_meets_def full_version_longer_def assms(4)
    using op assms(2,3) v1 ok e l g
    by (cases "sp_operator s") (simp_all add: is_star_def linorder_not_less)
qed

definition room :: "u64 list \<Rightarrow> bool" where
  "room ns \<longleftrightarrow> list_all (\<lambda>n. n < u64_max - 1) ns"

lemma python_version_to_full_version_meets:
  assumes "release_specifier s" "room (version_release (sp_version s))"
    "sp_operator s = OpNotEqualStar \<longrightarrow> list_all (\<lambda>x. x = 0) (drop 2 (version_release (sp_version s)))"
  shows "full_version_meets s xs (python_version_to_full_version s)"
proof -
  let ?ns = "version_release (sp_version s)"
  have w: "wf_version (sp_version s)" "?ns \<noteq> []" using assms(1) by (simp_all add: release_specifier_def release_only_version_def)
  have room: "u64_max \<notin> {n, n + 1}" if "n \<in> set ?ns \<or> n = 0" for n
  proof -
    have "(0 :: u64) < u64_max - 1" by code_simp
    then have "n < u64_max - 1" using that assms(2) unfolding room_def list_all_iff by blast
    then have "n \<noteq> u64_max" "n \<noteq> u64_max - 1" using max_word_max by (auto simp: linorder_not_less [symmetric] simp del: max_word_max)
    moreover have "n + 1 \<noteq> u64_max" using \<open>n \<noteq> u64_max - 1\<close> by (metis add_diff_cancel_right')
    ultimately show ?thesis by (metis insertE singletonD)
  qed
  consider (star) "is_star (sp_operator s)" | (tilde) "sp_operator s = OpTildeEqual" | (other) "\<not> is_star (sp_operator s)" "sp_operator s \<noteq> OpTildeEqual"
    by blast
  then show ?thesis
  proof cases
    case star
    then show ?thesis using full_version_star_meets [OF assms(1) star assms(3)] by (simp add: python_version_to_full_version_def)
  next
    case tilde
    then show ?thesis using full_version_tilde_meets [OF assms(1) tilde] by (simp add: python_version_to_full_version_def is_star_def)
  next
    case other
    obtain u where u: "only_release_trimmed (sp_version s) = Some u" "wf_version u"
      "make_full u = release_only (if trim_release ?ns = [] then [0] else trim_release ?ns)"
      by (rule only_release_trimmed_eq [OF w])
    have ru: "version_release u = (if trim_release ?ns = [] then [0] else trim_release ?ns)"
      using u(3) by (simp add: accessors_make_full release_only_def)
    have sub: "n \<in> set ?ns \<or> n = 0" if "n \<in> set (version_release u)" for n
      using that unfolding ru trim_release_def by (auto split: if_splits dest: set_dropWhileD)
    have t: "trim_release ?ns = trim_release (version_release u)" unfolding ru by (auto simp: trim_release_def)
    have p: "python_version_to_full_version s = (case version_release u of
          [major] \<Rightarrow> full_version_exact major 0 s | [major, minor] \<Rightarrow> full_version_exact major minor s | _ \<Rightarrow> full_version_longer s)"
      using other u(1) by (simp add: python_version_to_full_version_def)
    consider (one) a where "version_release u = [a]" | (two) a b where "version_release u = [a, b]" | (long) a b c zs where "version_release u = a # b # c # zs"
      using ru by (metis list.exhaust)
    then show ?thesis
    proof cases
      case one
      have "trim_release [a] = trim_release [a, 0]" by (simp add: trim_release_def)
      then have "full_version_meets s xs (full_version_exact a 0 s)"
        using t one room [of a] room [of 0] sub by (intro full_version_exact_meets [OF assms(1) other]) auto
      then show ?thesis unfolding p one by simp
    next
      case two
      then have "full_version_meets s xs (full_version_exact a b s)"
        using t room [of a] room [of b] sub by (intro full_version_exact_meets [OF assms(1) other]) auto
      then show ?thesis unfolding p two by simp
    next
      case long
      have tl: "trim_release ?ns = a # b # c # zs" using long ru by (auto split: if_splits)
      have "last (a # b # c # zs) \<noteq> 0" using hd_dropWhile [of "\<lambda>x. x = 0" "rev ?ns"] tl
        unfolding trim_release_def by (metis last_rev list.distinct(1) rev_is_Nil_conv)
      then have nz: "\<not> list_all (\<lambda>x. x = 0) (c # zs)" by (auto simp: list_all_iff dest: last_in_set split: if_splits)
      have "?ns = trim_release ?ns @ rev (takeWhile (\<lambda>x. x = 0) (rev ?ns))"
        unfolding trim_release_def by (metis rev_append rev_rev_ident takeWhile_dropWhile_id)
      then obtain ys where ns: "?ns = a # b # ys" "\<not> list_all (\<lambda>x. x = 0) ys" using tl nz
        by (metis append_Cons list_all_append)
      have "full_version_meets s xs (full_version_longer s)"
        using ns room [of a] room [of b] by (intro full_version_longer_meets [OF assms(1) other]) auto
      then show ?thesis unfolding p long by simp
    qed
  qed
qed

section \<open>Expressions\<close>

text \<open>
  The value of an expression in an environment, as PEP 508 has it: \<open>python_version\<close> is the full
  version cut to two segments, versions are compared by their releases, and the values of
  \<open>platform_system\<close> that go with one value of \<open>sys_platform\<close> do so in the environment.
\<close>

definition version_value :: "marker_environment \<Rightarrow> marker_value_version \<Rightarrow> u64 list" where
  "version_value env key =
    (case key of
       MvImplementationVersion \<Rightarrow> version_release (get_version env CvImplementationVersion)
     | MvPythonFullVersion \<Rightarrow> version_release (get_version env CvPythonFullVersion)
     | MvPythonVersion \<Rightarrow> major_minor (version_release (get_version env CvPythonFullVersion)))"

fun expression_holds :: "marker_environment \<Rightarrow> extras_environment \<Rightarrow> marker_expression \<Rightarrow> bool" where
  "expression_holds env extras (EVersion key s) = release_holds (sp_operator s) (version_release (sp_version s)) (version_value env key)"
| "expression_holds env extras (EVersionIn key vs op) =
    (list_ex (\<lambda>v. trim_release (version_release v) = trim_release (version_value env key)) vs = (op = CoIn))"
| "expression_holds env extras (EString key op s) =
    (let v = get_string env (canonical_of key)
     in case op of
          MIn \<Rightarrow> str_contains s v
        | MNotIn \<Rightarrow> \<not> str_contains s v
        | MContains \<Rightarrow> str_contains v s
        | MNotContains \<Rightarrow> \<not> str_contains v s
        | _ \<Rightarrow> string_holds (canonical_of key) op s v)"
| "expression_holds env extras (EList pair op) =
    ((case pair of PairExtras extra \<Rightarrow> extra \<in> set (env_extras extras)
      | PairDependencyGroup name \<Rightarrow> name \<in> set (env_dependency_groups extras)
      | PairArbitrary _ _ \<Rightarrow> False) = (op = CoIn))"
| "expression_holds env extras (EExtra (ExtraValid name) op) = (name \<in> set (env_extra extras) \<longleftrightarrow> op = ExEqual)"
| "expression_holds env extras (EExtra (ExtraArbitrary _) op) = False"

definition platform_pairs :: "(string \<times> string) list" where
  "platform_pairs = [(''Windows'', ''win32''), (''Darwin'', ''darwin''), (''Linux'', ''linux''), (''AIX'', ''aix''),
     (''Emscripten'', ''emscripten''), (''Android'', ''android'')]"

definition release_env :: "marker_environment \<Rightarrow> bool" where
  "release_env env \<longleftrightarrow> release_only_version (get_version env CvImplementationVersion)
     \<and> release_only_version (get_version env CvPythonFullVersion)
     \<and> list_all (\<lambda>(p, s). platform_system env = p \<longleftrightarrow> sys_platform env = s) platform_pairs"

definition listed_version :: "version \<Rightarrow> bool" where
  "listed_version v \<longleftrightarrow> release_only_version v \<and> version_release v \<noteq> [] \<and> u64_max \<notin> set (version_release v)"

fun expression_ok :: "marker_expression \<Rightarrow> bool" where
  "expression_ok (EVersion key s) \<longleftrightarrow> parsed_specifier s \<and> sp_operator s \<noteq> OpExactEqual
     \<and> (key = MvPythonVersion \<longrightarrow> room (version_release (sp_version s))
          \<and> (sp_operator s = OpNotEqualStar \<longrightarrow> list_all (\<lambda>x. x = 0) (drop 2 (version_release (sp_version s)))))"
| "expression_ok (EVersionIn key vs op) \<longleftrightarrow> list_all listed_version vs
     \<and> (key = MvPythonVersion \<longrightarrow> list_all (\<lambda>v. room (version_release v) \<and> list_all (\<lambda>x. x = 0) (drop 2 (version_release v))) vs)"
| "expression_ok (EString key op s) \<longleftrightarrow> op \<noteq> MTildeEqual"
| "expression_ok (EList (PairArbitrary _ _) op) \<longleftrightarrow> False"
| "expression_ok _ \<longleftrightarrow> True"

definition denotes :: "('r, version, 'm) ranges_scheme \<Rightarrow> ('s, string, 'n) ranges_scheme \<Rightarrow> ('r, 's) interner \<Rightarrow> marker_expression
    \<Rightarrow> (node_id \<times> ('r, 's) interner) option \<Rightarrow> bool" where
  "denotes R S st e m \<longleftrightarrow> (\<exists>res var Q. m = Some res \<and> adds R S {var} st Q res \<and> \<not> is_arbitrary var
     \<and> (\<forall>env extras. release_env env \<longrightarrow> Q (env_valuation env extras) = expression_holds env extras e))"

lemma release_env_get: "release_env env \<Longrightarrow> release_only_version (get_version env k)"
  by (cases k) (simp_all add: release_env_def)

lemma release_env_wf: "release_env env \<Longrightarrow> env_wf env"
  by (simp add: release_env_def env_wf_def release_only_version_def)

lemma denotes_created:
  assumes "\<exists>res. create_node var children st = Some res \<and> adds R S {var} st Q res" "\<not> is_arbitrary var"
    "expression_edges R S e = Ok (var, children)"
    "\<And>env extras. release_env env \<Longrightarrow> Q (env_valuation env extras) = expression_holds env extras e"
  shows "denotes R S st e (expression R S e st)"
proof -
  obtain res where "create_node var children st = Some res" "adds R S {var} st Q res" using assms(1) by blast
  then show ?thesis using assms(2-4) unfolding denotes_def expression_def
    by (intro exI [of _ res] exI [of _ var] exI [of _ Q]) simp
qed

lemma denotes_boolean:
  assumes "store_wf R S st" "expression_edges R S e = Ok (var, edges_from_bool b)" "edges_wf R S var (Boolean 0 0)" "\<not> is_arbitrary var"
    "\<And>env extras. (val_bool (env_valuation env extras) var = b) = expression_holds env extras e"
  shows "denotes R S st e (expression R S e st)"
proof (rule denotes_created [OF _ assms(4,2)])
  show "\<exists>res. create_node var (edges_from_bool b) st = Some res \<and> adds R S {var} st (\<lambda>val. val_bool val var = b) res"
  proof (rule create_constant_children [OF assms(1)])
    have t: "edges_wf R S var (Boolean h l)" "target R S val var (Boolean h l) = Some (if val_bool val var then h else l)" for h l val
      using assms(3) by (cases var; simp)+
    show "edges_wf R S var (edges_from_bool b)" by (simp add: edges_from_bool_def t)
    show "i = id_true \<or> i = id_false" if "i \<in> set (edge_nodes (edges_from_bool b))" for i
      using that by (auto simp: edges_from_bool_def split: if_splits)
    show "target R S val var (edges_from_bool b) = Some (if val_bool val var = b then id_true else id_false)" for val
      by (simp add: edges_from_bool_def t)
  qed
qed (rule assms(5))

lemma denotes_constant:
  assumes "store_wf R S st" "expression_edges R S e = Err i" "i = id_true \<or> i = id_false"
    "\<And>env extras. release_env env \<Longrightarrow> (i = id_true) = expression_holds env extras e"
  shows "denotes R S st e (expression R S e st)"
  unfolding denotes_def
  by (rule exI [of _ "(i, st)"], rule exI [of _ "VExtra ''''"], rule exI [of _ "\<lambda>_. i = id_true"])
    (use assms in \<open>auto simp: adds_def expression_def\<close>)

lemma release_specifier_parsed:
  assumes "release_specifier s" shows "parsed_specifier s"
proof -
  have "parsed_version (sp_version s)"
    using assms by (auto simp: release_specifier_def release_only_version_def parsed_version_def pep440_def)
  moreover have "valid_specifier s"
    using assms by (cases s) (auto simp: release_specifier_def valid_specifier_def from_version_def release_only_version_def is_local_def)
  ultimately show ?thesis using assms by (simp add: parsed_specifier_def release_specifier_def release_only_version_def)
qed

lemma parsed_only_release:
  assumes "parsed_specifier s" "sp_operator s \<noteq> OpExactEqual"
  obtains s' where "specifier_only_release s = Some s'" "sp_operator s' = sp_operator s" "release_specifier s'"
    "version_release (sp_version s') = version_release (sp_version s)"
proof -
  have a: "version_release (sp_version s) \<noteq> []" "u64_max \<notin> set (version_release (sp_version s))"
    using assms(1) by (simp_all add: parsed_specifier_def parsed_version_def pep440_def)
  have l: "sp_operator s = OpTildeEqual \<Longrightarrow> 1 < length (version_release (sp_version s))"
    using assms(1) by (auto simp: parsed_specifier_def valid_specifier_def from_version_def split: if_splits)
  obtain w where w: "version_new (version_release (sp_version s)) = Some w" "release_only_version w" "version_release w = version_release (sp_version s)"
    by (rule version_new_release_only [OF a(1)])
  show thesis
    by (rule that [of "s\<lparr>sp_version := w\<rparr>"])
      (use w a l assms(2) in \<open>simp_all add: specifier_only_release_def only_release_def release_specifier_def\<close>)
qed

lemma python_version_equal_Ok:
  assumes "\<And>xs. full_version_meets (spec OpEqual w) xs m" "list_all (\<lambda>x. x = 0) (drop 2 (version_release w))"
  shows "\<exists>t. m = Ok t"
proof (cases m)
  case (Err i)
  let ?ns = "version_release w"
  have "trim_release (major_minor ?ns) = trim_release ?ns"
  proof -
    have "get_or_zero ?ns (Suc (Suc i)) = 0" for i
      using assms(2) by (auto simp: get_or_zero_def list_all_length dest: spec [of _ i])
    then show ?thesis unfolding major_minor_def trim_two_eq by simp
  qed
  moreover have "trim_release (major_minor [get_or_zero ?ns 0 + 1]) \<noteq> trim_release ?ns"
    unfolding major_minor_def trim_two_eq by (simp add: get_or_zero_def)
  ultimately show ?thesis
    using assms(1) [of ?ns] assms(1) [of "[get_or_zero ?ns 0 + 1]"] by (auto simp: Err full_version_meets_def)
qed (use assms(1) in \<open>simp_all add: full_version_meets_def\<close>)

context marker_ranges
begin

lemma denotes_version:
  assumes "store_wf R S st" "\<And>env extras. release_env env \<Longrightarrow> r_contains R r (get_version env k) = expression_holds env extras e"
    "\<And>es :: ('r \<times> node_id) list. from_range version_cmp R r = Some es \<Longrightarrow> expression_edges R S e = Ok (VVersion k, Versions es)"
  shows "denotes R S st e (expression R S e st)"
proof -
  obtain es where es: "from_range version_cmp R r = Some es" "partitions wf_version (r_contains R) (map fst es)"
    "\<And>v. wf_version v \<Longrightarrow> edge_target (\<lambda>x. r_contains R x v) es = Some (if r_contains R r v then id_true else id_false)"
    "\<And>i. i \<in> set (map snd es) \<Longrightarrow> i = id_true \<or> i = id_false"
    by (rule from_range_edges [of version_cmp r]) simp_all
  have "\<exists>res. create_node (VVersion k) (Versions es) st = Some res \<and> adds R S {VVersion k} st (\<lambda>val. r_contains R r (val_version val k)) res"
    by (rule create_constant_children [OF assms(1)]) (use es in \<open>auto simp: val_ok_def\<close>)
  then show ?thesis
    by (rule denotes_created [OF _ _ assms(3) [OF es(1)]]) (use assms(2) in \<open>simp_all add: env_valuation_def\<close>)
qed

lemma release_specifier_range:
  assumes "release_specifier s"
  obtains r where "release_specifier_to_range R s True = Some r"
    "\<And>v. release_only_version v \<Longrightarrow> r_contains R r v = release_holds (sp_operator s) (version_release (sp_version s)) (version_release v)"
proof -
  have p: "parsed_specifier s" "sp_operator s \<noteq> OpExactEqual" "is_star (sp_operator s) \<longrightarrow> version_epoch (sp_version s) = 0"
    using release_specifier_parsed [OF assms] assms by (auto simp: release_specifier_def release_only_version_def)
  obtain z where z: "release_only_version z" by (rule version_new_release_only [of "[0]"]) simp
  obtain r where r: "release_specifier_to_range R s True = Some r"
    using release_specifier_contains [OF p(1) z p(2,3)] by blast
  have "r_contains R r v = release_holds (sp_operator s) (version_release (sp_version s)) (version_release v)" if v: "release_only_version v" for v
  proof -
    obtain w where w: "only_release (sp_version s) = Some w" "r_contains R r v \<longleftrightarrow> contains (spec (sp_operator s) w) v = Some True"
      using release_specifier_contains [OF p(1) v p(2,3), of True] r by auto
    obtain s' where s': "specifier_only_release s = Some s'" "sp_operator s' = sp_operator s" "release_specifier s'"
      "version_release (sp_version s') = version_release (sp_version s)"
      by (rule parsed_only_release [OF p(1,2)])
    then have "s' = spec (sp_operator s) w" using w(1) by (auto simp: specifier_only_release_def)
    with s' have "release_specifier (spec (sp_operator s) w)" "version_release w = version_release (sp_version s)" by simp_all
    then show ?thesis using contains_release_holds [of "spec (sp_operator s) w" v] v w(2) by simp
  qed
  then show thesis using that r by blast
qed

lemma from_specifier_range:
  assumes "parsed_specifier s" "sp_operator s \<noteq> OpExactEqual"
  obtains r where "\<And>es. from_range version_cmp R r = Some es \<Longrightarrow> (from_specifier R s :: ('r, 's) edges option) = Some (Versions es)"
    "\<And>v. release_only_version v \<Longrightarrow> r_contains R r v = release_holds (sp_operator s) (version_release (sp_version s)) (version_release v)"
proof -
  obtain s' where s': "specifier_only_release s = Some s'" "sp_operator s' = sp_operator s" "release_specifier s'"
    "version_release (sp_version s') = version_release (sp_version s)"
    by (rule parsed_only_release [OF assms])
  obtain r where r: "release_specifier_to_range R s' True = Some r"
    "\<And>v. release_only_version v \<Longrightarrow> r_contains R r v = release_holds (sp_operator s') (version_release (sp_version s')) (version_release v)"
    using release_specifier_range [OF s'(3)] by blast
  have "(from_specifier R s :: ('r, 's) edges option) = Some (Versions es)" if "from_range version_cmp R r = Some es" for es
    using that s'(1) r(1) by (simp add: from_specifier_def)
  then show thesis using r(2) unfolding s'(2,4) by (rule that)
qed

section \<open>Each kind of expression\<close>

abbreviation version_var :: "marker_value_version \<Rightarrow> canonical_version" where
  "version_var key \<equiv> if key = MvImplementationVersion then CvImplementationVersion else CvPythonFullVersion"

lemma version_value_var: "key \<noteq> MvPythonVersion \<Longrightarrow> version_value env key = version_release (get_version env (version_var key))"
  by (cases key) (simp_all add: version_value_def)

lemma version_expression:
  assumes "store_wf R S st" "expression_ok (EVersion key s)" "key \<noteq> MvPythonVersion"
  shows "denotes R S st (EVersion key s) (expression R S (EVersion key s) st)"
proof -
  obtain r where r: "\<And>es. from_range version_cmp R r = Some es \<Longrightarrow> (from_specifier R s :: ('r, 's) edges option) = Some (Versions es)"
    "\<And>v. release_only_version v \<Longrightarrow> r_contains R r v = release_holds (sp_operator s) (version_release (sp_version s)) (version_release v)"
    using from_specifier_range [of s] assms(2) by auto
  show ?thesis
  proof (rule denotes_version [OF assms(1), where k = "version_var key"])
    show "r_contains R r (get_version env (version_var key)) = expression_holds env extras (EVersion key s)" if "release_env env" for env extras
      unfolding expression_holds.simps version_value_var [OF assms(3)] by (rule r(2) [OF release_env_get [OF that]])
    show "expression_edges R S (EVersion key s) = Ok (VVersion (version_var key), Versions es)" if "from_range version_cmp R r = Some es" for es
      using r(1) [OF that] assms(3) by (cases key) (simp_all add: expression_edges_def)
  qed
qed

lemma python_version_expression:
  assumes "store_wf R S st" "expression_ok (EVersion MvPythonVersion s)"
  shows "denotes R S st (EVersion MvPythonVersion s) (expression R S (EVersion MvPythonVersion s) st)"
proof -
  let ?e = "EVersion MvPythonVersion s"
  obtain t where t: "specifier_only_release s = Some t" "sp_operator t = sp_operator s" "release_specifier t"
    "version_release (sp_version t) = version_release (sp_version s)"
    using parsed_only_release [of s] assms(2) by auto
  have m: "full_version_meets t xs (python_version_to_full_version t)" for xs
    by (rule python_version_to_full_version_meets) (use t assms(2) in simp_all)
  have h: "expression_holds env extras ?e = release_holds (sp_operator t) (version_release (sp_version t)) (major_minor (version_release (get_version env CvPythonFullVersion)))"
    for env extras using t(2,4) by (simp add: version_value_def)
  show ?thesis
  proof (cases "python_version_to_full_version t")
    case (Ok u)
    have u: "release_specifier u" "\<And>xs. release_holds (sp_operator u) (version_release (sp_version u)) xs
        = release_holds (sp_operator t) (version_release (sp_version t)) (major_minor xs)"
      using m by (simp_all add: Ok full_version_meets_def)
    have ne: "sp_operator u \<noteq> OpExactEqual" using u(1) by (simp add: release_specifier_def)
    obtain r where r: "\<And>es. from_range version_cmp R r = Some es \<Longrightarrow> (from_specifier R u :: ('r, 's) edges option) = Some (Versions es)"
      "\<And>v. release_only_version v \<Longrightarrow> r_contains R r v = release_holds (sp_operator u) (version_release (sp_version u)) (version_release v)"
      using from_specifier_range [OF release_specifier_parsed [OF u(1)] ne] by blast
    show ?thesis
    proof (rule denotes_version [OF assms(1), where k = CvPythonFullVersion])
      show "r_contains R r (get_version env CvPythonFullVersion) = expression_holds env extras ?e" if "release_env env" for env extras
        unfolding h r(2) [OF release_env_get [OF that]] u(2) ..
      show "expression_edges R S ?e = Ok (VVersion CvPythonFullVersion, Versions es)" if "from_range version_cmp R r = Some es" for es
        using r(1) [OF that] t(1) Ok by (simp add: expression_edges_def)
    qed
  next
    case (Err i)
    then have i: "i = (if release_holds (sp_operator t) (version_release (sp_version t)) (major_minor xs) then id_true else id_false)" for xs
      using m [of xs] by (simp add: full_version_meets_def)
    show ?thesis
    proof (rule denotes_constant [OF assms(1)])
      show "expression_edges R S ?e = Err i" using t(1) Err by (simp add: expression_edges_def)
      show "i = id_true \<or> i = id_false" using i [of "[]"] by (cases "release_holds (sp_operator t) (version_release (sp_version t)) (major_minor [])") simp_all
      show "(i = id_true) = expression_holds env extras ?e" for env extras
        unfolding h using i [of "version_release (get_version env CvPythonFullVersion)"] by (metis One_nat_def zero_neq_one)
    qed
  qed (use m in \<open>simp add: full_version_meets_def\<close>)
qed

lemma release_only_key_eq:
  assumes "release_only_version u" "release_only_version v"
  shows "version_key u = version_key v \<longleftrightarrow> trim_release (version_release u) = trim_release (version_release v)"
  using release_only_order(3) [OF assms] assms by (simp add: version_order_key release_only_version_def)

lemma collect_versions:
  assumes "list_all listed_version vs" "release_only_version v"
  shows "r_contains R (r_collect R (map (\<lambda>v. (Included v, Included v)) vs)) v
    \<longleftrightarrow> list_ex (\<lambda>u. trim_release (version_release u) = trim_release (version_release v)) vs"
proof -
  have w: "wf_version v" using assms(2) by (simp add: release_only_version_def)
  have "list_all (wf_segment wf_version) (map (\<lambda>v. (Included v, Included v)) vs)"
    using assms(1) by (auto simp: list_all_iff listed_version_def release_only_version_def wf_segment_def)
  then have "r_contains R (r_collect R (map (\<lambda>v. (Included v, Included v)) vs)) v \<longleftrightarrow> list_ex (\<lambda>u. version_key u = version_key v) vs"
    by (subst collect_law [OF w]) (auto simp: list_ex_iff within_def order.eq_iff)
  also have "\<dots> \<longleftrightarrow> list_ex (\<lambda>u. trim_release (version_release u) = trim_release (version_release v)) vs"
    using assms release_only_key_eq by (auto simp: list_ex_iff list_all_iff listed_version_def)
  finally show ?thesis .
qed

lemma versions_expression:
  assumes "store_wf R S st" "expression_ok (EVersionIn key vs op)" "key \<noteq> MvPythonVersion"
  shows "denotes R S st (EVersionIn key vs op) (expression R S (EVersionIn key vs op) st)"
proof -
  let ?c = "r_collect R (map (\<lambda>v. (Included v, Included v)) vs)"
  let ?r = "if op = CoNotIn then r_complement R ?c else ?c"
  show ?thesis
  proof (rule denotes_version [OF assms(1), where k = "version_var key" and r = ?r])
    show "r_contains R ?r (get_version env (version_var key)) = expression_holds env extras (EVersionIn key vs op)" if "release_env env" for env extras
    proof -
      have v: "release_only_version (get_version env (version_var key))" by (rule release_env_get [OF that])
      then have "wf_version (get_version env (version_var key))" by (simp add: release_only_version_def)
      then show ?thesis
        unfolding expression_holds.simps version_value_var [OF assms(3)]
        using complement_law collect_versions [OF _ v, of vs] assms(2) by (cases op) simp_all
    qed
    show "expression_edges R S (EVersionIn key vs op) = Ok (VVersion (version_var key), Versions es)" if "from_range version_cmp R ?r = Some es" for es
      using that assms(3) by (cases key) (simp_all add: expression_edges_def from_versions_def Let_def)
  qed
qed

lemma python_version_segments_mean:
  assumes "list_all (\<lambda>v. listed_version v \<and> room (version_release v) \<and> list_all (\<lambda>x. x = 0) (drop 2 (version_release v))) vs"
  shows "\<exists>xs. python_version_segments R vs = Ok xs \<and> list_all (wf_segment wf_version) xs
    \<and> (\<forall>v. release_only_version v \<longrightarrow> (list_ex (within version_key v) xs
         \<longleftrightarrow> list_ex (\<lambda>u. trim_release (version_release u) = trim_release (major_minor (version_release v))) vs))"
  using assms
proof (induction vs)
  case (Cons u us)
  have u: "listed_version u" "room (version_release u)" "list_all (\<lambda>x. x = 0) (drop 2 (version_release u))" using Cons.prems by simp_all
  obtain w where w: "only_release u = Some w" "release_only_version w" "version_release w = version_release u"
    using version_new_release_only [of "version_release u"] u(1) by (auto simp: only_release_def listed_version_def)
  have rs: "release_specifier (equals_version w)" using w u(1) by (simp add: release_specifier_def listed_version_def)
  have m: "full_version_meets (equals_version w) xs (python_version_to_full_version (equals_version w))" for xs
    by (rule python_version_to_full_version_meets [OF rs]) (use u(2) w(3) in simp_all)
  obtain t where t: "python_version_to_full_version (equals_version w) = Ok t"
    using python_version_equal_Ok [of w, OF m [unfolded equals_version_def]] u(3) w(3) by auto
  have "release_specifier t" using m [of "[]"] by (simp add: t [unfolded equals_version_def] full_version_meets_def)
  then obtain r where r: "release_specifier_to_range R t True = Some r"
    "\<And>v. release_only_version v \<Longrightarrow> r_contains R r v = release_holds (sp_operator t) (version_release (sp_version t)) (version_release v)"
    using release_specifier_range by blast
  obtain xs where xs: "python_version_segments R us = Ok xs" "list_all (wf_segment wf_version) xs"
    "\<And>v. release_only_version v \<Longrightarrow> list_ex (within version_key v) xs
         \<longleftrightarrow> list_ex (\<lambda>u. trim_release (version_release u) = trim_release (major_minor (version_release v))) us"
    using Cons by auto
  have "list_ex (within version_key v) (r_iter R r) \<longleftrightarrow> trim_release (version_release u) = trim_release (major_minor (version_release v))"
    if "release_only_version v" for v
    using iter_law [of v r] r(2) [OF that] m [of "version_release v"] that w(3)
    by (auto simp: t [unfolded equals_version_def] full_version_meets_def release_only_version_def)
  then show ?case using w(1) t r(1) xs iter_wf [of r] by auto
qed simp

lemma python_versions_expression:
  assumes "store_wf R S st" "expression_ok (EVersionIn MvPythonVersion vs op)"
  shows "denotes R S st (EVersionIn MvPythonVersion vs op) (expression R S (EVersionIn MvPythonVersion vs op) st)"
proof -
  let ?e = "EVersionIn MvPythonVersion vs op"
  obtain xs where xs: "python_version_segments R vs = Ok xs" "list_all (wf_segment wf_version) xs"
    "\<And>v. release_only_version v \<Longrightarrow> list_ex (within version_key v) xs
         \<longleftrightarrow> list_ex (\<lambda>u. trim_release (version_release u) = trim_release (major_minor (version_release v))) vs"
    using python_version_segments_mean [of vs] assms(2) by (auto simp: list_all_iff)
  let ?r = "if op = CoNotIn then r_complement R (r_collect R xs) else r_collect R xs"
  show ?thesis
  proof (rule denotes_version [OF assms(1), where k = CvPythonFullVersion and r = ?r])
    show "r_contains R ?r (get_version env CvPythonFullVersion) = expression_holds env extras ?e" if "release_env env" for env extras
    proof -
      let ?v = "get_version env CvPythonFullVersion"
      have v: "release_only_version ?v" by (rule release_env_get [OF that])
      then have w: "wf_version ?v" by (simp add: release_only_version_def)
      have h: "expression_holds env extras ?e
          = (list_ex (\<lambda>u. trim_release (version_release u) = trim_release (major_minor (version_release ?v))) vs = (op = CoIn))"
        by (simp add: version_value_def)
      show ?thesis unfolding h xs(3) [OF v, symmetric] using complement_law [OF w] collect_law [OF w xs(2)]
        by (cases op) (simp_all del: get_version.simps)
    qed
    show "expression_edges R S ?e = Ok (VVersion CvPythonFullVersion, Versions es)" if "from_range version_cmp R ?r = Some es" for es
      using that xs(1) by (simp add: expression_edges_def from_python_versions_def Let_def)
  qed
qed

lemma normalized_platform:
  assumes "release_env env" "normalize_platform key s = (key', s')"
  shows "string_holds key' op s' (get_string env key') = string_holds (canonical_of key) op s (get_string env (canonical_of key))"
proof (cases "if key = MsPlatformSystem then map_of platform_pairs s else None")
  case None
  then have "(key', s') = (canonical_of key, s)"
    using assms(2) unfolding normalize_platform_def platform_pairs_def [symmetric] by simp
  then show ?thesis by simp
next
  case (Some t)
  then have k: "key = MsPlatformSystem" "map_of platform_pairs s = Some t" by (simp_all split: if_splits)
  have n: "(key', s') = (CsSysPlatform, t)"
    using assms(2) Some unfolding normalize_platform_def platform_pairs_def [symmetric] by simp
  have "platform_system env = s \<longleftrightarrow> sys_platform env = t"
    using assms(1) map_of_SomeD [OF k(2)] unfolding release_env_def list_all_iff by fast
  then show ?thesis using n k(1) by (cases op) (simp_all add: string_holds_def)
qed

lemma denotes_string:
  assumes "store_wf R S st" "op \<in> {MEqual, MNotEqual, MGreaterThan, MGreaterEqual, MLessThan, MLessEqual}"
  shows "denotes R S st (EString key op s) (expression R S (EString key op s) st)"
proof -
  obtain key' s' where n: "normalize_platform key s = (key', s')" by fastforce
  obtain res where res: "expression R S (EString key op s) st = Some res"
    "adds R S {VString key'} st (\<lambda>val. string_holds key' op s' (val_string val key')) res"
    using string_expression [OF assms n] by blast
  have "string_holds key' op s' (val_string (env_valuation env extras) key') = expression_holds env extras (EString key op s)"
    if "release_env env" for env extras
    using normalized_platform [OF that n, of op] assms(2) by (auto simp: env_valuation_def)
  then show ?thesis using res unfolding denotes_def
    by (intro exI [of _ res] exI [of _ "VString key'"] exI [of _ "\<lambda>val. string_holds key' op s' (val_string val key')"]) simp
qed

lemma expression_denotes:
  assumes "store_wf R S st" "expression_ok e"
  shows "denotes R S st e (expression R S e st)"
proof (cases e)
  case (EVersion key s)
  show ?thesis
    using version_expression [OF assms(1), of key s] python_version_expression [OF assms(1), of s] assms(2) unfolding EVersion
    by (cases "key = MvPythonVersion") (simp_all del: expression_ok.simps)
next
  case (EVersionIn key vs op)
  show ?thesis
    using versions_expression [OF assms(1), of key vs op] python_versions_expression [OF assms(1), of vs op] assms(2) unfolding EVersionIn
    by (cases "key = MvPythonVersion") (simp_all del: expression_ok.simps)
next
  case (EString key op s)
  note b = denotes_boolean [OF assms(1), where var = "VIn (canonical_of key) s"] denotes_boolean [OF assms(1), where var = "VContains (canonical_of key) s"]
  show ?thesis
  proof (cases "op \<in> {MEqual, MNotEqual, MGreaterThan, MGreaterEqual, MLessThan, MLessEqual}")
    case True
    then show ?thesis unfolding EString by (rule denotes_string [OF assms(1)])
  next
    case False
    then consider "op = MIn" | "op = MNotIn" | "op = MContains" | "op = MNotContains" using assms(2) EString by (cases op) simp_all
    then show ?thesis
    proof cases
      case 1
      show ?thesis unfolding EString 1 by (rule b(1) [of _ True]) (simp_all add: expression_edges_def env_valuation_def)
    next
      case 2
      show ?thesis unfolding EString 2 by (rule b(1) [of _ False]) (simp_all add: expression_edges_def env_valuation_def)
    next
      case 3
      show ?thesis unfolding EString 3 by (rule b(2) [of _ True]) (simp_all add: expression_edges_def env_valuation_def)
    next
      case 4
      show ?thesis unfolding EString 4 by (rule b(2) [of _ False]) (simp_all add: expression_edges_def env_valuation_def)
    qed
  qed
next
  case (EList pair op)
  have na: "\<not> is_arbitrary (VList pair)" using assms(2) EList by (cases pair) simp_all
  show ?thesis unfolding EList
    by (rule denotes_boolean [OF assms(1), where var = "VList pair" and b = "op = CoIn"])
      (use na in \<open>simp_all add: expression_edges_def env_valuation_def split: list_pair.split\<close>)
next
  case (EExtra x op)
  show ?thesis
  proof (cases x)
    case (ExtraValid name)
    show ?thesis unfolding EExtra ExtraValid
      by (rule denotes_boolean [OF assms(1), where var = "VExtra name" and b = "op = ExEqual"]) (simp_all add: expression_edges_def env_valuation_def)
  next
    case (ExtraArbitrary name)
    show ?thesis unfolding EExtra ExtraArbitrary
      by (rule denotes_constant [OF assms(1), of _ id_false]) (simp_all add: expression_edges_def)
  qed
qed

end

end
