(* ===== verification/Marker_Restrict.thy ===== *)
theory Marker_Restrict
  imports Marker_Ops
begin

text \<open>
  Operations that eliminate variables (\<open>algebra.rs\<close>): restriction of a marker under an assumption,
  and the removal of extras or of everything else. They recurse on nodes that the operation itself
  creates, so the recursion is bounded by the number of variables in the interner and not by the
  identifiers; the fuel is one more than twice the nodes and the three variables of the exclusions.
\<close>

definition depth_bound :: "('r, 's) interner \<Rightarrow> nat" where
  "depth_bound st = length (i_nodes st) + 3"

text \<open>The disjunction of the children: the variable is quantified out.\<close>

fun or_children :: "('r, version, 'm) ranges_scheme \<Rightarrow> ('s, string, 'n) ranges_scheme \<Rightarrow> node_id \<Rightarrow> node_id list \<Rightarrow> node_id
    \<Rightarrow> ('r, 's) interner \<Rightarrow> (node_id \<times> ('r, 's) interner) option" where
  "or_children R S parent [] acc st = Some (acc, st)"
| "or_children R S parent (c # cs) acc st = do {
     (acc', st') \<leftarrow> marker_or R S acc (id_negate c parent) st;
     or_children R S parent cs acc' st'
   }"

section \<open>Restriction under an assumption\<close>

definition restrict_shortcut :: "node_id \<Rightarrow> node_id \<Rightarrow> node_id option" where
  "restrict_shortcut i assumption =
    (if assumption = id_true \<or> i = id_true \<or> i = id_false then Some i
     else if assumption = id_false then Some id_false
     else if i = assumption then Some id_true
     else if i = id_not assumption then Some id_false
     else None)"

text \<open>The first pass over the edges: it remembers the first reachable child.\<close>

definition find_fallback :: "(node_id \<Rightarrow> node_id \<Rightarrow> 'st \<Rightarrow> (node_id \<times> 'st) option) \<Rightarrow> node_id \<Rightarrow> node_id
    \<Rightarrow> node_id option \<times> 'st \<Rightarrow> (node_id \<times> node_id option \<times> 'st) option" where
  "find_fallback f i assumption s =
    (case s of (fallback, st) \<Rightarrow>
       if assumption = id_false then Some (id_false, fallback, st)
       else do {
         (r, st') \<leftarrow> f i assumption st;
         Some (r, (case fallback of None \<Rightarrow> Some r | Some x \<Rightarrow> Some x), st')
       })"

text \<open>The second pass: unreachable children become the fallback.\<close>

definition use_fallback :: "(node_id \<Rightarrow> node_id \<Rightarrow> 'st \<Rightarrow> (node_id \<times> 'st) option) \<Rightarrow> node_id \<Rightarrow> node_id \<Rightarrow> node_id
    \<Rightarrow> 'st \<Rightarrow> (node_id \<times> 'st) option" where
  "use_fallback f fallback i assumption st = (if assumption = id_false then Some (fallback, st) else f i assumption st)"

primrec restrict_fuel :: "nat \<Rightarrow> ('r, version, 'm) ranges_scheme \<Rightarrow> ('s, string, 'n) ranges_scheme \<Rightarrow> node_id \<Rightarrow> node_id
    \<Rightarrow> and_cache \<times> ('r, 's) interner \<Rightarrow> (node_id \<times> and_cache \<times> ('r, 's) interner) option" where
  "restrict_fuel 0 R S = (\<lambda>i assumption s. None)"
| "restrict_fuel (Suc fuel) R S = (\<lambda>i assumption s.
    (case restrict_shortcut i assumption of
       Some r \<Rightarrow> Some (r, s)
     | None \<Rightarrow>
         (case fst s (i, assumption) of
            Some r \<Rightarrow> Some (r, s)
          | None \<Rightarrow> do {
              x \<leftarrow> interner_node (snd s) i;
              a \<leftarrow> interner_node (snd s) assumption;
              (case variable_cmp (n_var x) (n_var a) of
                 Less \<Rightarrow> do {
                   (children, (cache, st1)) \<leftarrow> edges_map (\<lambda>n. restrict_fuel fuel R S n assumption) i (n_children x) s;
                   (r, st2) \<leftarrow> create_node (n_var x) children st1;
                   Some (r, cache((i, assumption) \<mapsto> r), st2)
                 }
               | Greater \<Rightarrow> do {
                   (q, st1) \<leftarrow> or_children R S assumption (edge_nodes (n_children a)) id_false (snd s);
                   (r, (cache, st2)) \<leftarrow> restrict_fuel fuel R S i q (fst s, st1);
                   Some (r, cache((i, assumption) \<mapsto> r), st2)
                 }
               | Equal \<Rightarrow> do {
                   (_, (fallback, s1)) \<leftarrow> edges_apply R S (find_fallback (restrict_fuel fuel R S)) (n_children x) i
                       (n_children a) assumption (None, s);
                   (case fallback of
                      None \<Rightarrow> Some (id_false, s1)
                    | Some fb \<Rightarrow> do {
                        (children, (cache, st1)) \<leftarrow> edges_apply R S (use_fallback (restrict_fuel fuel R S) fb) (n_children x) i
                            (n_children a) assumption s1;
                        (r, st2) \<leftarrow> create_node (n_var x) children st1;
                        Some (r, cache((i, assumption) \<mapsto> r), st2)
                      })
                 })
            })))"

definition restrict where
  "restrict R S i assumption st = do {
     (r, (_, st')) \<leftarrow> restrict_fuel (Suc (2 * depth_bound st)) R S i assumption (Map.empty, st);
     Some (r, st')
   }"

section \<open>Removing variables\<close>

fun is_extra_var :: "variable \<Rightarrow> bool" where
  "is_extra_var (VExtra _) = True"
| "is_extra_var _ = False"

primrec without_extras_fuel :: "nat \<Rightarrow> ('r, version, 'm) ranges_scheme \<Rightarrow> ('s, string, 'n) ranges_scheme \<Rightarrow> node_id
    \<Rightarrow> (node_id \<Rightarrow> node_id option) \<times> ('r, 's) interner \<Rightarrow> (node_id \<times> (node_id \<Rightarrow> node_id option) \<times> ('r, 's) interner) option" where
  "without_extras_fuel 0 R S = (\<lambda>i s. None)"
| "without_extras_fuel (Suc fuel) R S = (\<lambda>i s.
    if i = id_true \<or> i = id_false then Some (i, s)
    else (case fst s i of
       Some r \<Rightarrow> Some (r, s)
     | None \<Rightarrow> do {
         n \<leftarrow> interner_node (snd s) i;
         (r, (cache, st')) \<leftarrow>
           (if is_extra_var (n_var n) then do {
              (q, st1) \<leftarrow> or_children R S i (edge_nodes (n_children n)) id_false (snd s);
              if q = id_true then Some (id_true, fst s, st1) else without_extras_fuel fuel R S q (fst s, st1)
            } else do {
              (children, (cache1, st1)) \<leftarrow> edges_map (without_extras_fuel fuel R S) i (n_children n) s;
              (r, st2) \<leftarrow> create_node (n_var n) children st1;
              Some (r, cache1, st2)
            });
         Some (r, cache(i \<mapsto> r), st')
       }))"

definition without_extras where
  "without_extras R S i st = do {
     (r, (_, st')) \<leftarrow> without_extras_fuel (Suc (depth_bound st)) R S i (Map.empty, st);
     Some (r, st')
   }"

primrec only_extras_fuel :: "nat \<Rightarrow> ('r, version, 'm) ranges_scheme \<Rightarrow> ('s, string, 'n) ranges_scheme \<Rightarrow> node_id
    \<Rightarrow> ('r, 's) interner \<Rightarrow> (node_id \<times> ('r, 's) interner) option" where
  "only_extras_fuel 0 R S = (\<lambda>i st. None)"
| "only_extras_fuel (Suc fuel) R S = (\<lambda>i st.
    if i = id_true \<or> i = id_false then Some (i, st)
    else do {
      n \<leftarrow> interner_node st i;
      if \<not> is_extra_var (n_var n) then do {
        (q, st1) \<leftarrow> or_children R S i (edge_nodes (n_children n)) id_false st;
        if q = id_true then Some (id_true, st1) else only_extras_fuel fuel R S q st1
      } else do {
        (children, st1) \<leftarrow> edges_map (only_extras_fuel fuel R S) i (n_children n) st;
        create_node (n_var n) children st1
      }
    })"

definition only_extras where
  "only_extras R S i st = only_extras_fuel (Suc (depth_bound st)) R S i st"

end
