(* ===== verification/Marker_Properties.thy ===== *)
theory Marker_Properties
  imports Marker_Expressions Marker_Restrict
begin

text \<open>
  Properties of the marker algebra: the interner as a state machine, the operations on markers, and
  evaluation. The ranges are any that obey their laws; the examples use lists of segments.
\<close>

section \<open>Ranges of strings\<close>

definition string_segments :: "(string segment list, string) ranges" where
  "string_segments = segment_ranges_of (\<lambda>_. True) (\<lambda>s. s)"

interpretation markers: marker_ranges segment_ranges string_segments
  unfolding string_segments_def by (intro marker_ranges.intro segs.lawful_ranges_axioms segment_ranges_lawful)

section \<open>The interner as a state machine\<close>

text \<open>One operation on the interner, on markers that it gave out earlier.\<close>

inductive interner_step :: "('r, version, 'm) ranges_scheme \<Rightarrow> ('s, string, 'n) ranges_scheme \<Rightarrow> ('r, 's) interner
    \<Rightarrow> ('r, 's) interner \<Rightarrow> bool" for R S where
  step_expression: "expression_ok e \<Longrightarrow> expression R S e st = Some (i, st') \<Longrightarrow> interner_step R S st st'"
| step_and: "valid (i_nodes st) x \<Longrightarrow> valid (i_nodes st) y \<Longrightarrow> marker_and R S x y st = Some (i, st') \<Longrightarrow> interner_step R S st st'"
| step_or: "valid (i_nodes st) x \<Longrightarrow> valid (i_nodes st) y \<Longrightarrow> marker_or R S x y st = Some (i, st') \<Longrightarrow> interner_step R S st st'"
| step_disjoint: "valid (i_nodes st) x \<Longrightarrow> valid (i_nodes st) y \<Longrightarrow> is_disjoint R S x y st = Some (b, st') \<Longrightarrow> interner_step R S st st'"
| step_restrict_by: "valid (i_nodes st) x \<Longrightarrow> restrict_by f x st = Some (i, st') \<Longrightarrow> interner_step R S st st'"

inductive interner_reachable :: "('r, version, 'm) ranges_scheme \<Rightarrow> ('s, string, 'n) ranges_scheme \<Rightarrow> ('r, 's) interner \<Rightarrow> bool"
  for R S where
  reachable_default: "interner_reachable R S interner_default"
| reachable_step: "interner_reachable R S st \<Longrightarrow> interner_step R S st st' \<Longrightarrow> interner_reachable R S st'"

inductive_cases interner_stepE: "interner_step R S st st'"

definition plain_vars :: "variable set" where
  "plain_vars = {v. \<not> is_arbitrary v}"

abbreviation interner_plain where
  "interner_plain R S \<equiv> interner_in R S plain_vars"

lemma exclusion_vars_plain: "exclusion_vars \<subseteq> plain_vars"
  by (auto simp: exclusion_vars_def plain_vars_def)

lemma interner_plain_facts:
  assumes "interner_plain R S st"
  shows "interner_ok R S st" "store_wf R S st" "nodes_wf R S (i_nodes st)" "arbitrary_free st"
  using assms by (auto simp: interner_in_def interner_ok_def store_wf_def vars_in_def plain_vars_def arbitrary_free_def list_all_iff)

lemma yields_plain:
  assumes "yields R S G i_nodes (interner_plain R S) st B Q m"
  obtains i st' where "m = Some (i, st')" "interner_plain R S st'" "prefix (i_nodes st) (i_nodes st')" "valid (i_nodes st') i"
    "\<And>val. G val \<Longrightarrow> sem R S (i_nodes st') val i = Q val"
  using assms by (auto simp: yields_def)

lemma adds_plain:
  assumes "interner_plain R S st" "adds R S {var} st Q (i, st')" "\<not> is_arbitrary var"
  shows "interner_plain R S st'" "prefix (i_nodes st) (i_nodes st')" "valid (i_nodes st') i"
proof -
  have a: "store_wf R S st'" "prefix (i_nodes st) (i_nodes st')" "i_cache st' = i_cache st" "i_exclusions st' = i_exclusions st"
    "vars_in plain_vars (i_nodes st')" and v: "valid (i_nodes st') i"
    using assms by (auto simp: adds_def interner_in_def plain_vars_def)
  then show "interner_plain R S st'" "prefix (i_nodes st) (i_nodes st')" "valid (i_nodes st') i"
    using interner_ok_extend [OF _ a(1-4)] assms(1) by (simp_all add: interner_in_def)
qed

context marker_ranges
begin

lemma expression_plain:
  assumes "interner_plain R S st" "expression_ok e"
  obtains i st' where "expression R S e st = Some (i, st')" "interner_plain R S st'" "prefix (i_nodes st) (i_nodes st')" "valid (i_nodes st') i"
    "\<And>env extras. release_env env \<Longrightarrow> sem R S (i_nodes st') (env_valuation env extras) i = expression_holds env extras e"
proof -
  obtain i st' var Q where r: "expression R S e st = Some (i, st')" "adds R S {var} st Q (i, st')" "\<not> is_arbitrary var"
    "\<And>env extras. release_env env \<Longrightarrow> Q (env_valuation env extras) = expression_holds env extras e"
    using expression_denotes [OF interner_plain_facts(2) [OF assms(1)] assms(2)] unfolding denotes_def by (metis surj_pair)
  have "sem R S (i_nodes st') (env_valuation env extras) i = expression_holds env extras e" if "release_env env" for env extras
    using r(2,4) env_valuation_ok [OF release_env_wf [OF that]] that by (simp add: adds_def)
  then show thesis using that r(1) adds_plain [OF assms(1) r(2,3)] by blast
qed

lemmas and_plain = yields_plain [OF marker_and_yields [OF _ exclusion_vars_plain]]
lemmas or_plain = yields_plain [OF marker_or_yields [OF _ exclusion_vars_plain]]
lemmas restrict_by_plain = yields_plain [OF restrict_by_yields]

lemma step_plain:
  assumes "interner_step R S st st'" "interner_plain R S st"
  shows "interner_plain R S st' \<and> prefix (i_nodes st) (i_nodes st')"
  using assms(1)
proof (cases rule: interner_step.cases)
  case (step_expression e i)
  then show ?thesis using expression_plain [OF assms(2), of e] by auto
next
  case (step_and x y i)
  then show ?thesis using and_plain [OF assms(2), of x y] by auto
next
  case (step_or x y i)
  then show ?thesis using or_plain [OF assms(2), of x y] by auto
next
  case (step_disjoint x y b)
  then show ?thesis using is_disjoint_mean [OF assms(2) exclusion_vars_plain, of x y] by auto
next
  case (step_restrict_by x f i)
  then show ?thesis using restrict_by_plain [OF assms(2), of x f] by auto
qed

lemma reachable_plain:
  assumes "interner_reachable R S st" shows "interner_plain R S st"
  using assms
proof induction
  case reachable_default
  then show ?case using interner_default_ok [of R S] by (simp add: interner_in_def interner_default_def vars_in_def)
qed (use step_plain in blast)

end

section \<open>Environments\<close>

text \<open>An environment that no known incompatibility excludes.\<close>

definition possible_env :: "marker_environment \<Rightarrow> bool" where
  "possible_env env \<longleftrightarrow> env_wf env \<and> \<not> known_incompatible (env_valuation env (FromExtras []))"

lemma possible_env_valuation: "possible_env env \<Longrightarrow> possible (env_valuation env extras)"
  using env_valuation_ok [of env extras] by (simp add: possible_env_def possible_def known_incompatible_def env_valuation_def)

lemma possible_env_wf: "possible_env env \<Longrightarrow> env_wf env"
  by (simp add: possible_env_def)

lemma evaluate_plain:
  assumes "interner_plain R S st" "env_wf env" "valid (i_nodes st) i"
  shows "evaluate_reporter_impl R S st env extras i = Some (sem R S (i_nodes st) (env_valuation env extras) i)"
    "evaluate R S st env names i = Some (sem R S (i_nodes st) (env_valuation env (FromExtras names)) i)"
  using evaluate_reporter_impl_sem [OF interner_plain_facts(3,4) [OF assms(1)] assms(2,3)] by (simp_all add: evaluate_def)

lemma override_extras:
  "override (\<lambda>var. case var of VExtra name \<Rightarrow> if name \<in> set names then Some True else None | _ \<Rightarrow> None) (env_valuation env (FromExtras extras))
    = env_valuation env (FromExtras (names @ extras))"
  by (auto simp: override_def env_valuation_def fun_eq_iff split: variable.splits list_pair.splits)

lemma override_not_extras:
  "override (\<lambda>var. case var of VExtra name \<Rightarrow> if P name then Some False else None | _ \<Rightarrow> None) (env_valuation env (FromExtras extras))
    = env_valuation env (FromExtras (filter (\<lambda>name. \<not> P name) extras))"
  by (auto simp: override_def env_valuation_def fun_eq_iff split: variable.splits list_pair.splits)

section \<open>Examples\<close>

definition sample_posix where
  "sample_posix = the (expression segment_ranges string_segments (EString MsOsName MEqual ''posix'') interner_default)"

definition sample_extra where
  "sample_extra = the (expression segment_ranges string_segments (EExtra (ExtraValid ''dev'') ExEqual) (snd sample_posix))"

definition sample_python :: version where
  "sample_python = the (version_new [3, 12, 4])"

definition sample_env :: marker_environment where
  "sample_env = \<lparr>implementation_name = ''cpython'', implementation_version = \<lparr>sv_string = ''3.12.4'', sv_version = sample_python\<rparr>,
     os_name = ''posix'', platform_machine = ''x86_64'', platform_python_implementation = ''CPython'', platform_release = ''6.1'',
     platform_system = ''Linux'', platform_version = ''1'', python_full_version = \<lparr>sv_string = ''3.12.4'', sv_version = sample_python\<rparr>,
     python_version = \<lparr>sv_string = ''3.12'', sv_version = the (version_new [3, 12])\<rparr>, sys_platform = ''linux''\<rparr>"

lemma sample_env_ok: "possible_env sample_env" "env_wf sample_env" "release_env sample_env"
  by code_simp+

lemma sample_ids: "fst sample_posix = 3" "length (i_nodes (snd sample_posix)) = 1" "fst sample_extra = 4" "length (i_nodes (snd sample_extra)) = 2"
  by code_simp+

lemma expression_reachable:
  assumes "marker_ranges R S" "interner_reachable R S st" "expression_ok e"
  shows "expression R S e st = Some (the (expression R S e st))" "interner_reachable R S (snd (the (expression R S e st)))"
proof -
  obtain i st' where e: "expression R S e st = Some (i, st')"
    by (rule marker_ranges.expression_plain [OF assms(1) marker_ranges.reachable_plain [OF assms(1,2)] assms(3)]) (rule that)
  show "expression R S e st = Some (the (expression R S e st))" "interner_reachable R S (snd (the (expression R S e st)))"
    using reachable_step [OF assms(2) step_expression [OF assms(3) e]] by (simp_all add: e)
qed

lemma sample_reachable:
  "interner_reachable segment_ranges string_segments (snd sample_posix)"
  "interner_reachable segment_ranges string_segments (snd sample_extra)"
proof -
  show p: "interner_reachable segment_ranges string_segments (snd sample_posix)"
    unfolding sample_posix_def by (rule expression_reachable(2) [OF markers.marker_ranges_axioms reachable_default]) simp
  show "interner_reachable segment_ranges string_segments (snd sample_extra)"
    unfolding sample_extra_def by (rule expression_reachable(2) [OF markers.marker_ranges_axioms p]) simp
qed

lemma sample_valid: "valid (i_nodes (snd sample_extra)) 3" "valid (i_nodes (snd sample_extra)) 4"
  by (simp_all add: valid_def sample_ids)

lemmas sample_facts = markers.marker_ranges_axioms sample_reachable(2) sample_valid

section \<open>Properties\<close>









text \<open>
  C16: markers that are reported disjoint are never both true in a possible environment.
\<close>

theorem is_disjoint_safe:
  assumes "marker_ranges R S" "interner_reachable R S st" "valid (i_nodes st) x" "valid (i_nodes st) y" "possible_env env"
    "is_disjoint R S x y st = Some (True, st')"
  shows "\<not> (evaluate R S st env extras x = Some True \<and> evaluate R S st env extras y = Some True)"
proof -
  have I: "interner_plain R S st" by (rule marker_ranges.reachable_plain [OF assms(1,2)])
  note e = evaluate_plain(2) [OF I possible_env_wf [OF assms(5)], of _ extras]
  show ?thesis
  proof (rule marker_ranges.is_disjoint_mean [OF assms(1) I exclusion_vars_plain assms(3,4)])
    fix b st1
    assume "is_disjoint R S x y st = Some (b, st1)"
      and s: "\<And>val. b \<Longrightarrow> possible val \<Longrightarrow> \<not> (sem R S (i_nodes st) val x \<and> sem R S (i_nodes st) val y)"
    then have b by (simp add: assms(6))
    from s [OF this possible_env_valuation [OF assms(5)]] show ?thesis using e [OF assms(3)] e [OF assms(4)] by simp
  qed
qed

theorem is_disjoint_safe_witness:
  "is_disjoint segment_ranges string_segments 3 2 (snd sample_extra) = Some (True, snd sample_extra)
    \<and> \<not> (evaluate segment_ranges string_segments (snd sample_extra) sample_env [] 3 = Some True
          \<and> evaluate segment_ranges string_segments (snd sample_extra) sample_env [] 2 = Some True)"
proof -
  have v: "valid (i_nodes (snd sample_extra)) 2" unfolding valid_def sample_ids by simp
  have d: "is_disjoint segment_ranges string_segments 3 2 (snd sample_extra) = Some (True, snd sample_extra)"
    by (simp add: is_disjoint_def disjoint_shortcut_def id_not_def)
  show ?thesis using d is_disjoint_safe [OF sample_facts(1-3) v sample_env_ok(1) d] by (rule conjI)
qed



text \<open>
  C19: evaluation without an environment brackets every evaluation with one: what the extras alone
  make true is true in every environment, and what is true in some environment is not ruled out
  by the extras.
\<close>

theorem extras_bracket_evaluation:
  assumes "marker_ranges R S" "interner_reachable R S st" "valid (i_nodes st) x" "env_wf env"
  shows "\<exists>a b c. evaluate_only_extras st extras x = Some a \<and> evaluate R S st env extras x = Some b \<and> evaluate_extras st extras x = Some c
    \<and> \<not> (a \<and> \<not> b) \<and> \<not> (b \<and> \<not> c)"
proof -
  have I: "interner_plain R S st" by (rule marker_ranges.reachable_plain [OF assms(1,2)])
  have "extras_agree extras (env_valuation env (FromExtras extras))" by (simp add: extras_agree_def env_valuation_def)
  then show ?thesis
    using evaluate_extras_fuel_sound [OF interner_plain_facts(3) [OF I] assms(3), of "Suc x" extras] env_valuation_ok [OF assms(4)]
      evaluate_plain(2) [OF I assms(4,3), of extras]
    unfolding evaluate_extras_def evaluate_only_extras_def by auto
qed

theorem extras_bracket_evaluation_witness:
  "\<exists>a b c. evaluate_only_extras (snd sample_extra) [''dev''] 4 = Some a
    \<and> evaluate segment_ranges string_segments (snd sample_extra) sample_env [''dev''] 4 = Some b
    \<and> evaluate_extras (snd sample_extra) [''dev''] 4 = Some c \<and> \<not> (a \<and> \<not> b) \<and> \<not> (b \<and> \<not> c)"
  by (rule extras_bracket_evaluation [OF sample_facts(1,2,4) sample_env_ok(2)])



text \<open>
  C37: \<open>python_version != 'X.Y.Z.*'\<close> with a further segment that is not zero is the marker that is
  always false, though the comparison holds for every interpreter.
\<close>

theorem python_version_not_equal_star_differs:
  assumes "sp_operator s = OpNotEqualStar" "version_release (sp_version s) = major # minor # others" "\<not> list_all (\<lambda>x. x = 0) others"
  shows "python_version_to_full_version s = Err id_false
    \<and> release_holds OpNotEqualStar (version_release (sp_version s)) (major_minor xs)"
  using assms prefix_major_minor(2) [of major minor others xs]
  by (simp add: python_version_to_full_version_def full_version_star_def is_star_def)

theorem python_version_not_equal_star_differs_witness:
  "python_version_to_full_version (spec OpNotEqualStar (the (version_new [3, 9, 1]))) = Err id_false
    \<and> release_holds OpNotEqualStar (version_release (sp_version (spec OpNotEqualStar (the (version_new [3, 9, 1]))))) (major_minor [3, 12, 4])"
proof (rule python_version_not_equal_star_differs)
  show "version_release (sp_version (spec OpNotEqualStar (the (version_new [3, 9, 1])))) = [3, 9, 1]" by code_simp
qed simp_all

end
