(* ===== verification/Spec2Isabelle.thy ===== *)
theory Spec2Isabelle
  imports Marker_Properties
begin

text \<open>
  A verification library for uv, the Python package manager.
\<close>

end
